(* ===== verification/Prelude.thy ===== *)
theory Prelude
  imports Main "HOL-Library.Word"
begin

text \<open>
  Shared vocabulary of the development: the machine-integer types of the C++ sources, the
  collections of rewrite rules the component theories use, and generic facts about words,
  lists and binary logarithms that more than one component needs.
\<close>

unbundle bit_operations_syntax

section \<open>Machine integers\<close>

text \<open>
  \<open>std::uint8_t\<close>, \<open>std::uint16_t\<close>, \<open>std::uint32_t\<close> and \<open>std::uint64_t\<close> are words of
  their width, so that their arithmetic wraps as in C++. A \<open>std::size_t\<close> that indexes or
  measures a container is a \<^typ>\<open>nat\<close>: the containers of the program are far smaller than
  \<open>2 ^ 64\<close>, which the component theories state as bounds.
\<close>

type_synonym u8 = "8 word"
type_synonym u16 = "16 word"
type_synonym u32 = "32 word"
type_synonym u64 = "64 word"

named_theorems op_simps "what fresh components and the constants of the program are"
named_theorems inv_intros "operations keep the invariants of their components"

section \<open>Words\<close>

lemma unat_u64_less: "unat (w :: u64) < 2 ^ 64"
  using unsigned_less [of w, where ?'a = nat] by simp

lemma unat_u32_less: "unat (w :: u32) < 2 ^ 32"
  using unsigned_less [of w, where ?'a = nat] by simp

lemma unat_plus_one_if:
  fixes w :: "'a::len word"
  assumes "unat w + 1 < 2 ^ LENGTH('a)"
  shows "unat (w + 1) = unat w + 1"
proof -
  have "unat (w + 1) = (unat w + unat (1 :: 'a word)) mod 2 ^ LENGTH('a)"
    by (simp add: unat_word_ariths)
  also have "unat (1 :: 'a word) = 1"
    by simp
  finally show ?thesis using assms by simp
qed

lemma unat_of_nat_small:
  assumes "n < 2 ^ LENGTH('a::len)"
  shows "unat (of_nat n :: 'a word) = n"
  using assms by (simp add: unat_of_nat take_bit_nat_eq_self)

lemma unat_minus_le:
  fixes v w :: "'a::len word"
  assumes "w \<le> v"
  shows "unat (v - w) = unat v - unat w"
  using assms by (simp add: unat_sub)

text \<open>The difference of two word counters is the difference of the numbers they stand for,
  as long as the numbers are less than one wrap-around apart.\<close>

lemma unat_of_nat_diff:
  assumes "b \<le> a" "a - b < 2 ^ LENGTH('a::len)"
  shows "unat (of_nat a - of_nat b :: 'a word) = a - b"
proof -
  have "(of_nat a - of_nat b :: 'a word) = of_nat (a - b)"
    using assms(1) by simp
  then show ?thesis using assms(2) by (simp only: unat_of_nat_small)
qed

text \<open>Masking with \<open>2 ^ k - 1\<close> is the remainder modulo \<open>2 ^ k\<close>.\<close>

lemma nat_and_mask: "(n :: nat) AND (2 ^ k - 1) = n mod 2 ^ k"
  using take_bit_eq_mask [of k n] by (simp add: take_bit_eq_mod mask_eq_exp_minus_1)

section \<open>Bit length\<close>

text \<open>The number of significant bits of a natural number given as an integer; 0 for 0.\<close>

function bit_length :: "int \<Rightarrow> nat" where
  "bit_length n = (if n \<le> 0 then 0 else Suc (bit_length (n div 2)))"
  by pat_completeness auto
termination
  by (relation "measure nat") auto

declare bit_length.simps [simp del]

lemma bit_length_0 [simp]: "bit_length 0 = 0"
  by (simp add: bit_length.simps)

lemma bit_length_eq_0_iff: "bit_length n = 0 \<longleftrightarrow> n \<le> 0"
  by (simp add: bit_length.simps [of n])

lemma bit_length_upper: "n < 2 ^ bit_length n"
proof (induction n rule: bit_length.induct)
  case (1 n)
  show ?case
  proof (cases "n \<le> 0")
    case True
    then show ?thesis by (simp add: bit_length.simps [of n])
  next
    case False
    then have "n div 2 < 2 ^ bit_length (n div 2)" using 1 by simp
    then have "n < 2 * 2 ^ bit_length (n div 2)" by linarith
    with False show ?thesis by (simp add: bit_length.simps [of n])
  qed
qed

lemma bit_length_lower: "0 < n \<Longrightarrow> 2 ^ (bit_length n - 1) \<le> n"
proof (induction n rule: bit_length.induct)
  case (1 n)
  show ?case
  proof (cases "n div 2 \<le> 0")
    case True
    with 1(2) show ?thesis by (simp add: bit_length.simps [of n] bit_length.simps [of "n div 2"])
  next
    case False
    then have ih: "2 ^ (bit_length (n div 2) - 1) \<le> n div 2" using 1 by simp
    have "bit_length (n div 2) \<noteq> 0" using False by (simp add: bit_length_eq_0_iff)
    then have "(2 :: int) ^ bit_length (n div 2) = 2 * 2 ^ (bit_length (n div 2) - 1)"
      by (cases "bit_length (n div 2)") auto
    with ih have "2 ^ bit_length (n div 2) \<le> n" by linarith
    with 1(2) show ?thesis by (simp add: bit_length.simps [of n])
  qed
qed

lemma bit_length_unique:
  assumes "2 ^ k \<le> n" "n < 2 ^ (k + 1)"
  shows "bit_length n = k + 1"
proof -
  have pos: "0 < n" using assms(1) by (meson less_le_trans zero_less_numeral zero_less_power)
  have "(2 :: int) ^ k < 2 ^ bit_length n"
    using assms(1) bit_length_upper [of n] by linarith
  then have a: "k < bit_length n" by simp
  have "(2 :: int) ^ (bit_length n - 1) < 2 ^ (k + 1)"
    using assms(2) bit_length_lower [OF pos] by linarith
  then have b: "bit_length n - 1 < k + 1" by (rule power_less_imp_less_exp [rotated]) simp
  from a b show ?thesis by simp
qed

lemma bit_length_le_iff: "0 \<le> n \<Longrightarrow> bit_length n \<le> k \<longleftrightarrow> n < 2 ^ k"
proof -
  assume "0 \<le> n"
  show ?thesis
  proof (cases "n = 0")
    case False
    with \<open>0 \<le> n\<close> have pos: "0 < n" by simp
    show ?thesis
    proof
      assume "bit_length n \<le> k"
      then have "(2 :: int) ^ bit_length n \<le> 2 ^ k" by simp
      with bit_length_upper [of n] show "n < 2 ^ k" by linarith
    next
      assume "n < 2 ^ k"
      with bit_length_lower [OF pos] have "(2 :: int) ^ (bit_length n - 1) < 2 ^ k" by linarith
      then have "bit_length n - 1 < k" by (rule power_less_imp_less_exp [rotated]) simp
      then show "bit_length n \<le> k" by simp
    qed
  qed simp
qed

lemma bit_length_mono: "0 \<le> m \<Longrightarrow> m \<le> n \<Longrightarrow> bit_length m \<le> bit_length n"
proof -
  assume "0 \<le> m" "m \<le> n"
  moreover from \<open>m \<le> n\<close> have "m < 2 ^ bit_length n"
    using bit_length_upper [of n] by linarith
  ultimately show ?thesis using bit_length_le_iff by blast
qed

section \<open>Quotients\<close>

lemma int_le_div: "0 < c \<Longrightarrow> b * c \<le> a \<Longrightarrow> b \<le> a div (c :: int)"
  using zdiv_mono1 [of "b * c" a c] by simp

lemma int_div_less: "0 < c \<Longrightarrow> a < b * c \<Longrightarrow> a div c < (b :: int)"
proof (rule ccontr)
  assume c: "0 < c" "a < b * c" "\<not> a div c < b"
  then have "b * c \<le> a div c * c" by (intro mult_right_mono) auto
  also have "\<dots> \<le> a" using c(1) by (simp flip: minus_mod_eq_div_mult)
  finally show False using c by simp
qed

section \<open>Lists\<close>

lemma sum_list_update_nat:
  fixes xs :: "nat list"
  assumes "i < length xs"
  shows "sum_list (xs[i := x]) + xs ! i = sum_list xs + x"
  using assms
proof (induction xs arbitrary: i)
  case Nil
  then show ?case by simp
next
  case (Cons y ys)
  then show ?case by (cases i) (auto simp: algebra_simps)
qed

lemma count_list_update:
  assumes "i < length xs"
  shows "count_list (xs[i := x]) y + (if xs ! i = y then 1 else 0)
    = count_list xs y + (if x = y then 1 else 0)"
  using assms
proof (induction xs arbitrary: i)
  case Nil
  then show ?case by simp
next
  case (Cons z zs)
  then show ?case by (cases i) (auto simp: algebra_simps)
qed

text \<open>The last \<open>n\<close> elements.\<close>

definition lastn :: "nat \<Rightarrow> 'a list \<Rightarrow> 'a list" where
  "lastn n xs = drop (length xs - n) xs"

lemma length_lastn [simp]: "length (lastn n xs) = min n (length xs)"
  by (simp add: lastn_def min_def)

lemma lastn_all: "length xs \<le> n \<Longrightarrow> lastn n xs = xs"
  by (simp add: lastn_def)

lemma lastn_0 [simp]: "lastn 0 xs = []"
  by (simp add: lastn_def)

lemma lastn_suffix: "\<exists>d. xs = d @ lastn n xs"
  unfolding lastn_def by (metis append_take_drop_id)

lemma set_lastn: "x \<in> set (lastn n xs) \<Longrightarrow> x \<in> set xs"
  unfolding lastn_def by (rule in_set_dropD)

end
