(* ===== verification/Float64.thy ===== *)
theory Float64
  imports Prelude Complex_Main
begin

text \<open>
  The arithmetic of the C++ type \<open>double\<close>. A finite double is the rational number it stands
  for, and each operation of the sources is the exact operation followed by one rounding to a
  53-bit significand, to nearest with ties to even, which is what IEEE 754 prescribes for
  \<open>+ - * /\<close>, \<open>std::sqrt\<close> and the conversions from integers. The exponent range is not
  bounded: every double of this program (milliseconds, amplitudes, percentiles, means of
  counters) lies between \<open>2 ^ -200\<close> and \<open>2 ^ 200\<close> in magnitude or is zero, far from the
  overflow and underflow thresholds. Infinities and NaNs are not values of the model.
\<close>

type_synonym double = rat

section \<open>The binary exponent of a rational number\<close>

definition ilog2 :: "rat \<Rightarrow> int" where
  "ilog2 x = (case quotient_of x of (p, q) \<Rightarrow>
     let k = int (bit_length p) - int (bit_length q)
     in if (if 0 \<le> k then 2 ^ nat k * q \<le> p else q \<le> 2 ^ nat (- k) * p) then k else k - 1)"

definition pow2 :: "int \<Rightarrow> rat" where
  "pow2 k = (if 0 \<le> k then 2 ^ nat k else 1 / 2 ^ nat (- k))"

lemma pow2_pos [simp]: "0 < pow2 k"
  by (simp add: pow2_def)

lemma pow2_nonneg [simp]: "0 \<le> pow2 k"
  using pow2_pos [of k] by linarith

lemma pow2_nonzero [simp]: "pow2 k \<noteq> 0"
  using pow2_pos [of k] by linarith

lemma pow2_powi: "pow2 k = 2 powi k"
  by (simp add: pow2_def power_int_def inverse_eq_divide power_one_over)

lemma pow2_add: "pow2 (a + b) = pow2 a * pow2 b"
  by (simp add: pow2_powi power_int_add)

lemma pow2_diff: "pow2 (a - b) = pow2 a / pow2 b"
  by (simp add: pow2_powi power_int_diff)

lemma pow2_0 [simp]: "pow2 0 = 1"
  by (simp add: pow2_def)

lemma pow2_of_nat: "pow2 (int n) = 2 ^ n"
  by (simp add: pow2_def)

lemma pow2_strict_mono: "a < b \<Longrightarrow> pow2 a < pow2 b"
  unfolding pow2_powi by (rule power_int_strict_increasing) auto

lemma pow2_mono: "a \<le> b \<Longrightarrow> pow2 a \<le> pow2 b"
  unfolding pow2_powi by (rule power_int_increasing) auto

lemma pow2_less_iff: "pow2 a < pow2 b \<longleftrightarrow> a < b"
  by (metis linorder_not_less pow2_mono pow2_strict_mono)

text \<open>The quotient of two integers lies within a factor two of the power their lengths give.\<close>

lemma bit_length_pow2:
  assumes "0 < n"
  shows "pow2 (int (bit_length n) - 1) \<le> rat_of_int n" "rat_of_int n < pow2 (int (bit_length n))"
proof -
  have a: "2 ^ (bit_length n - 1) \<le> n" "n < 2 ^ bit_length n" "0 < bit_length n"
    using bit_length_lower [OF assms] bit_length_upper [of n] assms bit_length_eq_0_iff [of n] by simp_all
  have "pow2 (int (bit_length n) - 1) = rat_of_int (2 ^ (bit_length n - 1))"
    "pow2 (int (bit_length n)) = rat_of_int (2 ^ bit_length n)"
    using a(3) by (simp_all add: pow2_def nat_diff_distrib)
  then show "pow2 (int (bit_length n) - 1) \<le> rat_of_int n" "rat_of_int n < pow2 (int (bit_length n))"
    using a(1,2) by (simp_all only: of_int_le_iff of_int_less_iff)
qed

lemma quotient_pow2:
  assumes "0 < p" "0 < q"
  defines "k \<equiv> int (bit_length p) - int (bit_length q)"
  shows "pow2 (k - 1) \<le> rat_of_int p / rat_of_int q" "rat_of_int p / rat_of_int q < pow2 (k + 1)"
proof -
  note p = bit_length_pow2 [OF assms(1)] and q = bit_length_pow2 [OF assms(2)]
  have qp: "0 < rat_of_int q" using assms(2) by simp
  have "pow2 (k - 1) * rat_of_int q \<le> pow2 (k - 1) * pow2 (int (bit_length q))"
    using q(2) by (intro mult_left_mono) auto
  also have "\<dots> = pow2 (int (bit_length p) - 1)" by (simp flip: pow2_add add: k_def)
  finally show "pow2 (k - 1) \<le> rat_of_int p / rat_of_int q" using p(1) qp by (simp add: le_divide_eq)
  have "rat_of_int p < pow2 (k + 1) * pow2 (int (bit_length q) - 1)"
    using p(2) by (simp flip: pow2_add add: k_def)
  also have "\<dots> \<le> pow2 (k + 1) * rat_of_int q"
    using q(1) by (intro mult_left_mono) auto
  finally show "rat_of_int p / rat_of_int q < pow2 (k + 1)" using qp by (simp add: divide_less_eq)
qed

lemma pow2_le_quotient:
  assumes "0 < q"
  shows "(if 0 \<le> k then 2 ^ nat k * q \<le> p else q \<le> 2 ^ nat (- k) * p) \<longleftrightarrow> pow2 k \<le> rat_of_int p / rat_of_int q"
proof (cases "0 \<le> k")
  case True
  have "2 ^ nat k * q \<le> p \<longleftrightarrow> rat_of_int (2 ^ nat k * q) \<le> rat_of_int p"
    by (simp only: of_int_le_iff)
  with True show ?thesis using assms by (simp add: pow2_def le_divide_eq)
next
  case False
  have "q \<le> 2 ^ nat (- k) * p \<longleftrightarrow> rat_of_int q \<le> rat_of_int (2 ^ nat (- k) * p)"
    by (simp only: of_int_le_iff)
  with False show ?thesis using assms by (simp add: pow2_def field_simps)
qed

lemma ilog2_bounds:
  assumes "0 < x"
  shows "pow2 (ilog2 x) \<le> x" "x < pow2 (ilog2 x + 1)"
proof -
  obtain p q where pq: "quotient_of x = (p, q)" by force
  have q: "0 < q" using quotient_of_denom_pos [OF pq] .
  have x: "x = rat_of_int p / rat_of_int q" using quotient_of_div [OF pq] .
  have p: "0 < p" using assms q unfolding x by (simp add: zero_less_divide_iff)
  define k where "k = int (bit_length p) - int (bit_length q)"
  have "ilog2 x = (if pow2 k \<le> x then k else k - 1)"
    unfolding ilog2_def pq prod.case Let_def k_def [symmetric] pow2_le_quotient [OF q] x [symmetric] ..
  then show "pow2 (ilog2 x) \<le> x" "x < pow2 (ilog2 x + 1)"
    using quotient_pow2 [OF p q] unfolding k_def [symmetric] x [symmetric] by auto
qed

lemma ilog2_unique:
  assumes "pow2 k \<le> x" "x < pow2 (k + 1)"
  shows "ilog2 x = k"
proof -
  have "0 < x" using assms(1) pow2_pos [of k] by linarith
  then have b: "pow2 (ilog2 x) \<le> x" "x < pow2 (ilog2 x + 1)" by (rule ilog2_bounds)+
  have "pow2 (ilog2 x) < pow2 (k + 1)" "pow2 k < pow2 (ilog2 x + 1)"
    using assms b by linarith+
  then show ?thesis by (simp add: pow2_less_iff)
qed

lemma ilog2_mono:
  assumes "0 < x" "x \<le> y"
  shows "ilog2 x \<le> ilog2 y"
proof -
  have "pow2 (ilog2 x) < pow2 (ilog2 y + 1)"
    using ilog2_bounds [of x] ilog2_bounds [of y] assms by linarith
  then show ?thesis by (simp add: pow2_less_iff)
qed

section \<open>Rounding to nearest, ties to even\<close>

definition rne :: "rat \<Rightarrow> int" where
  "rne x = (let f = \<lfloor>x\<rfloor>; d = x - of_int f
     in if d < 1 / 2 then f else if 1 / 2 < d then f + 1 else if even f then f else f + 1)"

lemma rne_of_int [simp]: "rne (of_int n) = n"
  by (simp add: rne_def)

lemma rne_error: "\<bar>of_int (rne x) - x\<bar> \<le> 1 / 2"
  unfolding rne_def Let_def by (auto simp: abs_if) linarith+

lemma rne_range: "rne x = \<lfloor>x\<rfloor> \<or> rne x = \<lfloor>x\<rfloor> + 1"
  by (simp add: rne_def Let_def)

lemma rne_mono:
  assumes "x \<le> y"
  shows "rne x \<le> rne y"
proof (cases "\<lfloor>x\<rfloor> = \<lfloor>y\<rfloor>")
  case True
  with assms show ?thesis unfolding rne_def Let_def True by auto
next
  case False
  then have "\<lfloor>x\<rfloor> + 1 \<le> \<lfloor>y\<rfloor>" using floor_mono [OF assms] by simp
  then show ?thesis using rne_range [of x] rne_range [of y] by linarith
qed

lemma rne_minus: "rne (- x) = - rne x"
proof (cases "x = of_int \<lfloor>x\<rfloor>")
  case True
  then show ?thesis by (metis of_int_minus rne_of_int)
next
  case False
  then have "of_int \<lfloor>x\<rfloor> < x" by linarith
  then have "\<lfloor>- x\<rfloor> = - \<lfloor>x\<rfloor> - 1" by linarith
  then show ?thesis unfolding rne_def Let_def by auto
qed

definition rnd :: "rat \<Rightarrow> double" where
  "rnd x = (if x = 0 then 0
     else let e = ilog2 \<bar>x\<bar> - 52 in of_int (rne (x / pow2 e)) * pow2 e)"

lemma rnd_0 [simp]: "rnd 0 = 0"
  by (simp add: rnd_def)

lemma rnd_minus: "rnd (- x) = - rnd x"
  by (simp add: rnd_def Let_def rne_minus)

lemma rnd_pos_bounds:
  assumes "0 < x"
  shows "pow2 (ilog2 x) \<le> rnd x" "rnd x \<le> pow2 (ilog2 x + 1)"
proof -
  define e where "e = ilog2 x - 52"
  have b: "pow2 (ilog2 x) \<le> x" "x < pow2 (ilog2 x + 1)" using ilog2_bounds [OF assms] .
  have p52: "pow2 (ilog2 x) = of_int (2 ^ 52) * pow2 e"
    using pow2_add [of 52 e] pow2_of_nat [of 52] by (simp add: e_def)
  have p53: "pow2 (ilog2 x + 1) = of_int (2 ^ 53) * pow2 e"
    using pow2_add [of 53 e] pow2_of_nat [of 53] by (simp add: e_def add.commute)
  have "of_int (2 ^ 52) \<le> x / pow2 e" "x / pow2 e \<le> of_int (2 ^ 53)"
    using b unfolding p52 p53 by (simp_all add: le_divide_eq divide_le_eq del: of_int_power)
  then have "2 ^ 52 \<le> rne (x / pow2 e)" "rne (x / pow2 e) \<le> 2 ^ 53"
    using rne_mono [of "of_int (2 ^ 52)" "x / pow2 e"] rne_mono [of "x / pow2 e" "of_int (2 ^ 53)"]
    by (simp_all only: rne_of_int)
  then have "of_int (2 ^ 52) * pow2 e \<le> of_int (rne (x / pow2 e)) * pow2 e"
      "of_int (rne (x / pow2 e)) * pow2 e \<le> of_int (2 ^ 53) * pow2 e"
    by (simp_all only: mult_le_cancel_right_pos [OF pow2_pos] of_int_le_iff)
  then show "pow2 (ilog2 x) \<le> rnd x" "rnd x \<le> pow2 (ilog2 x + 1)"
    using assms unfolding p52 p53 by (simp_all add: rnd_def e_def Let_def)
qed

lemma rnd_mono_pos:
  assumes "0 < x" "x \<le> y"
  shows "rnd x \<le> rnd y"
proof (cases "ilog2 x = ilog2 y")
  case True
  define e where "e = ilog2 x - 52"
  have "x / pow2 e \<le> y / pow2 e" using assms by (simp add: divide_right_mono)
  then have "rne (x / pow2 e) \<le> rne (y / pow2 e)" by (rule rne_mono)
  then have "of_int (rne (x / pow2 e)) * pow2 e \<le> of_int (rne (y / pow2 e)) * pow2 e"
    by (simp add: mult_right_mono)
  then show ?thesis using assms True by (simp add: rnd_def Let_def e_def)
next
  case False
  then have "ilog2 x + 1 \<le> ilog2 y" using ilog2_mono [OF assms] by simp
  then have "pow2 (ilog2 x + 1) \<le> pow2 (ilog2 y)" by (rule pow2_mono)
  then show ?thesis using rnd_pos_bounds [of x] rnd_pos_bounds [of y] assms by linarith
qed

lemma rnd_pos: "0 < x \<Longrightarrow> 0 < rnd x"
  using rnd_pos_bounds(1) [of x] pow2_pos [of "ilog2 x"] by linarith

lemma rnd_mono: "x \<le> y \<Longrightarrow> rnd x \<le> rnd y"
proof -
  assume xy: "x \<le> y"
  consider "0 < x" | "x \<le> 0" "0 \<le> y" | "y < 0" using xy by linarith
  then show ?thesis
  proof cases
    case 1
    then show ?thesis using xy by (rule rnd_mono_pos)
  next
    case 2
    have "rnd x \<le> 0" using rnd_pos [of "- x"] rnd_minus [of x] 2(1) by (cases "x = 0") auto
    moreover have "0 \<le> rnd y" using rnd_pos [of y] 2(2) by (cases "y = 0") auto
    ultimately show ?thesis by linarith
  next
    case 3
    then have "rnd (- y) \<le> rnd (- x)" using xy by (intro rnd_mono_pos) auto
    then show ?thesis by (simp add: rnd_minus)
  qed
qed

text \<open>A number with at most 53 significant bits is a double: rounding leaves it unchanged.\<close>

lemma mantissa_exact:
  fixes n k :: int
  assumes n: "0 < n" "n \<le> 2 ^ 53"
  defines "x \<equiv> rat_of_int n * pow2 k"
  shows "\<exists>j. x / pow2 (ilog2 x - 52) = of_int j"
proof -
  define e where "e = ilog2 x - 52"
  have x: "0 < x" using n by (simp add: x_def)
  have q: "of_int (2 ^ 53) * pow2 k = pow2 (k + 53)"
    using pow2_add [of k 53] pow2_of_nat [of 53] by simp
  have le: "x \<le> pow2 (k + 53)"
    unfolding x_def q [symmetric] using n by (intro mult_right_mono) (simp_all only: of_int_le_iff pow2_nonneg)
  have ge: "pow2 (e + 52) \<le> x" using ilog2_bounds(1) [OF x] by (simp add: e_def)
  show ?thesis
  proof (cases "k \<ge> e")
    case True
    then have "pow2 k / pow2 e = of_int (2 ^ nat (k - e))"
      unfolding pow2_diff [symmetric] by (simp add: pow2_def)
    then have "x / pow2 e = of_int (n * 2 ^ nat (k - e))"
      unfolding x_def by (simp flip: times_divide_eq_right)
    then show ?thesis unfolding e_def ..
  next
    case False
    have "\<not> k + 53 < e + 52" using le ge pow2_strict_mono [of "k + 53" "e + 52"] by linarith
    with False have e: "e = k + 1" by linarith
    then have "x = pow2 (k + 53)" using le ge by (simp add: add.commute)
    then have "x / pow2 e = of_int (2 ^ 52)"
      using e pow2_of_nat [of 52] by (simp flip: pow2_diff)
    then show ?thesis unfolding e_def by blast
  qed
qed

lemma rnd_exact:
  assumes "\<bar>m\<bar> \<le> 2 ^ 53"
  shows "rnd (of_int m * pow2 k) = of_int m * pow2 k"
proof -
  have pos: "rnd (of_int n * pow2 k) = of_int n * pow2 k" if n: "0 < n" "n \<le> 2 ^ 53" for n
  proof -
    define x where "x = rat_of_int n * pow2 k"
    obtain j where j: "x / pow2 (ilog2 x - 52) = of_int j"
      using mantissa_exact [OF n, of k] unfolding x_def by blast
    then have "x = of_int j * pow2 (ilog2 x - 52)" by (simp add: divide_eq_eq)
    moreover have "rnd x = of_int (rne (x / pow2 (ilog2 x - 52))) * pow2 (ilog2 x - 52)"
      using n by (simp add: rnd_def Let_def x_def)
    ultimately show ?thesis unfolding x_def [symmetric] j by simp
  qed
  consider "m = 0" | "0 < m" | "m < 0" by linarith
  then show ?thesis
  proof cases
    case 3
    then have "rnd (of_int (- m) * pow2 k) = of_int (- m) * pow2 k"
      using assms by (intro pos) auto
    then show ?thesis using rnd_minus [of "of_int m * pow2 k"] by simp
  qed (use pos assms in auto)
qed

lemma rnd_of_int: "\<bar>m\<bar> \<le> 2 ^ 53 \<Longrightarrow> rnd (of_int m) = of_int m"
  using rnd_exact [of m 0] by simp

text \<open>One rounding moves a value by at most one part in \<open>2 ^ 53\<close>.\<close>

lemma rnd_rel_error: "\<bar>rnd x - x\<bar> \<le> \<bar>x\<bar> / 2 ^ 53"
proof (cases "x = 0")
  case False
  define e where "e = ilog2 \<bar>x\<bar> - 52"
  have e: "pow2 e * 2 ^ 52 \<le> \<bar>x\<bar>"
    using ilog2_bounds(1) [of "\<bar>x\<bar>"] False pow2_add [of e 52] pow2_of_nat [of 52] by (simp add: e_def)
  have "rnd x - x = (of_int (rne (x / pow2 e)) - x / pow2 e) * pow2 e"
    using False by (simp add: rnd_def Let_def e_def left_diff_distrib)
  then have "\<bar>rnd x - x\<bar> = \<bar>of_int (rne (x / pow2 e)) - x / pow2 e\<bar> * pow2 e"
    by (simp add: abs_mult)
  also have "\<dots> \<le> 1 / 2 * pow2 e"
    by (intro mult_right_mono rne_error) simp
  also have "\<dots> \<le> \<bar>x\<bar> / 2 ^ 53" using e by (simp add: field_simps)
  finally show ?thesis .
qed simp

section \<open>The contract of a rounding and its consequences\<close>

text \<open>
  The client lemmas about floating-point code use four laws of the rounding only: it is
  monotone, it is idempotent, it commutes with negation, and it keeps the integers up to
  \<open>2 ^ 53\<close>.
\<close>

locale rounding =
  fixes rd :: "rat \<Rightarrow> rat"
  assumes rd_mono: "x \<le> y \<Longrightarrow> rd x \<le> rd y"
    and rd_idem: "rd (rd x) = rd x"
    and rd_minus: "rd (- x) = - rd x"
    and rd_of_int: "\<bar>n\<bar> \<le> 2 ^ 53 \<Longrightarrow> rd (of_int n) = of_int n"
begin

lemma rd_0 [simp]: "rd 0 = 0"
  using rd_of_int [of 0] by simp

lemma rd_nonneg: "0 \<le> x \<Longrightarrow> 0 \<le> rd x"
  using rd_mono [of 0 x] by simp

lemma rd_le_int: "x \<le> of_int n \<Longrightarrow> \<bar>n\<bar> \<le> 2 ^ 53 \<Longrightarrow> rd x \<le> of_int n"
  using rd_mono [of x "of_int n"] rd_of_int [of n] by simp

lemma rd_ge_int: "of_int n \<le> x \<Longrightarrow> \<bar>n\<bar> \<le> 2 ^ 53 \<Longrightarrow> of_int n \<le> rd x"
  using rd_mono [of "of_int n" x] rd_of_int [of n] by simp

lemma rd_le_value: "x \<le> rd y \<Longrightarrow> rd x \<le> rd y"
  using rd_mono [of x "rd y"] by (simp add: rd_idem)

lemma rd_abs_le_int: "\<bar>x\<bar> \<le> of_int n \<Longrightarrow> \<bar>n\<bar> \<le> 2 ^ 53 \<Longrightarrow> \<bar>rd x\<bar> \<le> of_int n"
  using rd_le_int [of x n] rd_ge_int [of "- n" x] by (simp add: abs_le_iff)

end

lemma rnd_idem: "rnd (rnd x) = rnd x"
proof (cases "x = 0")
  case False
  define e where "e = ilog2 \<bar>x\<bar> - 52"
  define m where "m = rne (x / pow2 e)"
  have r: "rnd x = of_int m * pow2 e" using False by (simp add: rnd_def Let_def e_def m_def)
  have "e + 53 = ilog2 \<bar>x\<bar> + 1" by (simp add: e_def)
  then have "\<bar>x\<bar> < pow2 (e + 53)" using ilog2_bounds(2) [of "\<bar>x\<bar>"] 
    by (simp only: False zero_less_abs_iff not_False_eq_True)
  also have "pow2 (e + 53) = of_int (2 ^ 53) * pow2 e" using pow2_add [of e 53] pow2_of_nat [of 53] by simp
  finally have ax: "\<bar>x / pow2 e\<bar> < of_int (2 ^ 53)"
    by (simp add: abs_divide divide_less_eq del: of_int_power)
  then have "x / pow2 e \<le> of_int (2 ^ 53)" "of_int (- (2 ^ 53)) \<le> x / pow2 e" by linarith+
  then have "m \<le> 2 ^ 53" "- (2 ^ 53) \<le> m"
    unfolding m_def using rne_mono rne_of_int by metis+
  then show ?thesis unfolding r by (intro rnd_exact) (simp add: abs_le_iff)
qed simp

interpretation f64: rounding rnd
  by unfold_locales (auto simp: rnd_mono rnd_idem rnd_minus intro: rnd_of_int)

section \<open>The operations of the sources\<close>

definition fadd :: "double \<Rightarrow> double \<Rightarrow> double" where
  "fadd x y = rnd (x + y)"

definition fsub :: "double \<Rightarrow> double \<Rightarrow> double" where
  "fsub x y = rnd (x - y)"

definition fmul :: "double \<Rightarrow> double \<Rightarrow> double" where
  "fmul x y = rnd (x * y)"

text \<open>Division by a non-zero divisor; the sources test their divisors or use constants.\<close>

definition fdiv :: "double \<Rightarrow> double \<Rightarrow> double" where
  "fdiv x y = rnd (x / y)"

text \<open>\<open>static_cast<double>\<close> of an integer and of an unsigned 64-bit value.\<close>

definition f_of_int :: "int \<Rightarrow> double" where
  "f_of_int n = rnd (of_int n)"

definition f_of_u64 :: "u64 \<Rightarrow> double" where
  "f_of_u64 w = f_of_int (uint w)"

text \<open>
  \<open>static_cast<std::uint64_t>\<close> of a double: the fraction is discarded. C++ leaves the
  conversion undefined when the integral part is not representable; the model then wraps,
  and every lemma that uses the value states the range.
\<close>

definition f_trunc :: "double \<Rightarrow> int" where
  "f_trunc x = (if 0 \<le> x then \<lfloor>x\<rfloor> else \<lceil>x\<rceil>)"

definition u64_of_f :: "double \<Rightarrow> u64" where
  "u64_of_f x = word_of_int (f_trunc x)"

lemma f_of_u64_mono: "a \<le> b \<Longrightarrow> f_of_u64 a \<le> f_of_u64 b"
  unfolding f_of_u64_def f_of_int_def word_le_def
  by (rule rnd_mono, rule of_int_le_iff [THEN iffD2])

lemma f_of_u64_nonneg: "0 \<le> f_of_u64 a"
  unfolding f_of_u64_def f_of_int_def
  by (rule f64.rd_nonneg, rule of_int_0_le_iff [THEN iffD2]) simp

lemma fdiv_mono: "x \<le> y \<Longrightarrow> 0 \<le> c \<Longrightarrow> fdiv x c \<le> fdiv y c"
  unfolding fdiv_def by (intro rnd_mono divide_right_mono)

lemma fmul_mono: "x \<le> y \<Longrightarrow> 0 \<le> c \<Longrightarrow> fmul x c \<le> fmul y c"
  unfolding fmul_def by (intro rnd_mono mult_right_mono)

lemma fdiv_nonneg: "0 \<le> x \<Longrightarrow> 0 \<le> y \<Longrightarrow> 0 \<le> fdiv x y"
  unfolding fdiv_def by (intro f64.rd_nonneg) simp

lemma fmul_nonneg: "0 \<le> x \<Longrightarrow> 0 \<le> y \<Longrightarrow> 0 \<le> fmul x y"
  unfolding fmul_def by (intro f64.rd_nonneg) simp

lemma f_trunc_mono: "x \<le> y \<Longrightarrow> f_trunc x \<le> f_trunc y"
proof -
  assume xy: "x \<le> y"
  consider "0 \<le> x" | "x < 0" "0 \<le> y" | "y < 0" using xy by linarith
  then show ?thesis
  proof cases
    case 2
    then have "\<lceil>x\<rceil> \<le> 0" "0 \<le> \<lfloor>y\<rfloor>" by simp_all
    then have "\<lceil>x\<rceil> \<le> \<lfloor>y\<rfloor>" by (rule order_trans)
    with 2 show ?thesis unfolding f_trunc_def by simp
  qed (use xy in \<open>auto simp: f_trunc_def intro: floor_mono ceiling_mono\<close>)
qed

lemma f_trunc_of_int [simp]: "f_trunc (of_int n) = n"
  by (simp add: f_trunc_def)

section \<open>Square root\<close>

function isqrt :: "int \<Rightarrow> int" where
  "isqrt n = (if n \<le> 0 then 0
     else let r = 2 * isqrt (n div 4) in if (r + 1) * (r + 1) \<le> n then r + 1 else r)"
  by pat_completeness auto
termination
  by (relation "measure nat") auto

declare isqrt.simps [simp del]

lemma isqrt_spec:
  assumes "0 \<le> n"
  shows "0 \<le> isqrt n \<and> isqrt n * isqrt n \<le> n \<and> n < (isqrt n + 1) * (isqrt n + 1)"
  using assms
proof (induction n rule: isqrt.induct)
  case (1 n)
  show ?case
  proof (cases "n = 0")
    case True
    then show ?thesis by (simp add: isqrt.simps)
  next
    case False
    define s where "s = isqrt (n div 4)"
    have ih: "0 \<le> s" "s * s \<le> n div 4" "n div 4 < (s + 1) * (s + 1)"
      using 1 False unfolding s_def by auto
    then have "4 * (s * s) \<le> n" "n < 4 * ((s + 1) * (s + 1))" by linarith+
    then have "(2 * s) * (2 * s) \<le> n" "n < (2 * s + 2) * (2 * s + 2)" by (auto simp: algebra_simps)
    moreover have "isqrt n = (if (2 * s + 1) * (2 * s + 1) \<le> n then 2 * s + 1 else 2 * s)"
      using False 1(2) s_def by (simp add: isqrt.simps [of n] Let_def)
    ultimately show ?thesis using ih(1) by (auto simp: add.assoc)
  qed
qed

lemma isqrt_unique:
  assumes "0 \<le> r" "r * r \<le> n" "n < (r + 1) * (r + 1)"
  shows "isqrt n = r"
proof -
  have n: "0 \<le> n" using assms(2) by (meson order_trans zero_le_square)
  have s: "0 \<le> isqrt n" "isqrt n * isqrt n \<le> n" "n < (isqrt n + 1) * (isqrt n + 1)"
    using isqrt_spec [OF n] by auto
  have "isqrt n < r + 1"
    by (rule ccontr) (use assms s mult_mono [of "r + 1" "isqrt n" "r + 1" "isqrt n"] in auto)
  moreover have "r < isqrt n + 1"
    by (rule ccontr) (use assms s mult_mono [of "isqrt n + 1" r "isqrt n + 1" r] in auto)
  ultimately show ?thesis by simp
qed

lemma isqrt_mono:
  assumes "0 \<le> m" "m \<le> n"
  shows "isqrt m \<le> isqrt n"
proof (rule ccontr)
  assume "\<not> isqrt m \<le> isqrt n"
  then have "(isqrt n + 1) * (isqrt n + 1) \<le> isqrt m * isqrt m"
    using isqrt_spec [of n] assms by (intro mult_mono) auto
  then show False using isqrt_spec [of m] isqrt_spec [of n] assms by linarith
qed

text \<open>
  The correctly rounded square root: \<open>x\<close> is scaled by a power of four so that its integer
  square root has 53 bits, and the next bit decides the rounding.
\<close>

definition sqrt_rne :: "rat \<Rightarrow> int" where
  "sqrt_rne y = (let m = isqrt \<lfloor>y\<rfloor>; h = of_int ((2 * m + 1) * (2 * m + 1))
     in if 4 * y < h then m else if h < 4 * y then m + 1 else if even m then m else m + 1)"

definition fsqrt :: "double \<Rightarrow> double" where
  "fsqrt x = (if x \<le> 0 then 0
     else let e = ilog2 x div 2 - 52 in of_int (sqrt_rne (x / pow2 (2 * e))) * pow2 e)"

lemma sqrt_rne_mono:
  assumes "0 \<le> x" "x \<le> y"
  shows "sqrt_rne x \<le> sqrt_rne y"
proof -
  have fl: "0 \<le> \<lfloor>x\<rfloor>" "\<lfloor>x\<rfloor> \<le> \<lfloor>y\<rfloor>" using assms by (auto intro: floor_mono)
  have le: "isqrt \<lfloor>x\<rfloor> \<le> isqrt \<lfloor>y\<rfloor>" by (rule isqrt_mono [OF fl])
  show ?thesis
  proof (cases "isqrt \<lfloor>x\<rfloor> = isqrt \<lfloor>y\<rfloor>")
    case True
    then show ?thesis using assms unfolding sqrt_rne_def Let_def True by auto
  next
    case False
    with le have "isqrt \<lfloor>x\<rfloor> + 1 \<le> isqrt \<lfloor>y\<rfloor>" by simp
    then show ?thesis unfolding sqrt_rne_def Let_def by (simp split: if_split)
  qed
qed

lemma sqrt_rne_square:
  assumes "0 \<le> n"
  shows "sqrt_rne (of_int (n * n)) = n"
proof -
  have "isqrt (n * n) = n" using assms by (intro isqrt_unique) (auto simp: algebra_simps)
  moreover have "4 * (n * n) < (2 * n + 1) * (2 * n + 1)" using assms by (simp add: algebra_simps)
  then have "4 * rat_of_int (n * n) < of_int ((2 * n + 1) * (2 * n + 1))"
    by (metis of_int_less_iff of_int_mult of_int_numeral)
  ultimately show ?thesis unfolding sqrt_rne_def Let_def by (simp only: floor_of_int if_True)
qed

lemma fsqrt_0 [simp]: "fsqrt 0 = 0"
  by (simp add: fsqrt_def)

lemma ilog2_half:
  assumes "0 < x"
  shows "pow2 (2 * (ilog2 x div 2)) \<le> x" "x < pow2 (2 * (ilog2 x div 2) + 2)"
proof -
  have "2 * (ilog2 x div 2) \<le> ilog2 x" "ilog2 x + 1 \<le> 2 * (ilog2 x div 2) + 2" by linarith+
  then have "pow2 (2 * (ilog2 x div 2)) \<le> pow2 (ilog2 x)"
      "pow2 (ilog2 x + 1) \<le> pow2 (2 * (ilog2 x div 2) + 2)"
    by (simp_all only: pow2_mono)
  then show "pow2 (2 * (ilog2 x div 2)) \<le> x" "x < pow2 (2 * (ilog2 x div 2) + 2)"
    using ilog2_bounds [OF assms] by linarith+
qed

lemma fsqrt_pos_bounds:
  assumes "0 < x"
  shows "pow2 (ilog2 x div 2) \<le> fsqrt x" "fsqrt x \<le> pow2 (ilog2 x div 2 + 1)"
proof -
  define e where "e = ilog2 x div 2 - 52"
  define y where "y = x / pow2 (2 * e)"
  have e: "ilog2 x div 2 = e + 52" by (simp add: e_def)
  have p: "pow2 (2 * (e + 52)) = of_int (2 ^ 52 * 2 ^ 52) * pow2 (2 * e)"
      "pow2 (2 * (e + 52) + 2) = of_int (2 ^ 53 * 2 ^ 53) * pow2 (2 * e)"
    using pow2_add [of "2 * e" 104] pow2_of_nat [of 104] pow2_add [of "2 * e" 106] pow2_of_nat [of 106]
    by (simp_all add: add.commute)
  have "of_int (2 ^ 52 * 2 ^ 52) \<le> y" "y \<le> of_int (2 ^ 53 * 2 ^ 53)"
    using ilog2_half [OF assms] unfolding e p y_def
    by (simp_all only: le_divide_eq divide_le_eq pow2_pos if_True less_imp_le)
  then have "sqrt_rne (of_int (2 ^ 52 * 2 ^ 52)) \<le> sqrt_rne y"
      "sqrt_rne y \<le> sqrt_rne (of_int (2 ^ 53 * 2 ^ 53))"
    by (auto intro!: sqrt_rne_mono simp del: of_int_mult of_int_power intro: order_trans [rotated])
  then have "2 ^ 52 \<le> sqrt_rne y" "sqrt_rne y \<le> 2 ^ 53"
    by (simp_all only: sqrt_rne_square zero_le_power zero_le_numeral)
  then have "of_int (2 ^ 52) * pow2 e \<le> of_int (sqrt_rne y) * pow2 e"
      "of_int (sqrt_rne y) * pow2 e \<le> of_int (2 ^ 53) * pow2 e"
    by (simp_all only: mult_le_cancel_right_pos [OF pow2_pos] of_int_le_iff)
  moreover have "pow2 (e + 52) = of_int (2 ^ 52) * pow2 e" "pow2 (e + 52 + 1) = of_int (2 ^ 53) * pow2 e"
    using pow2_add [of e 52] pow2_of_nat [of 52] pow2_add [of e 53] pow2_of_nat [of 53]
    by (simp_all add: add.commute)
  moreover have "fsqrt x = of_int (sqrt_rne y) * pow2 e"
    using assms by (simp add: fsqrt_def Let_def e_def y_def)
  ultimately show "pow2 (ilog2 x div 2) \<le> fsqrt x" "fsqrt x \<le> pow2 (ilog2 x div 2 + 1)"
    unfolding e by simp_all
qed

lemma fsqrt_nonneg: "0 \<le> fsqrt x"
proof (cases "0 < x")
  case True
  then show ?thesis using fsqrt_pos_bounds(1) [of x] pow2_pos [of "ilog2 x div 2"] by linarith
qed (simp add: fsqrt_def)

lemma fsqrt_mono:
  assumes "x \<le> y"
  shows "fsqrt x \<le> fsqrt y"
proof (cases "0 < x")
  case True
  show ?thesis
  proof (cases "ilog2 x div 2 = ilog2 y div 2")
    case eq: True
    define e where "e = ilog2 x div 2 - 52"
    have "x / pow2 (2 * e) \<le> y / pow2 (2 * e)" "0 \<le> x / pow2 (2 * e)"
      using assms True by (simp_all add: divide_right_mono)
    then have "sqrt_rne (x / pow2 (2 * e)) \<le> sqrt_rne (y / pow2 (2 * e))"
      by (intro sqrt_rne_mono)
    then have "of_int (sqrt_rne (x / pow2 (2 * e))) * pow2 e \<le> of_int (sqrt_rne (y / pow2 (2 * e))) * pow2 e"
      by (simp add: mult_right_mono)
    then show ?thesis using assms True eq by (simp add: fsqrt_def Let_def e_def)
  next
    case False
    then have "ilog2 x div 2 + 1 \<le> ilog2 y div 2"
      using ilog2_mono [OF True assms] by linarith
    then have "pow2 (ilog2 x div 2 + 1) \<le> pow2 (ilog2 y div 2)" by (rule pow2_mono)
    then show ?thesis
      using fsqrt_pos_bounds(2) [OF True] fsqrt_pos_bounds(1) [of y] True assms by linarith
  qed
next
  case False
  then show ?thesis using fsqrt_nonneg [of y] by (simp add: fsqrt_def)
qed

text \<open>The square root of a perfect square below \<open>2 ^ 106\<close> is exact.\<close>

lemma fsqrt_square:
  assumes "0 \<le> n" "n < 2 ^ 53"
  shows "fsqrt (of_int (n * n)) = of_int n"
proof (cases "n = 0")
  case False
  define x where "x = rat_of_int (n * n)"
  define k where "k = bit_length n"
  have n: "0 < n" "2 ^ (k - 1) \<le> n" "n < 2 ^ k" "0 < k" "k \<le> 53"
    using assms False bit_length_lower [of n] bit_length_upper [of n]
      bit_length_le_iff [of n 53] bit_length_eq_0_iff [of n] unfolding k_def by linarith+
  have "2 ^ (k - 1) * 2 ^ (k - 1) \<le> n * n" "n * n < 2 ^ k * 2 ^ k"
    using n by (intro mult_mono mult_strict_mono; simp)+
  then have i: "rat_of_int (2 ^ (k - 1) * 2 ^ (k - 1)) \<le> x" "x < rat_of_int (2 ^ k * 2 ^ k)"
    unfolding x_def by (simp_all only: of_int_le_iff of_int_less_iff)
  have x: "0 < x" unfolding x_def using n(1) by simp
  have pk: "pow2 (2 * int j) = rat_of_int (2 ^ j * 2 ^ j)" for j
    unfolding mult_2 pow2_add pow2_of_nat by simp
  have kk: "int (k - 1) = int k - 1" using n(4) by (simp add: of_nat_diff)
  have "pow2 (2 * (int k - 1)) \<le> x" "x < pow2 (2 * int k)"
    using i unfolding pk [symmetric] kk by simp_all
  then have "pow2 (2 * (int k - 1)) < pow2 (ilog2 x + 1)" "pow2 (ilog2 x) < pow2 (2 * int k)"
    using ilog2_bounds [OF x] by linarith+
  then have h: "ilog2 x div 2 = int k - 1" by (simp add: pow2_less_iff)
  define j where "j = 53 - k"
  have e: "ilog2 x div 2 - 52 = - int j" using h n(5) by (simp add: j_def)
  have inv: "pow2 (- int j) = 1 / of_int (2 ^ j)" using pow2_diff [of 0 "int j"] pow2_of_nat [of j] by simp
  have "x / pow2 (2 * - int j) = x * of_int (2 ^ j * 2 ^ j)"
    using pow2_diff [of 0 "2 * int j"] pk [of j] by simp
  also have "\<dots> = of_int ((n * 2 ^ j) * (n * 2 ^ j))"
    unfolding x_def by simp
  finally have "sqrt_rne (x / pow2 (2 * - int j)) = n * 2 ^ j"
    using n(1) by (simp only: sqrt_rne_square zero_le_mult_iff less_imp_le zero_le_power zero_le_numeral HOL.simp_thms)
  then have "fsqrt x = of_int (n * 2 ^ j) * pow2 (- int j)"
    using x unfolding fsqrt_def Let_def e by simp
  then show ?thesis unfolding inv x_def by simp
qed simp

end
