(* ===== verification/Histogram.thy ===== *)
theory Histogram
  imports Float64
begin

text \<open>
  The log-linear latency histogram of \<open>include/vhp/histogram.hpp\<close>: bucket layout, recording with
  and without the correction for coordinated omission, percentiles, mean, deviation, merge,
  reset and the CSV dump. Counters and values are 64-bit words, \<open>int\<close> members are \<^typ>\<open>int\<close> or,
  where they are shift amounts, \<^typ>\<open>nat\<close>. The second half states the layout on natural numbers and
  proves that the word arithmetic computes it.
\<close>

section \<open>State and layout\<close>

record histogram =
  h_counts :: "u64 list"
  h_total :: u64
  h_overflow :: u64
  h_min :: u64
  h_max :: u64
  h_sub_count :: u64
  h_half :: u64
  h_mask :: u64
  h_sub_mag :: nat
  h_half_mag :: nat
  h_unit :: nat
  h_lzb :: int

text \<open>\<open>floor(log2(n))\<close> and \<open>ceil(log2(n))\<close> of the constructor, for the integers below \<open>2 ^ 47\<close> on which
  the rounded logarithm is an integer only when the exact one is.\<close>

definition floor_log2 :: "int \<Rightarrow> nat" where
  "floor_log2 n = bit_length n - 1"

definition ceil_log2 :: "int \<Rightarrow> nat" where
  "ceil_log2 n = bit_length (n - 1)"

text \<open>The sizing loop, with fuel for the 64 doublings a positive word allows; \<^const>\<open>None\<close> is a loop that
  never ends.\<close>

fun count_buckets :: "nat \<Rightarrow> u64 \<Rightarrow> u64 \<Rightarrow> nat \<Rightarrow> nat option" where
  "count_buckets 0 smallest highest buckets = None"
| "count_buckets (Suc fuel) smallest highest buckets =
    (if smallest \<le> highest then
       (if smallest > 0xFFFFFFFFFFFFFFFF div 2 then Some (buckets + 1)
        else count_buckets fuel (push_bit 1 smallest) highest (buckets + 1))
     else Some buckets)"

definition hist_new :: "u64 \<Rightarrow> nat \<Rightarrow> u64 \<Rightarrow> histogram option" where
  "hist_new highest_trackable significant_digits lowest_discernible =
    (let unit = floor_log2 (uint (if lowest_discernible = 0 then 1 else lowest_discernible));
         sub_mag = ceil_log2 (2 * 10 ^ significant_digits);
         sub_count = push_bit sub_mag 1;
         half = sub_count div 2
     in map_option (\<lambda>buckets.
          \<lparr>h_counts = replicate ((buckets + 1) * unat half) 0, h_total = 0, h_overflow = 0, h_min = 0, h_max = 0,
           h_sub_count = sub_count, h_half = half, h_mask = push_bit unit (sub_count - 1),
           h_sub_mag = sub_mag, h_half_mag = sub_mag - 1, h_unit = unit,
           h_lzb = 64 - int unit - int sub_mag\<rparr>)
        (count_buckets 65 (push_bit unit sub_count) highest_trackable 1))"

text \<open>The default arguments of the constructor.\<close>

definition hist_default :: "u64 \<Rightarrow> histogram option" where
  "hist_default highest_trackable = hist_new highest_trackable 3 1"

text \<open>\<open>__builtin_clzll\<close> of a non-zero word.\<close>

definition clz64 :: "u64 \<Rightarrow> int" where
  "clz64 v = 64 - int (bit_length (uint v))"

definition bucket_index :: "histogram \<Rightarrow> u64 \<Rightarrow> int" where
  "bucket_index h value = h_lzb h - clz64 (value OR h_mask h)"

definition counts_index :: "histogram \<Rightarrow> u64 \<Rightarrow> nat" where
  "counts_index h value =
    (let b = bucket_index h value;
         sub_bucket_index = drop_bit (nat (b + int (h_unit h))) value
     in unat (push_bit (h_half_mag h) (word_of_int b + 1) + (sub_bucket_index - h_half h)))"

definition value_from_index :: "histogram \<Rightarrow> nat \<Rightarrow> u64" where
  "value_from_index h index =
    (let b = int (drop_bit (h_half_mag h) index) - 1;
         sub_bucket_index = of_nat (index AND (unat (h_half h) - 1)) + h_half h;
         (b, sub_bucket_index) = (if b < 0 then (0, sub_bucket_index - h_half h) else (b, sub_bucket_index))
     in push_bit (nat (b + int (h_unit h))) sub_bucket_index)"

definition equivalent_range :: "histogram \<Rightarrow> u64 \<Rightarrow> u64" where
  "equivalent_range h value = push_bit (nat (int (h_unit h) + bucket_index h value)) 1"

definition highest_equivalent :: "histogram \<Rightarrow> u64 \<Rightarrow> u64" where
  "highest_equivalent h value = value + equivalent_range h value - 1"

definition median_equivalent :: "histogram \<Rightarrow> u64 \<Rightarrow> u64" where
  "median_equivalent h value = value + drop_bit 1 (equivalent_range h value)"

section \<open>Operations\<close>

definition hist_record :: "histogram \<Rightarrow> u64 \<Rightarrow> histogram" where
  "hist_record h value =
    (let index = counts_index h value
     in if index \<ge> length (h_counts h) then h\<lparr>h_overflow := h_overflow h + 1\<rparr>
        else
          (let h = h\<lparr>h_counts := (h_counts h)[index := h_counts h ! index + 1], h_total := h_total h + 1\<rparr>;
               h = (if value > h_max h then h\<lparr>h_max := value\<rparr> else h)
           in if h_total h = 1 \<or> value < h_min h then h\<lparr>h_min := value\<rparr> else h))"

text \<open>The loop over the missing samples; \<open>expected\<close> is not 0, which the caller has tested.\<close>

function record_missing :: "histogram \<Rightarrow> u64 \<Rightarrow> u64 \<Rightarrow> histogram" where
  "record_missing h missing expected =
    (if 0 < expected \<and> missing \<ge> expected then record_missing (hist_record h missing) (missing - expected) expected
     else h)"
  by pat_completeness auto
termination
  by (relation "measure (\<lambda>(h, missing, expected). unat missing)")
    (auto simp: word_less_nat_alt word_le_nat_alt unat_sub_if_size)

declare record_missing.simps [simp del]

definition record_with_expected_interval :: "histogram \<Rightarrow> u64 \<Rightarrow> u64 \<Rightarrow> histogram" where
  "record_with_expected_interval h value expected =
    (let h = hist_record h value
     in if expected = 0 \<or> value \<le> expected then h
        else record_missing h (value - expected) expected)"

definition hist_count :: "histogram \<Rightarrow> u64" where
  "hist_count h = h_total h"

definition hist_min :: "histogram \<Rightarrow> u64" where
  "hist_min h = (if h_total h \<noteq> 0 then h_min h else 0)"

definition mean :: "histogram \<Rightarrow> double" where
  "mean h =
    (if h_total h = 0 then 0
     else fdiv (foldl (\<lambda>acc i. if h_counts h ! i \<noteq> 0
                  then fadd acc (fmul (f_of_u64 (h_counts h ! i))
                         (f_of_u64 (median_equivalent h (value_from_index h i))))
                  else acc) 0 [0..<length (h_counts h)])
            (f_of_u64 (h_total h)))"

definition stddev :: "histogram \<Rightarrow> double" where
  "stddev h =
    (if h_total h = 0 then 0
     else
       (let mu = mean h
        in fsqrt (fdiv (foldl (\<lambda>acc i. if h_counts h ! i \<noteq> 0
                  then (let d = fsub (f_of_u64 (median_equivalent h (value_from_index h i))) mu
                        in fadd acc (fmul (fmul d d) (f_of_u64 (h_counts h ! i))))
                  else acc) 0 [0..<length (h_counts h)])
             (f_of_u64 (h_total h)))))"

text \<open>\<open>std::clamp\<close> and \<open>std::ceil\<close> on doubles.\<close>

definition fclamp :: "double \<Rightarrow> double \<Rightarrow> double \<Rightarrow> double" where
  "fclamp x lo hi = (if x < lo then lo else if hi < x then hi else x)"

definition percentile_target :: "histogram \<Rightarrow> double \<Rightarrow> u64" where
  "percentile_target h percentile =
    of_int \<lceil>fmul (fdiv (fclamp percentile 0 100) 100) (f_of_u64 (h_total h))\<rceil>"

fun percentile_loop :: "histogram \<Rightarrow> u64 \<Rightarrow> u64 \<Rightarrow> nat list \<Rightarrow> u64" where
  "percentile_loop h target running [] = h_max h"
| "percentile_loop h target running (i # is) =
    (let running = running + h_counts h ! i
     in if running \<ge> target \<and> h_counts h ! i \<noteq> 0
        then min (highest_equivalent h (value_from_index h i)) (h_max h)
        else percentile_loop h target running is)"

definition value_at_percentile :: "histogram \<Rightarrow> double \<Rightarrow> u64" where
  "value_at_percentile h percentile =
    (if h_total h = 0 then 0
     else percentile_loop h (percentile_target h percentile) 0 [0..<length (h_counts h)])"

definition hist_merge :: "histogram \<Rightarrow> histogram \<Rightarrow> histogram" where
  "hist_merge h other =
    (if length (h_counts other) \<noteq> length (h_counts h) then h
     else
       (let h = h\<lparr>h_counts := map2 (+) (h_counts h) (h_counts other), h_total := h_total h + h_total other,
                  h_overflow := h_overflow h + h_overflow other\<rparr>
        in if h_total other \<noteq> 0
           then h\<lparr>h_max := max (h_max h) (h_max other),
                  h_min := (if h_total h = h_total other then h_min other else min (h_min h) (h_min other))\<rparr>
           else h))"

definition hist_reset :: "histogram \<Rightarrow> histogram" where
  "hist_reset h = h\<lparr>h_counts := map (\<lambda>_. 0) (h_counts h), h_total := 0, h_overflow := 0, h_min := 0, h_max := 0\<rparr>"

text \<open>\<open>%llu\<close> and the CSV dump.\<close>

fun decimal :: "nat \<Rightarrow> string" where
  "decimal n = (if n < 10 then [char_of (48 + n)] else decimal (n div 10) @ [char_of (48 + n mod 10)])"

declare decimal.simps [simp del]

definition to_csv :: "histogram \<Rightarrow> string" where
  "to_csv h = ''value,count'' @ [char_of (10 :: nat)] @
    concat (map (\<lambda>i. if h_counts h ! i = 0 then []
      else decimal (unat (value_from_index h i)) @ '','' @ decimal (unat (h_counts h ! i)) @ [char_of (10 :: nat)])
      [0..<length (h_counts h)])"

section \<open>The layout on natural numbers\<close>

text \<open>With \<open>u\<close> the unit magnitude and \<open>s\<close> the sub-bucket magnitude: the bucket of a value, its slot, and
  the smallest value of a slot.\<close>

definition bkt :: "nat \<Rightarrow> nat \<Rightarrow> nat \<Rightarrow> nat" where
  "bkt u s v = bit_length (int v) - (u + s)"

definition slot :: "nat \<Rightarrow> nat \<Rightarrow> nat \<Rightarrow> nat" where
  "slot u s v = bkt u s v * 2 ^ (s - 1) + v div 2 ^ (bkt u s v + u)"

definition slot_low :: "nat \<Rightarrow> nat \<Rightarrow> nat \<Rightarrow> nat" where
  "slot_low u s i = (if i < 2 ^ (s - 1) then i * 2 ^ u
     else (i mod 2 ^ (s - 1) + 2 ^ (s - 1)) * 2 ^ (i div 2 ^ (s - 1) - 1 + u))"

definition layout_ok :: "histogram \<Rightarrow> bool" where
  "layout_ok h \<longleftrightarrow> 1 \<le> h_sub_mag h \<and> h_unit h + h_sub_mag h \<le> 63 \<and> h_half_mag h = h_sub_mag h - 1
    \<and> h_sub_count h = 2 ^ h_sub_mag h \<and> h_half h = 2 ^ (h_sub_mag h - 1)
    \<and> h_mask h = push_bit (h_unit h) (2 ^ h_sub_mag h - 1) \<and> h_lzb h = 64 - int (h_unit h) - int (h_sub_mag h)
    \<and> (\<exists>b. 1 \<le> b \<and> h_unit h + h_sub_mag h + b \<le> 65 \<and> length (h_counts h) = (b + 1) * 2 ^ (h_sub_mag h - 1))"

lemma bit_length_or:
  assumes "0 \<le> m" "0 \<le> n"
  shows "bit_length (m OR n) = max (bit_length m) (bit_length n)"
proof (rule antisym)
  have o: "0 \<le> m OR n" "m \<le> m OR n" "n \<le> m OR n"
    using assms or_greater_eq [of n m] or_greater_eq [of m n] by (simp_all add: or.commute)
  have "m < 2 ^ max (bit_length m) (bit_length n)" "n < 2 ^ max (bit_length m) (bit_length n)"
    using bit_length_le_iff [OF assms(1), of "max (bit_length m) (bit_length n)"]
      bit_length_le_iff [OF assms(2), of "max (bit_length m) (bit_length n)"] by simp_all
  then have "m OR n < 2 ^ max (bit_length m) (bit_length n)" using OR_upper assms by blast
  then show "bit_length (m OR n) \<le> max (bit_length m) (bit_length n)" using bit_length_le_iff [OF o(1)] by simp
  show "max (bit_length m) (bit_length n) \<le> bit_length (m OR n)"
    using bit_length_mono [OF assms(1) o(2)] bit_length_mono [OF assms(2) o(3)] by simp
qed

lemma bit_length_u64: "bit_length (uint (v :: u64)) \<le> 64"
  using bit_length_le_iff [of "uint v" 64] uint_lt2p [of v] by simp

lemma bkt_less: "v < 2 ^ (bkt u s v + u + s)"
proof -
  have "int v < 2 ^ bit_length (int v)" by (rule bit_length_upper)
  also have "(2 :: int) ^ bit_length (int v) \<le> 2 ^ (bkt u s v + u + s)" by (rule power_increasing) (auto simp: bkt_def)
  finally show ?thesis by (metis of_nat_less_iff of_nat_numeral of_nat_power)
qed

lemma bkt_ge: "0 < bkt u s v \<Longrightarrow> 2 ^ (bkt u s v + u + s - 1) \<le> v"
proof -
  assume b: "0 < bkt u s v"
  then have "bkt u s v + u + s = bit_length (int v)" by (simp add: bkt_def)
  moreover have "0 < int v" using b by (auto simp: bkt_def intro: ccontr)
  ultimately have "2 ^ (bkt u s v + u + s - 1) \<le> int v" using bit_length_lower [of "int v"] by simp
  then show ?thesis by (metis of_nat_le_iff of_nat_numeral of_nat_power)
qed

lemma bkt_mono: "v \<le> w \<Longrightarrow> bkt u s v \<le> bkt u s w"
  using bit_length_mono [of "int v" "int w"] by (simp add: bkt_def)

text \<open>The sub-bucket of a value: below \<open>2 ^ s\<close>, and in the upper half beyond the first bucket.\<close>

lemma sub_bucket_bounds:
  assumes "1 \<le> s"
  shows "v div 2 ^ (bkt u s v + u) < 2 * 2 ^ (s - 1)"
    "0 < bkt u s v \<Longrightarrow> 2 ^ (s - 1) \<le> v div 2 ^ (bkt u s v + u)"
proof -
  have s: "2 * 2 ^ (s - 1) = (2 :: nat) ^ s" using assms by (cases s) auto
  have "v < 2 ^ s * 2 ^ (bkt u s v + u)" using bkt_less [of v u s] by (simp add: power_add ac_simps)
  then show "v div 2 ^ (bkt u s v + u) < 2 * 2 ^ (s - 1)" unfolding s by (rule less_mult_imp_div_less)
  assume b: "0 < bkt u s v"
  have "bkt u s v + u + s - 1 = (s - 1) + (bkt u s v + u)" using assms by simp
  then have "2 ^ (s - 1) * 2 ^ (bkt u s v + u) \<le> v" using bkt_ge [OF b] by (simp add: power_add)
  then show "2 ^ (s - 1) \<le> v div 2 ^ (bkt u s v + u)" by (simp add: less_eq_div_iff_mult_less_eq)
qed

lemma slot_low_slot:
  assumes "1 \<le> s"
  shows "slot_low u s (slot u s v) = v - v mod 2 ^ (bkt u s v + u)"
proof -
  define b q n where "b = bkt u s v" and "q = v div 2 ^ (b + u)" and "n = (2 :: nat) ^ (s - 1)"
  have q: "q < 2 * n" "0 < b \<Longrightarrow> n \<le> q" and n: "0 < n"
    using sub_bucket_bounds(1) [OF assms, of v u] sub_bucket_bounds(2) [OF assms, of u v]
    by (simp_all add: b_def q_def n_def)
  have lo: "q * 2 ^ (b + u) = v - v mod 2 ^ (b + u)" by (simp add: q_def minus_mod_eq_div_mult)
  have sl: "slot u s v = b * n + q" by (simp add: slot_def b_def q_def n_def)
  have low: "slot_low u s i = (if i < n then i * 2 ^ u else (i mod n + n) * 2 ^ (i div n - 1 + u))" for i
    by (simp add: slot_low_def n_def)
  show ?thesis
  proof (cases "b * n + q < n")
    case True
    then have "b = 0" by (cases b) auto
    then show ?thesis using True lo by (simp add: low sl flip: b_def)
  next
    case False
    show ?thesis
    proof (cases "q < n")
      case True
      then have "b = 0" using q(2) by (cases "b = 0") auto
      then show ?thesis using True False by simp
    next
      case qn: False
      then have e: "b * n + q = (q - n) + (b + 1) * n" "q - n < n" using q(1) by simp_all
      have "(b * n + q) mod n = q - n" unfolding e(1) mod_mult_self1 using e(2) by simp
      moreover have "(b * n + q) div n = b + 1"
        unfolding e(1) using e(2) n by (subst div_mult_self1) simp_all
      ultimately show ?thesis using False qn lo by (simp add: low sl flip: b_def)
    qed
  qed
qed

lemma slot_mono:
  assumes "1 \<le> s" "v \<le> w"
  shows "slot u s v \<le> slot u s w"
proof (cases "bkt u s v = bkt u s w")
  case True
  then show ?thesis using assms(2) by (simp add: slot_def div_le_mono)
next
  case False
  define n where "n = (2 :: nat) ^ (s - 1)"
  have lt: "bkt u s v < bkt u s w" using False bkt_mono [OF assms(2), of u s] by simp
  have "slot u s v < bkt u s v * n + 2 * n"
    using sub_bucket_bounds(1) [OF assms(1), of v u] by (simp add: slot_def n_def)
  also have "\<dots> = (bkt u s v + 1) * n + n" by simp
  also have "\<dots> \<le> bkt u s w * n + n" using lt by (intro add_right_mono mult_right_mono) auto
  also have "\<dots> \<le> slot u s w" using sub_bucket_bounds(2) [OF assms(1), of u w] lt by (simp add: slot_def n_def)
  finally show ?thesis by simp
qed

text \<open>Values of the same slot are closer than the width of their bucket.\<close>

lemma slot_width:
  assumes "1 \<le> s" "slot u s v = slot u s w"
  shows "bkt u s v = bkt u s w" "v div 2 ^ (bkt u s v + u) = w div 2 ^ (bkt u s w + u)"
proof -
  have key: "bkt u s v \<le> bkt u s w" if "slot u s v = slot u s w" for v w
  proof (rule ccontr)
    assume "\<not> bkt u s v \<le> bkt u s w"
    then have lt: "bkt u s w < bkt u s v" by simp
    define n where "n = (2 :: nat) ^ (s - 1)"
    have "slot u s w < (bkt u s w + 1) * n + n"
      using sub_bucket_bounds(1) [OF assms(1), of w u] by (simp add: slot_def n_def)
    also have "\<dots> \<le> bkt u s v * n + n" using lt by (intro add_right_mono mult_right_mono) auto
    also have "\<dots> \<le> slot u s v" using sub_bucket_bounds(2) [OF assms(1), of u v] lt by (simp add: slot_def n_def)
    finally show False using that by simp
  qed
  show b: "bkt u s v = bkt u s w" using key [OF assms(2)] key [OF assms(2) [symmetric]] by simp
  show "v div 2 ^ (bkt u s v + u) = w div 2 ^ (bkt u s w + u)" using assms(2) by (simp add: slot_def b)
qed

lemma bkt_slot_low:
  assumes "1 \<le> s"
  shows "bkt u s (slot_low u s (slot u s v)) = bkt u s v"
proof -
  define b l where "b = bkt u s v" and "l = slot_low u s (slot u s v)"
  have l: "l = v - v mod 2 ^ (b + u)" using slot_low_slot [OF assms, of u v] by (simp add: l_def b_def)
  then have le: "bkt u s l \<le> b" unfolding b_def by (intro bkt_mono) simp
  show ?thesis
  proof (cases "b = 0")
    case False
    have "l = v div 2 ^ (b + u) * 2 ^ (b + u)" by (simp add: l minus_mod_eq_div_mult)
    moreover have "2 ^ (s - 1) \<le> v div 2 ^ (b + u)"
      using sub_bucket_bounds(2) [OF assms, of u v] False by (simp add: b_def)
    ultimately have "2 ^ (s - 1) * 2 ^ (b + u) \<le> l" by simp
    then have low: "2 ^ (s - 1 + (b + u)) \<le> l" by (simp add: power_add)
    have "l < 2 ^ (bkt u s l + u + s)" by (rule bkt_less)
    then have "(2 :: nat) ^ (s - 1 + (b + u)) < 2 ^ (bkt u s l + u + s)" using low by linarith
    then have "s - 1 + (b + u) < bkt u s l + u + s" by (rule power_less_imp_less_exp [rotated]) simp
    then show ?thesis using le assms by (simp add: b_def l_def)
  qed (use le in \<open>simp add: b_def l_def\<close>)
qed

section \<open>The words compute the layout\<close>

abbreviation hslot :: "histogram \<Rightarrow> u64 \<Rightarrow> nat" where
  "hslot h v \<equiv> slot (h_unit h) (h_sub_mag h) (unat v)"

abbreviation hbkt :: "histogram \<Rightarrow> u64 \<Rightarrow> nat" where
  "hbkt h v \<equiv> bkt (h_unit h) (h_sub_mag h) (unat v)"

lemma hbkt_le: "layout_ok h \<Longrightarrow> hbkt h v + h_unit h + h_sub_mag h \<le> 64"
  using bit_length_u64 [of v] by (auto simp: bkt_def layout_ok_def)

lemma bucket_index_eq:
  assumes "layout_ok h"
  shows "bucket_index h v = int (hbkt h v)"
proof -
  define u s where "u = h_unit h" and "s = h_sub_mag h"
  have us: "1 \<le> s" "u + s \<le> 63" "h_mask h = push_bit u (2 ^ s - 1)" "h_lzb h = 64 - int u - int s"
    using assms by (auto simp: layout_ok_def u_def s_def)
  have p: "(2 :: int) ^ (u + s) = 2 ^ u * 2 ^ s" by (simp add: power_add)
  have le: "(1 :: int) \<le> 2 ^ u" "(2 :: int) ^ s - 1 \<ge> 1" "(2 :: int) ^ (u + s) \<le> 2 ^ 63"
    using us power_increasing [of 1 s "2 :: int"] power_increasing [of "u + s" 63 "2 :: int"] by auto
  have m: "uint (h_mask h) = 2 ^ u * (2 ^ s - 1)"
  proof -
    define x where "x = (2 :: int) ^ u * (2 ^ s - 1)"
    have "h_mask h = word_of_int x"
      by (simp add: x_def us(3) push_bit_eq_mult mult.commute)
    moreover have "0 \<le> (2 :: int) ^ u * (2 ^ s - 1)" using le by simp
    moreover have "(2 :: int) ^ u * (2 ^ s - 1) < 2 ^ 64"
    proof -
      have "(2 :: int) ^ u * (2 ^ s - 1) = 2 ^ (u + s) - 2 ^ u"
        by (simp only: p right_diff_distrib mult_1_right)
      then have "(2 :: int) ^ u * (2 ^ s - 1) < 2 ^ (u + s)" using le(1) by simp
      also have "\<dots> \<le> 2 ^ 63" by (rule le(3))
      also have "(2 :: int) ^ 63 < 2 ^ 64" by simp
      finally show ?thesis .
    qed
    ultimately show ?thesis unfolding x_def [symmetric] by (simp add: unsigned_of_int take_bit_int_eq_self)
  qed
  have "(2 :: int) ^ (u + s - 1) \<le> 2 ^ u * (2 ^ s - 1)"
  proof -
    have "(2 :: int) ^ (u + s - 1) = 2 ^ u * 2 ^ (s - 1)" using us(1) by (simp add: power_add [symmetric])
    moreover have "(2 :: int) ^ (s - 1) \<le> 2 ^ s - 1" using us(1) by (cases s) auto
    ultimately show ?thesis by (simp add: mult_left_mono)
  qed
  moreover have "(2 :: int) ^ u * (2 ^ s - 1) < 2 ^ (u + s - 1 + 1)"
    using us(1) le(1) p by (simp add: algebra_simps)
  ultimately have bm: "bit_length (uint (h_mask h)) = u + s"
    using bit_length_unique [of "u + s - 1" "uint (h_mask h)"] us(1) m by simp
  have "bit_length (uint (v OR h_mask h)) = max (bit_length (uint v)) (u + s)"
    by (simp add: unsigned_or_eq bit_length_or bm)
  then show ?thesis
    by (simp add: bucket_index_def clz64_def us(4) bkt_def flip: u_def s_def)
qed

lemma counts_index_eq:
  assumes "layout_ok h"
  shows "counts_index h v = hslot h v"
proof -
  define u s b where "u = h_unit h" and "s = h_sub_mag h" and "b = hbkt h v"
  define q n where "q = unat v div 2 ^ (b + u)" and "n = (2 :: nat) ^ (s - 1)"
  have us: "1 \<le> s" "b + u + s \<le> 64" "h_half_mag h = s - 1" "h_half h = 2 ^ (s - 1)"
    using assms hbkt_le [OF assms, of v] by (auto simp: layout_ok_def u_def s_def b_def)
  have d: "drop_bit (b + u) v = of_nat q"
  proof -
    have "unat (drop_bit (b + u) v) = q"
      unfolding unsigned_drop_bit_eq q_def by (simp add: take_bit_nat_eq_self [OF unat_u64_less] drop_bit_eq_div)
    then have "of_nat (unat (drop_bit (b + u) v)) = (of_nat q :: u64)" by simp
    then show ?thesis by simp
  qed
  have q: "q < 2 * n" using sub_bucket_bounds(1) [OF us(1), of "unat v" u] by (simp add: q_def n_def b_def u_def s_def)
  have sum: "push_bit (s - 1) (of_nat b + 1) + (of_nat q - 2 ^ (s - 1)) = (of_nat (b * n + q) :: u64)"
    by (simp add: push_bit_eq_mult n_def algebra_simps)
  have small: "b * n + q < 2 ^ 64"
  proof -
    define k where "k = 65 - s"
    have k: "b + 2 \<le> k + 1" "s - 1 + k = 64" using us by (auto simp: k_def)
    have "b * n + q < (b + 2) * n" using q by (simp add: algebra_simps)
    also have "\<dots> \<le> (k + 1) * n" using k(1) by (rule mult_right_mono) simp
    also have "\<dots> \<le> 2 ^ k * n" by (rule mult_right_mono) (simp_all add: Suc_le_eq)
    also have "\<dots> = 2 ^ 64" using k(2) by (simp add: n_def flip: power_add) (simp add: add.commute)
    finally show ?thesis .
  qed
  have "nat (bucket_index h v + int (h_unit h)) = b + u"
    by (simp add: bucket_index_eq [OF assms] b_def u_def)
  then have "counts_index h v = unat (push_bit (s - 1) (word_of_int (int b) + 1) + (drop_bit (b + u) v - h_half h))"
    by (simp add: counts_index_def Let_def us(3) bucket_index_eq [OF assms] b_def)
  also have "\<dots> = unat (of_nat (b * n + q) :: u64)"
  proof -
    have "word_of_int (int b) = (of_nat b :: u64)" by simp
    then show ?thesis by (simp only: d us(4) sum)
  qed
  also have "\<dots> = b * n + q" by (rule unat_of_nat_small) (use small in simp)
  finally show ?thesis by (simp add: slot_def b_def q_def n_def u_def s_def)
qed

lemma slot_low_bound:
  assumes "1 \<le> s" "1 \<le> b" "i < (b + 1) * 2 ^ (s - 1)"
  shows "slot_low u s i < 2 ^ (u + s + b - 1)"
proof -
  define n where "n = (2 :: nat) ^ (s - 1)"
  have n: "2 * n = 2 ^ s" using assms(1) by (cases s) (auto simp: n_def)
  have low: "slot_low u s i = (if i < n then i * 2 ^ u else (i mod n + n) * 2 ^ (i div n - 1 + u))"
    by (simp add: slot_low_def n_def)
  have "i div n < b + 1" using assms(3) by (intro less_mult_imp_div_less) (simp add: n_def)
  show ?thesis
  proof (cases "i < n")
    case True
    then have "slot_low u s i < 2 ^ (s - 1) * 2 ^ u" by (simp add: low n_def)
    also have "\<dots> \<le> 2 ^ (u + s + b - 1)"
      unfolding power_add [symmetric] by (rule power_increasing) (use assms in simp_all)
    finally show ?thesis .
  next
    case False
    have "i mod n + n < 2 * n" by (simp add: n_def)
    then have "slot_low u s i < 2 ^ s * 2 ^ (i div n - 1 + u)" using False n by (simp add: low)
    also have "\<dots> \<le> 2 ^ (u + s + b - 1)"
      unfolding power_add [symmetric]
      by (rule power_increasing) (use \<open>i div n < b + 1\<close> assms(1,2) in simp_all)
    finally show ?thesis .
  qed
qed

lemma value_from_index_eq:
  assumes "layout_ok h" "i < length (h_counts h)"
  shows "unat (value_from_index h i) = slot_low (h_unit h) (h_sub_mag h) i"
proof -
  define u s n where "u = h_unit h" and "s = h_sub_mag h" and "n = (2 :: nat) ^ (s - 1)"
  obtain b where us: "1 \<le> s" "u + s \<le> 63" "h_half_mag h = s - 1" "h_half h = 2 ^ (s - 1)"
      "1 \<le> b" "u + s + b \<le> 65" "length (h_counts h) = (b + 1) * n"
    using assms(1) by (auto simp: layout_ok_def u_def s_def n_def)
  have low: "slot_low u s i = (if i < n then i * 2 ^ u else (i mod n + n) * 2 ^ (i div n - 1 + u))"
    by (simp add: slot_low_def n_def)
  have "slot_low u s i < 2 ^ (u + s + b - 1)"
    by (rule slot_low_bound [OF us(1,5)]) (use assms(2) us(7) in \<open>simp add: n_def\<close>)
  also have "(2 :: nat) ^ (u + s + b - 1) \<le> 2 ^ 64" by (rule power_increasing) (use us(6) in simp_all)
  finally have small: "slot_low u s i < 2 ^ 64" .
  have n64: "n < 2 ^ 64" using us(2) unfolding n_def by (intro power_strict_increasing) auto
  have un: "unat (h_half h) = n"
  proof -
    have "h_half h = of_nat n" by (simp add: us(4) n_def)
    then show ?thesis using n64 by (simp add: unat_of_nat_small)
  qed
  have hn: "h_half h = of_nat n" using un by (metis of_nat_unat ucast_id)
  have d: "drop_bit (h_half_mag h) i = i div n" "i AND (unat (h_half h) - 1) = i mod n"
    unfolding un us(3) using nat_and_mask [of i "s - 1"] by (simp_all add: n_def drop_bit_eq_div)
  have pos: "0 < n" by (simp add: n_def)
  have w: "value_from_index h i = of_nat (slot_low u s i)"
  proof (cases "i < n")
    case True
    then show ?thesis
      unfolding value_from_index_def Let_def d u_def [symmetric]
      by (simp add: hn low push_bit_eq_mult)
  next
    case False
    then have "1 \<le> i div n" using pos by (simp add: Suc_le_eq div_greater_zero_iff)
    then have e: "nat (int (i div n) - 1 + int u) = i div n - 1 + u" "\<not> int (i div n) - 1 < 0"
      by (auto simp: nat_add_distrib nat_diff_distrib)
    show ?thesis
      unfolding value_from_index_def Let_def d u_def [symmetric]
      using e False by (simp add: hn low push_bit_eq_mult)
  qed
  show ?thesis unfolding w u_def [symmetric] s_def [symmetric] using small by (simp add: unat_of_nat_small)
qed

end
