(* ===== verification/Histogram_Props.thy ===== *)
theory Histogram_Props
  imports Histogram "HOL-Library.Multiset"
begin

text \<open>
  What the histogram guarantees: the abstraction is the multiset of the recorded values. The
  constructor ends and covers the range asked for, recording counts every value in its slot,
  percentiles are within one part in 1024 of the order statistic of their rank, merging is recording
  both streams, and the correction for coordinated omission records exactly the missing samples.
\<close>

section \<open>The constructor\<close>

lemma unat_pow2_u64: "k \<le> 63 \<Longrightarrow> unat ((2 :: u64) ^ k) = 2 ^ k"
proof -
  assume "k \<le> 63"
  then have "(2 :: nat) ^ k < 2 ^ 64" by (intro power_strict_increasing) auto
  then have "unat (of_nat (2 ^ k) :: u64) = 2 ^ k" by (intro unat_of_nat_small) simp
  then show ?thesis by simp
qed

lemma count_buckets_some:
  assumes "k \<le> 63" "64 \<le> k + fuel"
  shows "\<exists>j. count_buckets (Suc fuel) (2 ^ k) highest b = Some (b + (j - k)) \<and> k \<le> j \<and> j \<le> 64
    \<and> (j \<le> 63 \<longrightarrow> unat highest < 2 ^ j)"
  using assms
proof (induction fuel arbitrary: k b)
  case 0
  then show ?case by simp
next
  case (Suc fuel)
  note u = unat_pow2_u64
  show ?case
  proof (cases "(2 ^ k :: u64) \<le> highest")
    case False
    then have "unat highest < 2 ^ k" using u [OF Suc.prems(1)] by (simp add: word_le_nat_alt)
    then show ?thesis using False Suc.prems by (intro exI [of _ k]) simp
  next
    case True
    have half: "(0xFFFFFFFFFFFFFFFF div 2 :: u64) = 0x7FFFFFFFFFFFFFFF" by simp
    show ?thesis
    proof (cases "k = 63")
      case True
      have "(2 :: u64) ^ 63 > 0xFFFFFFFFFFFFFFFF div 2" by simp
      then show ?thesis using True \<open>2 ^ k \<le> highest\<close> by (intro exI [of _ 64]) simp
    next
      case False
      then have k: "k \<le> 62" using Suc.prems(1) by simp
      have "unat (2 ^ k :: u64) \<le> unat (0x7FFFFFFFFFFFFFFF :: u64)"
        using u [of k] k power_increasing [of k 62 "2 :: nat"] by simp
      then have "\<not> (2 :: u64) ^ k > 0xFFFFFFFFFFFFFFFF div 2" unfolding half by (simp add: word_le_nat_alt not_less)
      moreover have "push_bit 1 (2 ^ k :: u64) = 2 ^ Suc k" by (simp add: push_bit_eq_mult mult.commute)
      ultimately have e: "count_buckets (Suc (Suc fuel)) (2 ^ k) highest b = count_buckets (Suc fuel) (2 ^ Suc k) highest (b + 1)"
        using \<open>2 ^ k \<le> highest\<close> by (subst count_buckets.simps) (simp del: count_buckets.simps power_Suc)
      obtain j where "count_buckets (Suc fuel) (2 ^ Suc k) highest (b + 1) = Some (b + 1 + (j - Suc k))"
          "Suc k \<le> j" "j \<le> 64" "j \<le> 63 \<longrightarrow> unat highest < 2 ^ j"
        using Suc.IH [of "Suc k" "b + 1"] Suc.prems k by auto
      then show ?thesis unfolding e by (intro exI [of _ j]) simp
    qed
  qed
qed

definition tracked :: "histogram \<Rightarrow> u64 \<Rightarrow> bool" where
  "tracked h v \<longleftrightarrow> hslot h v < length (h_counts h)"

lemma tracked_bound:
  assumes "1 \<le> s" "1 \<le> b" "v < 2 ^ (u + s + b - 1)"
  shows "slot u s v < (b + 1) * 2 ^ (s - 1)"
proof -
  have "bit_length (int v) \<le> u + s + b - 1"
    using assms(3) bit_length_le_iff [of "int v" "u + s + b - 1"] by (simp add: of_nat_less_numeral_power_cancel_iff [symmetric] del: of_nat_less_numeral_power_cancel_iff) (metis of_nat_less_iff of_nat_numeral of_nat_power)
  then have "bkt u s v + 2 \<le> b + 1" using assms(2) by (simp add: bkt_def)
  then have "(bkt u s v + 2) * 2 ^ (s - 1) \<le> (b + 1) * 2 ^ (s - 1)" by (rule mult_right_mono) simp
  moreover have "slot u s v < (bkt u s v + 2) * 2 ^ (s - 1)"
    using sub_bucket_bounds(1) [OF assms(1), of v u] by (simp add: slot_def algebra_simps)
  ultimately show ?thesis by simp
qed

lemma hist_new_ok:
  assumes "1 \<le> ceil_log2 (2 * 10 ^ digits)"
    and "floor_log2 (uint (if lowest = 0 then 1 else lowest)) + ceil_log2 (2 * 10 ^ digits) \<le> 63"
  shows "\<exists>h. hist_new highest digits lowest = Some h \<and> layout_ok h
    \<and> h_unit h = floor_log2 (uint (if lowest = 0 then 1 else lowest)) \<and> h_sub_mag h = ceil_log2 (2 * 10 ^ digits)
    \<and> (\<forall>v \<le> highest. tracked h v) \<and> h_total h = 0 \<and> h_overflow h = 0 \<and> h_min h = 0 \<and> h_max h = 0
    \<and> h_counts h = replicate (length (h_counts h)) 0"
proof -
  define u s where "u = floor_log2 (uint (if lowest = 0 then 1 else lowest))" and "s = ceil_log2 (2 * 10 ^ digits)"
  have us: "1 \<le> s" "u + s \<le> 63" using assms by (simp_all add: u_def s_def)
  have ph: "push_bit s 1 div 2 = (2 :: u64) ^ (s - 1)" "unat ((2 :: u64) ^ (s - 1)) = 2 ^ (s - 1)"
  proof -
    note a = unat_pow2_u64
    show b: "unat ((2 :: u64) ^ (s - 1)) = 2 ^ (s - 1)" by (rule a) (use us in simp)
    have "unat (push_bit s 1 div 2 :: u64) = 2 ^ s div 2"
      using a [of s] us by (simp add: unat_div push_bit_eq_mult)
    also have "(2 :: nat) ^ s div 2 = 2 ^ (s - 1)" using us(1) by (cases s) auto
    finally show "push_bit s 1 div 2 = (2 :: u64) ^ (s - 1)" unfolding b [symmetric] by (simp add: word_unat_eq_iff)
  qed
  have p: "push_bit u (push_bit s 1) = (2 :: u64) ^ (u + s)" by (simp add: push_bit_eq_mult power_add ac_simps)
  obtain j where j: "count_buckets 65 (2 ^ (u + s)) highest 1 = Some (1 + (j - (u + s)))" "u + s \<le> j" "j \<le> 64"
      "j \<le> 63 \<longrightarrow> unat highest < 2 ^ j"
    using count_buckets_some [of "u + s" 64 highest 1] us by auto
  define b where "b = 1 + (j - (u + s))"
  define h where "h = \<lparr>h_counts = replicate ((b + 1) * 2 ^ (s - 1)) 0, h_total = 0, h_overflow = 0, h_min = 0, h_max = 0,
    h_sub_count = push_bit s 1, h_half = 2 ^ (s - 1), h_mask = push_bit u (push_bit s 1 - 1),
    h_sub_mag = s, h_half_mag = s - 1, h_unit = u, h_lzb = 64 - int u - int s\<rparr>"
  have n: "hist_new highest digits lowest = Some h"
    unfolding hist_new_def Let_def u_def [symmetric] s_def [symmetric] p j(1) ph by (simp add: h_def b_def)
  have lay: "layout_ok h"
    using us j unfolding layout_ok_def h_def by (simp add: push_bit_eq_mult b_def) (intro exI [of _ b], simp add: b_def)
  have tr: "tracked h v" if "v \<le> highest" for v
  proof -
    have e: "u + s + b - 1 = j" using j(2) by (simp add: b_def)
    have "unat v < 2 ^ (u + s + b - 1)"
      using that j(3,4) unat_u64_less [of v] unfolding e by (cases "j = 64") (auto simp: word_le_nat_alt)
    then have "slot u s (unat v) < (b + 1) * 2 ^ (s - 1)" by (intro tracked_bound [OF us(1)]) (simp_all add: b_def)
    then show ?thesis by (simp add: tracked_def h_def)
  qed
  show ?thesis
    using n lay tr unfolding u_def [symmetric] s_def [symmetric]
    by (intro exI [of _ h]) (simp add: h_def)
qed

section \<open>The abstraction\<close>

definition hist_rep :: "histogram \<Rightarrow> u64 multiset \<Rightarrow> bool" where
  "hist_rep h M \<longleftrightarrow> layout_ok h \<and> size M < 2 ^ 64 \<and> (\<forall>v \<in># M. tracked h v)
    \<and> (\<forall>i < length (h_counts h). unat (h_counts h ! i) = size (filter_mset (\<lambda>v. hslot h v = i) M))
    \<and> unat (h_total h) = size M
    \<and> (if M = {#} then h_max h = 0 \<and> h_min h = 0 else h_max h = Max (set_mset M) \<and> h_min h = Min (set_mset M))"

definition same_layout :: "histogram \<Rightarrow> histogram \<Rightarrow> bool" where
  "same_layout h h' \<longleftrightarrow> h_sub_count h' = h_sub_count h \<and> h_half h' = h_half h \<and> h_mask h' = h_mask h
    \<and> h_sub_mag h' = h_sub_mag h \<and> h_half_mag h' = h_half_mag h \<and> h_unit h' = h_unit h \<and> h_lzb h' = h_lzb h
    \<and> length (h_counts h') = length (h_counts h)"

lemma same_layout_refl [simp]: "same_layout h h"
  by (simp add: same_layout_def)

lemma same_layout_trans: "same_layout a b \<Longrightarrow> same_layout b c \<Longrightarrow> same_layout a c"
  by (simp add: same_layout_def)

lemma same_layout_facts:
  assumes "same_layout h h'"
  shows "layout_ok h' = layout_ok h" "hslot h' v = hslot h v" "tracked h' v = tracked h v"
    "counts_index h' v = counts_index h v" "value_from_index h' i = value_from_index h i"
    "highest_equivalent h' v = highest_equivalent h v"
  using assms
  by (simp_all add: same_layout_def layout_ok_def tracked_def counts_index_def bucket_index_def value_from_index_def
      highest_equivalent_def equivalent_range_def Let_def)

lemma hist_record_layout: "same_layout h (hist_record h v)"
  by (simp add: same_layout_def hist_record_def Let_def)

lemma rep_new:
  assumes "layout_ok h" "h_total h = 0" "h_min h = 0" "h_max h = 0" "h_counts h = replicate (length (h_counts h)) 0"
  shows "hist_rep h {#}"
proof -
  have "h_counts h ! i = 0" if "i < length (h_counts h)" for i
    using that arg_cong [OF assms(5), of "\<lambda>xs. xs ! i"] by simp
  then show ?thesis using assms by (simp add: hist_rep_def)
qed

text \<open>Two histograms of the same layout and the same values are equal.\<close>

lemma rep_unique:
  assumes "hist_rep h M" "hist_rep h' M" "same_layout h h'" "h_overflow h' = h_overflow h"
  shows "h' = h"
proof -
  have "h_counts h' ! i = h_counts h ! i" if "i < length (h_counts h)" for i
    using assms that same_layout_facts(2) [OF assms(3)]
    by (simp add: hist_rep_def same_layout_def word_unat_eq_iff)
  then have c: "h_counts h' = h_counts h"
    using assms(3) by (intro nth_equalityI) (simp_all add: same_layout_def)
  have t: "h_total h' = h_total h" using assms(1,2) by (simp add: hist_rep_def word_unat_eq_iff)
  have m: "h_max h' = h_max h" "h_min h' = h_min h" using assms(1,2) by (simp_all add: hist_rep_def split: if_splits)
  show ?thesis using assms(3,4) c t m by (intro histogram.equality) (simp_all add: same_layout_def)
qed

lemma rep_record:
  assumes r: "hist_rep h M" and v: "tracked h v" and n: "size M + 1 < 2 ^ 64"
  shows "hist_rep (hist_record h v) (add_mset v M)" "h_overflow (hist_record h v) = h_overflow h"
proof -
  define i where "i = hslot h v"
  have lay: "layout_ok h" using r by (simp add: hist_rep_def)
  have i: "i < length (h_counts h)" "counts_index h v = i"
    using v counts_index_eq [OF lay] by (simp_all add: tracked_def i_def)
  define h1 where "h1 = h\<lparr>h_counts := (h_counts h)[i := h_counts h ! i + 1], h_total := h_total h + 1\<rparr>"
  have tot: "unat (h_total h) = size M" using r by (simp add: hist_rep_def)
  have t1: "unat (h_total h + 1) = size M + 1" using unat_plus_one_if [of "h_total h"] tot n by simp
  have h': "hist_record h v = h1\<lparr>h_max := (if v > h_max h then v else h_max h),
      h_min := (if h_total h + 1 = 1 \<or> v < h_min h then v else h_min h)\<rparr>"
    using i by (simp add: hist_record_def Let_def h1_def)
  note sl = hist_record_layout [of h v]
  have one: "h_total h + 1 = 1 \<longleftrightarrow> M = {#}"
    using t1 by (auto simp: word_unat_eq_iff)
  have cnt: "unat (h_counts (hist_record h v) ! j) = size (filter_mset (\<lambda>w. hslot h w = j) (add_mset v M))"
    if j: "j < length (h_counts h)" for j
  proof -
    have c: "unat (h_counts h ! j) = size (filter_mset (\<lambda>v. hslot h v = j) M)" using r j by (simp add: hist_rep_def)
    have "size (filter_mset (\<lambda>v. hslot h v = j) M) \<le> size M" by (rule size_filter_mset_lesseq)
    then have "unat (h_counts h ! j) + 1 < 2 ^ LENGTH(64)" using c n by (simp del: size_filter_mset_lesseq)
    then have "unat (h_counts h ! j + 1) = size (filter_mset (\<lambda>v. hslot h v = j) M) + 1"
      using unat_plus_one_if [of "h_counts h ! j"] c by simp
    then show ?thesis using c j by (auto simp: h' h1_def i_def nth_list_update)
  qed
  have mx: "h_max (hist_record h v) = Max (set_mset (add_mset v M))"
  proof (cases "M = {#}")
    case False
    then have "Max (set_mset (add_mset v M)) = max v (h_max h)" using r by (simp add: hist_rep_def)
    then show ?thesis by (cases "h_max h < v") (auto simp: h' max_def)
  qed (use r in \<open>simp add: h' hist_rep_def word_neq_0_conv [symmetric]\<close>)
  have mn: "h_min (hist_record h v) = Min (set_mset (add_mset v M))"
  proof (cases "M = {#}")
    case False
    then have "Min (set_mset (add_mset v M)) = min v (h_min h)" using r by (simp add: hist_rep_def)
    then show ?thesis using one False by (cases "v < h_min h") (auto simp: h' min_def)
  qed (use one in \<open>simp add: h'\<close>)
  show "hist_rep (hist_record h v) (add_mset v M)"
    unfolding hist_rep_def same_layout_facts [OF sl]
    using r v n cnt mx mn t1 sl by (auto simp: hist_rep_def h' h1_def same_layout_def)
  show "h_overflow (hist_record h v) = h_overflow h" by (simp add: h' h1_def)
qed

lemma rep_record_untracked:
  assumes "hist_rep h M" "\<not> tracked h v"
  shows "hist_record h v = h\<lparr>h_overflow := h_overflow h + 1\<rparr>" "hist_rep (hist_record h v) M"
proof -
  have lay: "layout_ok h" using assms(1) by (simp add: hist_rep_def)
  show e: "hist_record h v = h\<lparr>h_overflow := h_overflow h + 1\<rparr>"
    using assms(2) counts_index_eq [OF lay] by (simp add: hist_record_def tracked_def Let_def)
  show "hist_rep (hist_record h v) M"
    using assms(1) unfolding e by (simp add: hist_rep_def layout_ok_def tracked_def)
qed

lemma rep_records:
  assumes "hist_rep h M" "size M + length vs < 2 ^ 64"
  shows "hist_rep (foldl hist_record h vs) (M + filter_mset (tracked h) (mset vs))
    \<and> same_layout h (foldl hist_record h vs)
    \<and> h_overflow (foldl hist_record h vs) = h_overflow h + of_nat (length (filter (\<lambda>v. \<not> tracked h v) vs))"
  using assms
proof (induction vs arbitrary: h M)
  case (Cons v vs)
  note sl = hist_record_layout [of h v]
  have t: "tracked (hist_record h v) = tracked h" using same_layout_facts(3) [OF sl] by blast
  show ?case
  proof (cases "tracked h v")
    case True
    have "size M + 1 < 2 ^ 64" using Cons.prems(2) by simp
    note r = rep_record [OF Cons.prems(1) True this]
    have "size (add_mset v M) + length vs < 2 ^ 64" using Cons.prems(2) by simp
    from Cons.IH [OF r(1) this] show ?thesis
      using True same_layout_trans [OF sl] by (simp add: t r(2))
  next
    case False
    note r = rep_record_untracked [OF Cons.prems(1) False]
    have "size M + length vs < 2 ^ 64" using Cons.prems(2) by simp
    from Cons.IH [OF r(2) this] show ?thesis
      using False same_layout_trans [OF sl] by (simp add: t) (simp add: r(1) algebra_simps)
  qed
qed simp

section \<open>Percentiles\<close>

lemma length_filter_mono:
  "(\<And>x. x \<in> set xs \<Longrightarrow> P x \<Longrightarrow> Q x) \<Longrightarrow> length (filter P xs) \<le> length (filter Q xs)"
  by (induction xs) auto

lemma sorted_le_count:
  "sorted xs \<Longrightarrow> k < length xs \<Longrightarrow> k + 1 \<le> length (filter (\<lambda>v. v \<le> xs ! k) xs)"
proof -
  assume s: "sorted xs" "k < length xs"
  have "\<forall>v \<in> set (take (k + 1) xs). v \<le> xs ! k"
    using s by (auto simp: in_set_conv_nth sorted_iff_nth_mono)
  then have "filter (\<lambda>v. v \<le> xs ! k) (take (k + 1) xs) = take (k + 1) xs" by (simp add: filter_id_conv)
  then have "k + 1 = length (filter (\<lambda>v. v \<le> xs ! k) (take (k + 1) xs))" using s(2) by simp
  also have "\<dots> \<le> length (filter (\<lambda>v. v \<le> xs ! k) (take (k + 1) xs @ drop (k + 1) xs))"
    unfolding filter_append length_append by simp
  finally show ?thesis unfolding append_take_drop_id .
qed

lemma sorted_less_count:
  assumes "sorted xs" "k < length xs" "\<And>v. v \<in> set xs \<Longrightarrow> P v \<Longrightarrow> v < xs ! k"
  shows "length (filter P xs) \<le> k"
proof -
  have "\<not> P v" if v: "v \<in> set (drop k xs)" for v
  proof
    assume "P v"
    then have "v < xs ! k" using assms(3) v by (meson in_set_dropD)
    moreover obtain j where "j < length xs - k" "v = xs ! (k + j)" using v by (auto simp: in_set_conv_nth)
    ultimately show False using assms(1,2) by (auto simp: sorted_iff_nth_mono not_less [symmetric])
  qed
  then have "filter P (drop k xs) = []" by (simp add: filter_empty_conv)
  then have "length (filter P xs) = length (filter P (take k xs))"
    by (metis append_Nil2 append_take_drop_id filter_append)
  also have "\<dots> \<le> length (take k xs)" by (rule length_filter_le)
  finally show ?thesis by simp
qed

definition cum :: "histogram \<Rightarrow> u64 multiset \<Rightarrow> nat \<Rightarrow> nat" where
  "cum h M i = size (filter_mset (\<lambda>v. hslot h v < i) M)"

lemma cum_le: "cum h M i \<le> size M"
  by (simp add: cum_def)

lemma cum_Suc: "cum h M (Suc i) = cum h M i + size (filter_mset (\<lambda>v. hslot h v = i) M)"
proof -
  have "filter_mset (\<lambda>v. hslot h v < Suc i) M
      = filter_mset (\<lambda>v. hslot h v < i) M + filter_mset (\<lambda>v. hslot h v = i) M"
    by (induction M) auto
  then show ?thesis by (simp add: cum_def)
qed

text \<open>The loop stops at the first non-empty slot whose cumulative count reaches the target.\<close>

lemma percentile_loop_stops:
  assumes r: "hist_rep h M" and "i \<le> k" "k < length (h_counts h)" "h_counts h ! k \<noteq> 0"
    "unat target \<le> cum h M (Suc k)" "unat running = cum h M i"
    "\<And>j. i \<le> j \<Longrightarrow> j < k \<Longrightarrow> h_counts h ! j = 0 \<or> cum h M (Suc j) < unat target"
  shows "percentile_loop h target running [i..<length (h_counts h)]
    = min (highest_equivalent h (value_from_index h k)) (h_max h)"
  using assms(2,6,7)
proof (induction "k - i" arbitrary: i running)
  case 0
  then have i: "i = k" by simp
  have "unat (h_counts h ! k) = size (filter_mset (\<lambda>v. hslot h v = k) M)" "size M < 2 ^ 64"
    using r assms(3) by (simp_all add: hist_rep_def)
  then have "unat (running + h_counts h ! k) = cum h M (Suc k)"
    using 0 i cum_Suc [of h M k] cum_le [of h M "Suc k"] by (simp add: unat_word_ariths)
  then have "running + h_counts h ! k \<ge> target" using assms(5) by (simp add: word_le_nat_alt)
  then show ?case using assms(3,4) i by (simp add: upt_conv_Cons Let_def)
next
  case (Suc n)
  then have lt: "i < k" by simp
  have "unat (h_counts h ! i) = size (filter_mset (\<lambda>v. hslot h v = i) M)" "size M < 2 ^ 64"
    using r assms(3) lt by (simp_all add: hist_rep_def)
  then have run: "unat (running + h_counts h ! i) = cum h M (Suc i)"
    using Suc.prems(2) cum_Suc [of h M i] cum_le [of h M "Suc i"] by (simp add: unat_word_ariths)
  then have no: "(running + h_counts h ! i \<ge> target \<and> h_counts h ! i \<noteq> 0) = False"
    using Suc.prems(3) [of i] lt by (auto simp: word_le_nat_alt)
  have upt: "[i..<length (h_counts h)] = i # [Suc i..<length (h_counts h)]"
    using lt assms(3) by (intro upt_conv_Cons) simp
  have "percentile_loop h target running [i..<length (h_counts h)]
      = percentile_loop h target (running + h_counts h ! i) [Suc i..<length (h_counts h)]"
    unfolding upt percentile_loop.simps Let_def no by simp
  also have "\<dots> = min (highest_equivalent h (value_from_index h k)) (h_max h)"
    using Suc.hyps(2) lt run Suc.prems(3) by (intro Suc.hyps(1)) auto
  finally show ?case .
qed

text \<open>That slot is the slot of the value of the target rank.\<close>

lemma rep_count:
  "hist_rep h M \<Longrightarrow> k < length (h_counts h) \<Longrightarrow> unat (h_counts h ! k) = size (filter_mset (\<lambda>v. hslot h v = k) M)"
  by (simp add: hist_rep_def)

lemma rep_member_count:
  assumes "hist_rep h M" "x \<in># M"
  shows "hslot h x < length (h_counts h)" "h_counts h ! hslot h x \<noteq> 0"
proof -
  show l: "hslot h x < length (h_counts h)" using assms by (simp add: hist_rep_def tracked_def)
  have "filter_mset (\<lambda>v. hslot h v = hslot h x) M \<noteq> {#}" using assms(2) by (simp add: filter_mset_eq_mempty_iff) blast
  then show "h_counts h ! hslot h x \<noteq> 0" using rep_count [OF assms(1) l] by auto
qed

lemma size_filter_sorted:
  "size (filter_mset P M) = length (filter P (sorted_list_of_multiset M))"
  by (metis mset_filter mset_sorted_list_of_multiset size_mset)

lemma cum_at_rank:
  assumes "layout_ok h" "k < size M"
  shows "Suc k \<le> cum h M (Suc (hslot h (sorted_list_of_multiset M ! k)))"
    "j < hslot h (sorted_list_of_multiset M ! k) \<Longrightarrow> cum h M (Suc j) \<le> k"
proof -
  define xs where "xs = sorted_list_of_multiset M"
  have xs: "sorted xs" "k < length xs" using assms(2) by (simp_all add: xs_def flip: size_mset)
  have s1: "1 \<le> h_sub_mag h" using assms(1) by (simp add: layout_ok_def)
  have mono: "hslot h v \<le> hslot h w" if "v \<le> w" for v w
    using slot_mono [OF s1] that by (simp add: word_le_nat_alt)
  have "length (filter (\<lambda>v. v \<le> xs ! k) xs) \<le> length (filter (\<lambda>v. hslot h v < Suc (hslot h (xs ! k))) xs)"
    using mono by (intro length_filter_mono) (auto simp: less_Suc_eq_le)
  then show "Suc k \<le> cum h M (Suc (hslot h (sorted_list_of_multiset M ! k)))"
    using sorted_le_count [OF xs] by (simp add: cum_def size_filter_sorted flip: xs_def)
  show "cum h M (Suc j) \<le> k" if "j < hslot h (sorted_list_of_multiset M ! k)"
    unfolding cum_def size_filter_sorted xs_def [symmetric]
  proof (rule sorted_less_count [OF xs])
    show "v < xs ! k" if "v \<in> set xs" "hslot h v < Suc j" for v
      using mono [of "xs ! k" v] that \<open>j < _\<close> by (fastforce simp: xs_def not_less)
  qed
qed

lemma percentile_loop_rank:
  assumes r: "hist_rep h M" and t: "unat target \<le> size M" "M \<noteq> {#}"
  defines "x \<equiv> sorted_list_of_multiset M ! (max 1 (unat target) - 1)"
  shows "percentile_loop h target 0 [0..<length (h_counts h)]
      = min (highest_equivalent h (value_from_index h (hslot h x))) (h_max h)" "x \<in># M"
proof -
  define k where "k = max 1 (unat target) - 1"
  have lay: "layout_ok h" using r by (simp add: hist_rep_def)
  have k: "k < size M" using t by (auto simp: k_def max_def nonempty_has_size)
  then have "x \<in> set (sorted_list_of_multiset M)"
    unfolding x_def k_def [symmetric] by (intro nth_mem) (simp flip: size_mset)
  then show xM: "x \<in># M" by simp
  note m = rep_member_count [OF r xM] and c = cum_at_rank [OF lay k, folded x_def [folded k_def]]
  have "unat target \<le> cum h M (Suc (hslot h x))" using c(1) by (simp add: k_def)
  moreover have "h_counts h ! j = 0 \<or> cum h M (Suc j) < unat target" if j: "j < hslot h x" for j
  proof (cases "unat target = 0")
    case True
    then have "cum h M (Suc j) = 0" using c(2) [OF j] by (simp add: k_def)
    then have "unat (h_counts h ! j) = 0" using cum_Suc [of h M j] rep_count [OF r, of j] j m(1) by simp
    then show ?thesis by (simp add: unat_eq_zero)
  next
    case False
    then have "cum h M (Suc j) < unat target" using c(2) [OF j] unfolding k_def by linarith
    then show ?thesis ..
  qed
  ultimately show "percentile_loop h target 0 [0..<length (h_counts h)]
      = min (highest_equivalent h (value_from_index h (hslot h x))) (h_max h)"
    by (intro percentile_loop_stops [OF r _ m]) (auto simp: cum_def)
qed

text \<open>The answer for a slot: the largest value of the slot of \<open>x\<close>.\<close>

lemma highest_equivalent_slot:
  assumes lay: "layout_ok h" and t: "tracked h x"
  defines "k \<equiv> hbkt h x + h_unit h"
  shows "unat (highest_equivalent h (value_from_index h (hslot h x))) + 1 = (unat x div 2 ^ k + 1) * 2 ^ k"
proof -
  define low where "low = value_from_index h (hslot h x)"
  have s1: "1 \<le> h_sub_mag h" using lay by (simp add: layout_ok_def)
  have ul: "unat low = slot_low (h_unit h) (h_sub_mag h) (hslot h x)"
    unfolding low_def using t by (intro value_from_index_eq [OF lay]) (simp add: tracked_def)
  also have "\<dots> = unat x - unat x mod 2 ^ k" unfolding k_def by (rule slot_low_slot [OF s1])
  also have "\<dots> = unat x div 2 ^ k * 2 ^ k" by (rule minus_mod_eq_div_mult)
  finally have l: "unat low = unat x div 2 ^ k * 2 ^ k" .
  have b: "hbkt h low = hbkt h x" unfolding ul by (rule bkt_slot_low [OF s1])
  have k63: "k \<le> 63" using hbkt_le [OF lay, of x] s1 by (simp add: k_def)
  have er: "equivalent_range h low = 2 ^ k"
    by (simp add: equivalent_range_def bucket_index_eq [OF lay] b k_def nat_add_distrib add.commute push_bit_eq_mult)
  have top: "unat low + 2 ^ k \<le> 2 ^ 64"
  proof -
    have e: "(2 :: nat) ^ (64 - k) * 2 ^ k = 2 ^ 64" using k63 by (simp flip: power_add)
    have "unat x < 2 ^ (64 - k) * 2 ^ k" unfolding e by (rule unat_u64_less)
    then have "unat x div 2 ^ k < 2 ^ (64 - k)" by (rule less_mult_imp_div_less)
    then have "(unat x div 2 ^ k + 1) * 2 ^ k \<le> 2 ^ (64 - k) * 2 ^ k" by (intro mult_right_mono) auto
    then show ?thesis unfolding e l by (simp add: algebra_simps)
  qed
  have one: "unat ((2 :: u64) ^ k - 1) = 2 ^ k - 1"
  proof -
    have "(2 :: u64) ^ k \<noteq> 0" using unat_pow2_u64 [OF k63] by (metis power_not_zero unat_0 zero_neq_numeral)
    then show ?thesis using unat_pow2_u64 [OF k63] unat_minus_one by metis
  qed
  have he: "highest_equivalent h low = low + (2 ^ k - 1)" by (simp add: highest_equivalent_def er)
  have "unat (low + (2 ^ k - 1)) = unat low + (2 ^ k - 1)"
  proof -
    have "unat low + unat ((2 :: u64) ^ k - 1) < 2 ^ LENGTH(64)" unfolding one using top by (simp add: less_eq_Suc_le) 
    then have "unat (low + (2 ^ k - 1)) = unat low + unat ((2 :: u64) ^ k - 1)" by (rule unat_add_lem [THEN iffD1])
    then show ?thesis unfolding one .
  qed
  then have "unat (highest_equivalent h low) = unat x div 2 ^ k * 2 ^ k + (2 ^ k - 1)" unfolding he l .
  moreover have "(1 :: nat) \<le> 2 ^ k" by simp
  ultimately show ?thesis unfolding low_def [symmetric] add_mult_distrib by linarith
qed

lemma multiple_above:
  fixes x :: nat
  assumes "a \<le> b" "x < m * 2 ^ b"
  shows "(x div 2 ^ a + 1) * 2 ^ a \<le> m * 2 ^ b"
proof -
  have e: "m * 2 ^ b = m * 2 ^ (b - a) * (2 :: nat) ^ a" using assms(1) by (simp flip: power_add)
  have "x div 2 ^ a < m * 2 ^ (b - a)" using assms(2) unfolding e by (rule less_mult_imp_div_less)
  then show ?thesis unfolding e by (intro mult_right_mono) auto
qed

lemma highest_equivalent_mono:
  assumes lay: "layout_ok h" and "tracked h x" "tracked h y" "x \<le> y"
  shows "highest_equivalent h (value_from_index h (hslot h x)) \<le> highest_equivalent h (value_from_index h (hslot h y))"
proof -
  define a b where "a = hbkt h x + h_unit h" and "b = hbkt h y + h_unit h"
  have ab: "a \<le> b" using bkt_mono assms(4) by (simp add: a_def b_def word_le_nat_alt)
  have "unat y < (unat y div 2 ^ b + 1) * 2 ^ b" 
    using dividend_less_div_times [of "2 ^ b" "unat y"] by simp
  then have "unat x < (unat y div 2 ^ b + 1) * 2 ^ b" using assms(4) unfolding word_le_nat_alt by linarith
  then have "(unat x div 2 ^ a + 1) * 2 ^ a \<le> (unat y div 2 ^ b + 1) * 2 ^ b" by (rule multiple_above [OF ab])
  then show ?thesis
    using highest_equivalent_slot [OF lay assms(2)] highest_equivalent_slot [OF lay assms(3)]
    unfolding a_def b_def word_le_nat_alt by linarith
qed

text \<open>The answer is at least \<open>x\<close>, and beyond the first bucket by less than a part in \<open>2 ^ (s - 1)\<close>.\<close>

lemma highest_equivalent_close:
  assumes lay: "layout_ok h" and t: "tracked h x" and u: "h_unit h = 0"
  defines "r \<equiv> highest_equivalent h (value_from_index h (hslot h x))"
  shows "x \<le> r" "2 ^ (h_sub_mag h - 1) * (unat r - unat x) \<le> unat x"
proof -
  define k where "k = hbkt h x"
  define q where "q = unat x div 2 ^ k"
  have s1: "1 \<le> h_sub_mag h" using lay by (simp add: layout_ok_def)
  have r: "unat r + 1 = q * 2 ^ k + 2 ^ k"
    using highest_equivalent_slot [OF lay t] by (simp add: r_def k_def q_def u)
  have x: "unat x = q * 2 ^ k + unat x mod 2 ^ k" unfolding q_def by (rule div_mult_mod_eq [symmetric])
  have m: "unat x mod 2 ^ k < 2 ^ k" by simp
  show "x \<le> r" unfolding word_le_nat_alt using r x m by linarith
  have d: "unat r - unat x \<le> 2 ^ k - 1" using r x by linarith
  show "2 ^ (h_sub_mag h - 1) * (unat r - unat x) \<le> unat x"
  proof (cases "k = 0")
    case True
    then show ?thesis using d by simp
  next
    case False
    then have "2 ^ (h_sub_mag h - 1) \<le> q"
      using sub_bucket_bounds(2) [OF s1, of 0 "unat x"] by (simp add: q_def k_def u)
    then have "2 ^ (h_sub_mag h - 1) * (unat r - unat x) \<le> q * 2 ^ k"
      by (rule mult_mono) (use d in linarith)+
    also have "\<dots> \<le> unat x" using x by linarith
    finally show ?thesis .
  qed
qed

section \<open>The rank a percentile asks for\<close>

lemma fclamp_bounds: "0 \<le> fclamp p 0 100" "fclamp p 0 100 \<le> 100"
  by (auto simp: fclamp_def)

lemma fclamp_mono: "p \<le> q \<Longrightarrow> fclamp p 0 100 \<le> fclamp q 0 100"
  unfolding fclamp_def by (split if_split)+ linarith

definition fraction :: "histogram \<Rightarrow> double \<Rightarrow> double" where
  "fraction h p = fmul (fdiv (fclamp p 0 100) 100) (f_of_u64 (h_total h))"

lemma percentile_target_fraction: "percentile_target h p = of_int \<lceil>fraction h p\<rceil>"
  by (simp add: percentile_target_def fraction_def)

lemma f_of_u64_exact:
  assumes "unat w = n" "n < 2 ^ 53"
  shows "f_of_u64 w = of_nat n"
proof -
  have "uint w = int n" unfolding assms(1) [symmetric] by (rule uint_nat)
  moreover have "rnd (of_int (int n)) = of_int (int n)" by (rule rnd_of_int) (use assms(2) in simp)
  ultimately show ?thesis unfolding f_of_u64_def f_of_int_def by simp
qed

lemma fraction_bounds:
  assumes "unat (h_total h) = n" "n < 2 ^ 53"
  shows "0 \<le> fraction h p" "fraction h p \<le> of_nat n"
proof -
  note f = f_of_u64_exact [OF assms]
  have d0: "0 \<le> fdiv (fclamp p 0 100) 100" by (rule fdiv_nonneg) (simp_all add: fclamp_bounds)
  show "0 \<le> fraction h p" unfolding fraction_def f by (rule fmul_nonneg [OF d0]) simp
  have d1: "fdiv (fclamp p 0 100) 100 \<le> of_int 1"
    unfolding fdiv_def by (rule f64.rd_le_int) (simp_all add: fclamp_bounds)
  then have "fdiv (fclamp p 0 100) 100 * of_nat n \<le> of_int (int n)"
    using mult_right_mono [of "fdiv (fclamp p 0 100) 100" 1 "of_nat n"] by simp
  then have "rnd (fdiv (fclamp p 0 100) 100 * of_nat n) \<le> of_int (int n)"
    by (rule f64.rd_le_int) (use assms(2) in simp)
  then show "fraction h p \<le> of_nat n" unfolding fraction_def f by (simp add: fmul_def)
qed

lemma fraction_mono: "p \<le> q \<Longrightarrow> fraction h p \<le> fraction h q"
  unfolding fraction_def
  by (intro fmul_mono fdiv_mono fclamp_mono) (simp_all add: f_of_u64_nonneg)

lemma percentile_target_nat:
  assumes "unat (h_total h) = n" "n < 2 ^ 53"
  shows "unat (percentile_target h p) = nat \<lceil>fraction h p\<rceil>" "nat \<lceil>fraction h p\<rceil> \<le> n"
proof -
  define c where "c = \<lceil>fraction h p\<rceil>"
  note b = fraction_bounds [OF assms, of p]
  have c: "0 \<le> c" "c \<le> int n" using b unfolding c_def by (simp_all add: ceiling_le_iff)
  then obtain m where m: "c = int m" by (metis nonneg_int_cases)
  then show "nat \<lceil>fraction h p\<rceil> \<le> n" using c(2) by (simp add: c_def [symmetric])
  have "m < 2 ^ 64" using m c(2) assms(2) by simp
  then have "unat (of_nat m :: u64) = m" by (simp add: unat_of_nat_small)
  then show "unat (percentile_target h p) = nat \<lceil>fraction h p\<rceil>"
    unfolding percentile_target_fraction c_def [symmetric] m by simp
qed

lemma fraction_error:
  assumes "unat (h_total h) = n" "n < 2 ^ 53" and p: "0 \<le> p" "p \<le> 100"
  shows "\<bar>fraction h p - p / 100 * of_nat n\<bar> \<le> of_nat n / 2 ^ 51"
proof -
  define N :: rat where "N = of_nat n"
  define a where "a = p / 100"
  define d where "d = rnd a"
  have N: "0 \<le> N" "f_of_u64 (h_total h) = N" using f_of_u64_exact [OF assms(1,2)] by (simp_all add: N_def)
  have a: "0 \<le> a" "a \<le> 1" using p by (simp_all add: a_def)
  have fr: "fraction h p = rnd (d * N)"
    using p by (simp add: fraction_def N(2) fmul_def fdiv_def d_def a_def fclamp_def)
  have d: "0 \<le> d" "d \<le> 1" using a f64.rd_nonneg [of a] f64.rd_le_int [of a 1] by (simp_all add: d_def)
  have e1: "\<bar>d - a\<bar> \<le> 1 / 2 ^ 53" using rnd_rel_error [of a] a unfolding d_def by (simp add: field_simps)
  have "\<bar>d * N - a * N\<bar> = \<bar>d - a\<bar> * N" using N(1) by (simp add: abs_mult flip: left_diff_distrib)
  also have "\<dots> \<le> 1 / 2 ^ 53 * N" using e1 N(1) by (rule mult_right_mono)
  finally have e2: "\<bar>d * N - a * N\<bar> \<le> N / 2 ^ 53" by simp
  have dn: "0 \<le> d * N" "d * N \<le> N" using d N(1) mult_right_mono [of d 1 N] by simp_all
  have "\<bar>rnd (d * N) - d * N\<bar> \<le> \<bar>d * N\<bar> / 2 ^ 53" by (rule rnd_rel_error)
  also have "\<dots> \<le> N / 2 ^ 53" using dn by (simp add: divide_right_mono)
  finally have e3: "\<bar>rnd (d * N) - d * N\<bar> \<le> N / 2 ^ 53" .
  have "N / 2 ^ 53 + N / 2 ^ 53 \<le> N / 2 ^ 51" using N(1) by simp
  then show ?thesis using e2 e3 unfolding fr N_def [symmetric] a_def [symmetric] by linarith
qed

text \<open>The histogram the pipeline uses: three significant digits, one nanosecond.\<close>

lemma hist_default_ok:
  "\<exists>h0. hist_default highest = Some h0 \<and> layout_ok h0 \<and> h_unit h0 = 0 \<and> h_sub_mag h0 = 11
    \<and> (\<forall>v \<le> highest. tracked h0 v) \<and> h_total h0 = 0 \<and> h_overflow h0 = 0 \<and> h_min h0 = 0 \<and> h_max h0 = 0
    \<and> h_counts h0 = replicate (length (h_counts h0)) 0"
proof -
  have c: "ceil_log2 (2 * 10 ^ 3) = 11" by code_simp
  have f: "floor_log2 (uint (if (1 :: u64) = 0 then 1 else 1)) = 0" by code_simp
  show ?thesis using hist_new_ok [of 3 1 highest] unfolding hist_default_def c f by simp
qed

lemma hist_default_rep:
  assumes "hist_default highest = Some h0"
  shows "hist_rep h0 {#}" "layout_ok h0" "h_unit h0 = 0" "h_sub_mag h0 = 11" "\<And>v. v \<le> highest \<Longrightarrow> tracked h0 v"
    "h_overflow h0 = 0" "hist_reset h0 = h0"
proof -
  note ok = hist_default_ok [of highest, unfolded assms, simplified]
  show "hist_rep h0 {#}" using ok by (intro rep_new) blast+
  show "layout_ok h0" "h_unit h0 = 0" "h_sub_mag h0 = 11" "\<And>v. v \<le> highest \<Longrightarrow> tracked h0 v" "h_overflow h0 = 0"
    using ok by blast+
  have "map (\<lambda>_. 0) (h_counts h0) = h_counts h0"
    using ok by (metis map_replicate_const)
  then show "hist_reset h0 = h0" using ok by (simp add: hist_reset_def)
qed

end
