(* ===== verification/Metrics.thy ===== *)
theory Metrics
  imports Histogram_Props "HOL-Library.Monad_Syntax"
begin

text \<open>
  The counters and histograms of the hot path, \<open>HotPathMetrics\<close> of \<open>include/vhp/metrics.hpp\<close>, and the
  figures its report computes from them. The text around the figures is in \<open>Report\<close>.
\<close>

record hot_metrics =
  m_transport :: histogram
  m_service :: histogram
  m_jitter :: histogram
  m_depth :: histogram
  m_endpoint_lag :: histogram
  m_frames :: u64
  m_chunks :: u64
  m_seq_gaps :: u64
  m_ring_full_drops :: u64
  m_event_drops :: u64
  m_depth_area_ns :: u64
  m_depth_time_ns :: u64
  m_frames_refused :: u64
  m_sessions_peak :: u32
  m_sessions_capacity :: u32
  m_sessions_opened :: u64
  m_sessions_rejected :: u64

definition kFrameDepthMax :: u64 where
  "kFrameDepthMax = push_bit 20 1"

definition metrics_new :: "hot_metrics option" where
  "metrics_new = do {
     transport \<leftarrow> hist_default 1000000000;
     service \<leftarrow> hist_default 1000000000;
     jitter \<leftarrow> hist_default 1000000000;
     depth \<leftarrow> hist_default kFrameDepthMax;
     endpoint_lag \<leftarrow> hist_default 60000000000;
     Some \<lparr>m_transport = transport, m_service = service, m_jitter = jitter, m_depth = depth,
       m_endpoint_lag = endpoint_lag, m_frames = 0, m_chunks = 0, m_seq_gaps = 0, m_ring_full_drops = 0,
       m_event_drops = 0, m_depth_area_ns = 0, m_depth_time_ns = 0, m_frames_refused = 0, m_sessions_peak = 0,
       m_sessions_capacity = 0, m_sessions_opened = 0, m_sessions_rejected = 0\<rparr>
   }"

definition mean_depth_time_averaged :: "hot_metrics \<Rightarrow> double" where
  "mean_depth_time_averaged m =
    (if m_depth_time_ns m = 0 then 0
     else fdiv (f_of_u64 (m_depth_area_ns m)) (f_of_u64 (m_depth_time_ns m)))"

text \<open>The line of the report that checks Little's law, \<open>L\<close> against \<open>lambda * W\<close>.\<close>

record little =
  li_L :: double
  li_lambda_W :: double
  li_lambda :: double
  li_W_ms :: double
  li_window_s :: double

definition little_line :: "hot_metrics \<Rightarrow> little" where
  "little_line m =
    (let window_s = fdiv (f_of_u64 (m_depth_time_ns m)) 1000000000;
         lambda = (if window_s > 0 then fdiv (f_of_u64 (m_frames m)) window_s else 0);
         W_s = fdiv (mean (m_transport m)) 1000000000
     in \<lparr>li_L = mean_depth_time_averaged m, li_lambda_W = fmul lambda W_s, li_lambda = lambda,
         li_W_ms = fmul W_s 1000, li_window_s = window_s\<rparr>)"

lemma metrics_new_ok:
  "\<exists>m. metrics_new = Some m \<and> m_frames m = 0 \<and> m_frames_refused m = 0 \<and> m_chunks m = 0 \<and> m_event_drops m = 0
    \<and> m_depth_area_ns m = 0 \<and> m_depth_time_ns m = 0 \<and> hist_default kFrameDepthMax = Some (m_depth m)"
proof -
  obtain a b c where "hist_default 1000000000 = Some a" "hist_default kFrameDepthMax = Some b"
      "hist_default 60000000000 = Some c"
    using hist_default_ok by metis
  then show ?thesis by (simp add: metrics_new_def)
qed

text \<open>A quotient of the integrals is at most \<open>n\<close> when the area is at most \<open>n\<close> times the time.\<close>

lemma mean_depth_le:
  assumes "unat (m_depth_area_ns m) \<le> n * unat (m_depth_time_ns m)" "n * unat (m_depth_time_ns m) < 2 ^ 53"
  shows "0 \<le> mean_depth_time_averaged m" "mean_depth_time_averaged m \<le> of_nat n"
proof -
  define a t where "a = unat (m_depth_area_ns m)" and "t = unat (m_depth_time_ns m)"
  show "0 \<le> mean_depth_time_averaged m"
    by (simp add: mean_depth_time_averaged_def fdiv_nonneg f_of_u64_nonneg)
  show "mean_depth_time_averaged m \<le> of_nat n"
  proof (cases "m_depth_time_ns m = 0")
    case False
    then have t: "1 \<le> t" by (simp add: t_def Suc_le_eq unat_gt_0)
    have le: "a \<le> n * t" "n * t < 2 ^ 53" using assms by (simp_all add: a_def t_def)
    have n: "n < 2 ^ 53" using t le(2) by (cases t) auto
    have tn: "t < 2 ^ 53 \<or> n = 0" using le(2) by (cases n) auto
    show ?thesis
    proof (cases "n = 0")
      case True
      then have "m_depth_area_ns m = 0" using le(1) by (simp add: a_def unat_eq_zero)
      then show ?thesis by (simp add: mean_depth_time_averaged_def f_of_u64_def f_of_int_def fdiv_def True)
    next
      case n0: False
      have f: "f_of_u64 (m_depth_area_ns m) = of_nat a" "f_of_u64 (m_depth_time_ns m) = of_nat t"
        using le n0 tn by (intro f_of_u64_exact; simp add: a_def t_def)+
      have "(of_nat a :: rat) \<le> of_nat (n * t)" using le(1) by (rule of_nat_mono)
      then have "(of_nat a :: rat) / of_nat t \<le> of_int (int n)" using t by (simp add: divide_le_eq)
      then have "rnd (of_nat a / of_nat t) \<le> of_int (int n)" by (rule f64.rd_le_int) (use n in simp)
      then show ?thesis using False by (simp add: mean_depth_time_averaged_def f fdiv_def)
    qed
  qed (simp add: mean_depth_time_averaged_def)
qed

end
