(* ===== verification/Audio_Frame.thy ===== *)
theory Audio_Frame
  imports Float64
begin

text \<open>
  The unit that crosses the process boundary (\<open>include/vhp/audio_frame.hpp\<close>) and the chunk
  event the hot path publishes. A header is a record of machine words in the order of the C++
  struct; a frame carries its \<open>kFramePayloadBytes\<close> payload bytes as a list.
\<close>

definition kFramePayloadBytes :: nat where
  "kFramePayloadBytes = 1024"

text \<open>\<open>AudioFormat\<close> is a scoped enumeration over \<open>std::uint16_t\<close>; a header may carry any
  16-bit value, so a format is the word itself.\<close>

definition kPcm16Le :: u16 where
  "kPcm16Le = 0"

definition kMulaw8 :: u16 where
  "kMulaw8 = 1"

definition kFlagNone :: u16 where
  "kFlagNone = 0"

definition kFlagStreamStart :: u16 where
  "kFlagStreamStart = push_bit 0 1"

definition kFlagStreamEnd :: u16 where
  "kFlagStreamEnd = push_bit 1 1"

record frame_header =
  fh_seq :: u64
  fh_t_produce_ns :: u64
  fh_t_capture_ns :: u64
  fh_byte_len :: u32
  fh_sample_rate :: u32
  fh_format :: u16
  fh_flags :: u16
  fh_session_id :: u32

record audio_frame =
  hdr :: frame_header
  payload :: "u8 list"

text \<open>The value-initialised header and frame, \<open>FrameHeader{}\<close> and \<open>AudioFrame{}\<close>.\<close>

definition zero_header :: frame_header where
  "zero_header = \<lparr>fh_seq = 0, fh_t_produce_ns = 0, fh_t_capture_ns = 0, fh_byte_len = 0,
     fh_sample_rate = 0, fh_format = 0, fh_flags = 0, fh_session_id = 0\<rparr>"

definition zero_frame :: audio_frame where
  "zero_frame = \<lparr>hdr = zero_header, payload = replicate kFramePayloadBytes 0\<rparr>"

abbreviation f_seq :: "audio_frame \<Rightarrow> u64" where
  "f_seq f \<equiv> fh_seq (hdr f)"

abbreviation f_len :: "audio_frame \<Rightarrow> nat" where
  "f_len f \<equiv> unat (fh_byte_len (hdr f))"

text \<open>A frame whose valid bytes lie inside its payload array. The unix-socket reader only
  produces such frames; nothing checks it for frames that arrive through shared memory.\<close>

definition frame_ok :: "audio_frame \<Rightarrow> bool" where
  "frame_ok f \<longleftrightarrow> length (payload f) = kFramePayloadBytes \<and> f_len f \<le> kFramePayloadBytes"

text \<open>The bytes \<open>payload .. payload + byte_len\<close>; \<^const>\<open>None\<close> is the out-of-bounds read.\<close>

definition frame_bytes :: "audio_frame \<Rightarrow> u8 list option" where
  "frame_bytes f = (if f_len f \<le> length (payload f) then Some (take (f_len f) (payload f)) else None)"

lemma frame_bytes_ok: "frame_ok f \<Longrightarrow> frame_bytes f = Some (take (f_len f) (payload f))"
  by (simp add: frame_ok_def frame_bytes_def)

text \<open>A linear PCM frame at 8 kHz with the given bytes, for the concrete instances below.\<close>

definition sample_frame :: "u64 \<Rightarrow> u8 list \<Rightarrow> audio_frame" where
  "sample_frame seq bs =
    \<lparr>hdr = zero_header\<lparr>fh_seq := seq, fh_byte_len := of_nat (length bs), fh_sample_rate := 8000\<rparr>,
     payload = bs @ replicate (kFramePayloadBytes - length bs) 0\<rparr>"

lemma frame_ok_sample: "length bs \<le> kFramePayloadBytes \<Longrightarrow> frame_ok (sample_frame seq bs)"
  by (simp add: sample_frame_def frame_ok_def kFramePayloadBytes_def unat_of_nat_small)

definition bytes_per_sample :: "u16 \<Rightarrow> nat" where
  "bytes_per_sample f = (if f = kPcm16Le then 2 else 1)"

definition frame_duration_ms :: "frame_header \<Rightarrow> double" where
  "frame_duration_ms h =
    (let bps = bytes_per_sample (fh_format h)
     in if fh_sample_rate h = 0 \<or> bps = 0 then 0
        else fdiv (fmul 1000 (f_of_int (int (unat (fh_byte_len h) div bps))))
                  (f_of_int (uint (fh_sample_rate h))))"

text \<open>Why a chunk was closed. The order of the constructors is that of their codes.\<close>

datatype close_reason = KHangover | KMaxLength | KStreamEnd

fun reason_code :: "close_reason \<Rightarrow> u16" where
  "reason_code KHangover = 0"
| "reason_code KMaxLength = 1"
| "reason_code KStreamEnd = 2"

lemma reason_code_inj: "reason_code a = reason_code b \<longleftrightarrow> a = b"
  by (cases a; cases b) simp_all

instantiation close_reason :: linorder
begin

definition less_eq_close_reason :: "close_reason \<Rightarrow> close_reason \<Rightarrow> bool" where
  "less_eq_close_reason a b \<longleftrightarrow> reason_code a \<le> reason_code b"

definition less_close_reason :: "close_reason \<Rightarrow> close_reason \<Rightarrow> bool" where
  "less_close_reason a b \<longleftrightarrow> reason_code a < reason_code b"

instance
  by standard (auto simp: less_eq_close_reason_def less_close_reason_def reason_code_inj [symmetric])

end

record chunk_event =
  ce_session_id :: u32
  ce_pad :: u32
  ce_chunk_id :: u64
  ce_first_seq :: u64
  ce_last_seq :: u64
  ce_t_first_frame_ns :: u64
  ce_t_speech_start_ns :: u64
  ce_t_endpoint_ns :: u64
  ce_frame_count :: u32
  ce_byte_count :: u32
  ce_dropped_frames :: u32
  ce_reason :: u16
  ce_format :: u16

text \<open>The value-initialised event, \<open>ChunkEvent{}\<close>, which fills the slots of a new event ring.\<close>

definition zero_event :: chunk_event where
  "zero_event = \<lparr>ce_session_id = 0, ce_pad = 0, ce_chunk_id = 0, ce_first_seq = 0, ce_last_seq = 0,
     ce_t_first_frame_ns = 0, ce_t_speech_start_ns = 0, ce_t_endpoint_ns = 0, ce_frame_count = 0,
     ce_byte_count = 0, ce_dropped_frames = 0, ce_reason = 0, ce_format = 0\<rparr>"

end
