(* ===== verification/Codec.thy ===== *)
theory Codec
  imports Prelude
begin

text \<open>
  G.711 mu-law: the decoder of \<open>include/vhp/codec.hpp\<close> with its compile-time table, and the
  encoder \<open>encode_mulaw\<close> of \<open>src/vhp_producer.cpp\<close>. Both compute in C++ \<open>int\<close>, here \<^typ>\<open>int\<close>;
  every intermediate value stays far below \<open>2 ^ 31\<close>.
\<close>

section \<open>Decoder\<close>

definition mulaw_to_linear :: "u8 \<Rightarrow> 16 word" where
  "mulaw_to_linear value =
    (let mu = NOT (uint value) AND 0xff;
         sign = mu AND 0x80;
         exponent = drop_bit 4 mu AND 0x07;
         mantissa = mu AND 0x0f;
         sample = push_bit (nat exponent) (push_bit 3 mantissa + 132) - 132;
         signed_sample = (if sign \<noteq> 0 then - sample else sample)
     in word_of_int (if signed_sample < - 32768 then - 32768
                     else if signed_sample > 32767 then 32767 else signed_sample))"

text \<open>The table, filled by the loop over \<open>i = 0 .. 255\<close>.\<close>

definition kMulawTable :: "16 word list" where
  "kMulawTable = map (\<lambda>i. mulaw_to_linear (of_nat i)) [0..<256]"

section \<open>Encoder\<close>

text \<open>The loop \<open>for (mask = 0x4000; (value & mask) == 0 && exponent > 0; mask >>= 1) --exponent\<close>.\<close>

fun seg_search :: "int \<Rightarrow> int \<Rightarrow> nat \<Rightarrow> nat" where
  "seg_search value msk 0 = 0"
| "seg_search value msk (Suc e) =
     (if value AND msk = 0 then seg_search value (drop_bit 1 msk) e else Suc e)"

definition encode_mulaw :: "16 word \<Rightarrow> 16 word" where
  "encode_mulaw sample =
    (let value = sint sample;
         sign = (if value < 0 then 0x80 else 0);
         value = (if value < 0 then - value else value);
         value = (if value > 32635 then 32635 else value) + 132;
         exponent = seg_search value 0x4000 7;
         mantissa = drop_bit (exponent + 3) value AND 0x0f
     in word_of_int (NOT (sign OR push_bit 4 (int exponent) OR mantissa) AND 0xff))"

text \<open>The byte the producer stores: \<open>static_cast<std::uint8_t>(encode_mulaw(s))\<close>.\<close>

definition mulaw_byte :: "16 word \<Rightarrow> u8" where
  "mulaw_byte s = ucast (encode_mulaw s)"

section \<open>The codes as sign, segment and step\<close>

text \<open>The magnitude of segment \<open>e\<close>, step \<open>m\<close>: the midpoint of the interval the encoder maps to
  that code.\<close>

definition lin :: "nat \<Rightarrow> int \<Rightarrow> int" where
  "lin e m = (m * 8 + 132) * 2 ^ e - 132"

lemma lin_bounds:
  assumes "0 \<le> m" "m < 16" "e < 8"
  shows "0 \<le> lin e m" "lin e m \<le> 32124"
proof -
  have "(1 :: int) \<le> 2 ^ e" by simp
  then have "132 * 1 \<le> (m * 8 + 132) * 2 ^ e" using assms by (intro mult_mono) auto
  then show "0 \<le> lin e m" by (simp add: lin_def)
  have "(2 :: int) ^ e \<le> 2 ^ 7" using assms by (intro power_increasing) auto
  then have "(m * 8 + 132) * 2 ^ e \<le> 252 * 2 ^ 7" using assms by (intro mult_mono) auto
  then show "lin e m \<le> 32124" by (simp add: lin_def)
qed

lemma not_and_255: "0 \<le> x \<Longrightarrow> x < 256 \<Longrightarrow> NOT (x :: int) AND 255 = 255 - x"
proof -
  assume "0 \<le> x" "x < 256"
  have "NOT x AND 255 = (- x - 1) mod 256"
    using take_bit_eq_mask [of 8 "NOT x"] by (simp add: take_bit_eq_mod mask_eq_exp_minus_1 not_int_def)
  also have "\<dots> = (255 - x) mod 256"
    using mod_add_self1 [of 256 "- x - 1"] by (simp add: algebra_simps)
  also have "\<dots> = 255 - x" using \<open>0 \<le> x\<close> \<open>x < 256\<close> by simp
  finally show ?thesis .
qed

lemma and_low_bits: "x AND 15 = (x :: int) mod 16" "x AND 7 = x mod 8"
  using take_bit_eq_mask [of 4 x] take_bit_eq_mask [of 3 x]
  by (simp_all add: take_bit_eq_mod mask_eq_exp_minus_1)

lemma and_sign_bit: "0 \<le> x \<Longrightarrow> x < 256 \<Longrightarrow> (x :: int) AND 128 \<noteq> 0 \<longleftrightarrow> 128 \<le> x"
proof -
  assume x: "0 \<le> x" "x < 256"
  have "x AND 128 \<noteq> 0 \<longleftrightarrow> bit x 7"
    using and_exp_eq_0_iff_not_bit [of x 7] by simp
  also have "\<dots> \<longleftrightarrow> odd (x div 128)" by (simp add: bit_iff_odd)
  also have "\<dots> \<longleftrightarrow> 128 \<le> x"
  proof (cases "128 \<le> x")
    case True
    then have "x div 128 = 1" using x by simp
    with True show ?thesis by simp
  next
    case False
    then have "x div 128 = 0" using x by simp
    with False show ?thesis by simp
  qed
  finally show ?thesis .
qed

definition code_mu :: "u8 \<Rightarrow> int" where
  "code_mu b = 255 - uint b"

definition code_seg :: "u8 \<Rightarrow> nat" where
  "code_seg b = nat (code_mu b div 16 mod 8)"

definition code_step :: "u8 \<Rightarrow> int" where
  "code_step b = code_mu b mod 16"

lemma code_mu_range: "0 \<le> code_mu b" "code_mu b < 256"
proof -
  have "0 \<le> uint b" "uint b < 256"
    using unsigned_less [of b, where ?'a = int] by simp_all
  then show "0 \<le> code_mu b" "code_mu b < 256" unfolding code_mu_def by linarith+
qed

lemma code_step_range: "0 \<le> code_step b" "code_step b < 16"
  by (simp_all add: code_step_def)

lemma code_seg_range: "code_seg b < 8"
  by (simp add: code_seg_def)

lemma sint_word16:
  assumes "- 32768 \<le> x" "x < 32768"
  shows "sint (word_of_int x :: 16 word) = x"
proof -
  have "sint (word_of_int x :: 16 word) = signed_take_bit 15 x"
    by (simp add: signed_of_int)
  also have "\<dots> = x" using assms by (intro signed_take_bit_int_eq_self) auto
  finally show ?thesis .
qed

lemma mulaw_decode:
  "sint (mulaw_to_linear b)
    = (if 128 \<le> code_mu b then - lin (code_seg b) (code_step b) else lin (code_seg b) (code_step b))"
proof -
  define mu where "mu = code_mu b"
  have mu: "NOT (uint b) AND 255 = mu" "0 \<le> mu" "mu < 256"
    using not_and_255 [of "uint b"] unsigned_less [of b, where ?'a = int] code_mu_range [of b]
    by (auto simp: mu_def code_mu_def)
  have seg: "nat (drop_bit 4 mu AND 7) = code_seg b"
    by (simp add: drop_bit_eq_div and_low_bits code_seg_def mu_def)
  have smp: "push_bit (code_seg b) (push_bit 3 (mu AND 15) + 132) - 132 = lin (code_seg b) (code_step b)"
    by (simp add: push_bit_eq_mult and_low_bits lin_def code_step_def mu_def)
  have b: "0 \<le> lin (code_seg b) (code_step b)" "lin (code_seg b) (code_step b) \<le> 32124"
    using lin_bounds code_step_range code_seg_range by simp_all
  show ?thesis
    unfolding mulaw_to_linear_def Let_def mu(1) seg smp
    using b and_sign_bit [OF mu(2,3)] by (simp add: sint_word16 mu_def)
qed

lemma kMulawTable_nth: "kMulawTable ! unat b = mulaw_to_linear b"
  using unsigned_less [of b, where ?'a = nat] by (simp add: kMulawTable_def)

lemma length_kMulawTable [simp]: "length kMulawTable = 256"
  by (simp add: kMulawTable_def)

section \<open>The encoder's segment search and code\<close>

lemma seg_search_spec:
  assumes "128 \<le> v" "v < 2 ^ (8 + e)"
  shows "seg_search v (2 ^ (7 + e)) e \<le> e
    \<and> 2 ^ (7 + seg_search v (2 ^ (7 + e)) e) \<le> v \<and> v < 2 ^ (8 + seg_search v (2 ^ (7 + e)) e)"
  using assms
proof (induction e)
  case 0
  then show ?case by simp
next
  case (Suc e)
  have "v AND 2 ^ (7 + Suc e) = 0 \<longleftrightarrow> \<not> bit v (7 + Suc e)"
    by (simp add: and_exp_eq_0_iff_not_bit)
  also have "\<dots> \<longleftrightarrow> v < 2 ^ (7 + Suc e)"
  proof (cases "v < 2 ^ (7 + Suc e)")
    case True
    then show ?thesis using Suc.prems by (simp add: bit_iff_odd div_pos_pos_trivial)
  next
    case False
    moreover have "(2 :: int) ^ (8 + Suc e) = 2 * 2 ^ (7 + Suc e)" by (simp add: power_add)
    ultimately have "v div 2 ^ (7 + Suc e) = 1"
      using Suc.prems by (intro int_div_pos_eq [where r = "v - 2 ^ (7 + Suc e)"]) auto
    then show ?thesis using False by (simp add: bit_iff_odd)
  qed
  finally have test: "v AND 2 ^ (7 + Suc e) = 0 \<longleftrightarrow> v < 2 ^ (7 + Suc e)" .
  have "drop_bit 1 ((2 :: int) ^ (7 + Suc e)) = 2 ^ (7 + e)"
    by (simp add: drop_bit_eq_div power_add)
  then have step: "seg_search v (2 ^ (7 + Suc e)) (Suc e)
      = (if v < 2 ^ (7 + Suc e) then seg_search v (2 ^ (7 + e)) e else Suc e)"
    by (simp only: seg_search.simps test)
  show ?case
  proof (cases "v < 2 ^ (7 + Suc e)")
    case True
    then have "v < 2 ^ (8 + e)" by simp
    then show ?thesis using Suc.IH Suc.prems(1) True unfolding step by simp
  next
    case False
    then show ?thesis using Suc.prems unfolding step by simp
  qed
qed

text \<open>The biased, clipped magnitude the encoder works on, and its segment and step.\<close>

definition enc_value :: "16 word \<Rightarrow> int" where
  "enc_value s = min \<bar>sint s\<bar> 32635 + 132"

definition enc_seg :: "16 word \<Rightarrow> nat" where
  "enc_seg s = seg_search (enc_value s) 0x4000 7"

definition enc_step :: "16 word \<Rightarrow> int" where
  "enc_step s = enc_value s div 2 ^ (enc_seg s + 3) - 16"

lemma enc_value_range: "132 \<le> enc_value s" "enc_value s \<le> 32767"
  by (auto simp: enc_value_def)

lemma enc_seg_spec:
  "enc_seg s \<le> 7" "2 ^ (7 + enc_seg s) \<le> enc_value s" "enc_value s < 2 ^ (8 + enc_seg s)"
  using seg_search_spec [of "enc_value s" 7] enc_value_range [of s] by (simp_all add: enc_seg_def)

lemma enc_step_range: "0 \<le> enc_step s" "enc_step s < 16"
proof -
  define e where "e = enc_seg s"
  have p: "(2 :: int) ^ (7 + e) = 16 * 2 ^ (e + 3)" "(2 :: int) ^ (8 + e) = 32 * 2 ^ (e + 3)"
    by (simp_all add: power_add)
  have "16 * 2 ^ (e + 3) \<le> enc_value s" "enc_value s < 32 * 2 ^ (e + 3)"
    using enc_seg_spec(2,3) [of s] unfolding e_def [symmetric] p .
  then have "16 \<le> enc_value s div 2 ^ (e + 3)" "enc_value s div 2 ^ (e + 3) < 32"
    by (simp_all add: int_le_div int_div_less)
  then show "0 \<le> enc_step s" "enc_step s < 16" by (simp_all add: enc_step_def e_def)
qed

lemma code_mu_mulaw_byte:
  "code_mu (mulaw_byte s) = (if sint s < 0 then 128 else 0) + 16 * int (enc_seg s) + enc_step s"
proof -
  define e where "e = enc_seg s"
  define m where "m = enc_step s"
  define sg where "sg = (if sint s < 0 then 1 else 0 :: int)"
  define x where "x = m + 16 * int e"
  have r: "e \<le> 7" "0 \<le> m" "m < 16" using enc_seg_spec(1) [of s] enc_step_range [of s]
    by (simp_all add: e_def m_def)
  have val: "(if \<bar>sint s\<bar> > 32635 then 32635 else \<bar>sint s\<bar>) + 132 = enc_value s"
    by (simp add: enc_value_def min_def)
  have ab: "(if sint s < 0 then - sint s else sint s) = \<bar>sint s\<bar>" by simp
  have seg: "seg_search (enc_value s) 16384 7 = e" by (simp add: e_def enc_seg_def)
  have q: "drop_bit (e + 3) (enc_value s) = m + 16"
    by (simp add: drop_bit_eq_div m_def e_def enc_step_def)
  have man: "drop_bit (e + 3) (enc_value s) AND 15 = m"
    unfolding q and_low_bits using r by simp
  have x: "0 \<le> x" "x < 128" using r by (auto simp: x_def)
  have or1: "push_bit 4 (int e) OR m = x"
  proof -
    have "take_bit 4 m = m" using r by (intro take_bit_int_eq_self) auto
    then show ?thesis
      using concat_bit_eq [of 4 m "int e"]
      by (simp add: concat_bit_def x_def push_bit_eq_mult or.commute)
  qed
  have or2: "(if sint s < 0 then 128 else 0) OR x = 128 * sg + x"
  proof -
    have "take_bit 7 x = x" using x by (intro take_bit_int_eq_self) auto
    then show ?thesis
      using concat_bit_eq [of 7 x 1]
      by (simp add: concat_bit_def sg_def push_bit_eq_mult or.commute)
  qed
  have rng: "0 \<le> 128 * sg + x" "128 * sg + x < 256" using x by (simp_all add: sg_def)
  have "encode_mulaw s = word_of_int (255 - (128 * sg + x))"
    unfolding encode_mulaw_def Let_def ab val seg man or.assoc or1 or2 not_and_255 [OF rng] ..
  then have "uint (mulaw_byte s) = 255 - (128 * sg + x)"
    using rng
    by (simp only: mulaw_byte_def unsigned_ucast_eq uint_word_of_int take_bit_eq_mod) simp
  then show ?thesis by (simp add: code_mu_def sg_def x_def e_def m_def)
qed

lemma code_of_mulaw_byte:
  "code_seg (mulaw_byte s) = enc_seg s" "code_step (mulaw_byte s) = enc_step s"
  "128 \<le> code_mu (mulaw_byte s) \<longleftrightarrow> sint s < 0"
proof -
  have r: "enc_seg s \<le> 7" "0 \<le> enc_step s" "enc_step s < 16"
    using enc_seg_spec(1) [of s] enc_step_range [of s] by simp_all
  show "code_step (mulaw_byte s) = enc_step s"
    using r unfolding code_step_def code_mu_mulaw_byte by (simp add: mod_add_left_eq [symmetric])
  have "code_mu (mulaw_byte s)
      = enc_step s + ((if sint s < 0 then 8 else 0) + int (enc_seg s)) * 16"
    unfolding code_mu_mulaw_byte by simp
  then have "code_mu (mulaw_byte s) div 16 = (if sint s < 0 then 8 else 0) + int (enc_seg s)"
    using r by simp
  then show "code_seg (mulaw_byte s) = enc_seg s"
    using r by (simp add: code_seg_def)
  show "128 \<le> code_mu (mulaw_byte s) \<longleftrightarrow> sint s < 0"
    using r unfolding code_mu_mulaw_byte by simp
qed

lemma mulaw_encode_error:
  "\<bar>lin (enc_seg s) (enc_step s) - min \<bar>sint s\<bar> 32635\<bar> \<le> 2 ^ (enc_seg s + 2)"
proof -
  define e where "e = enc_seg s"
  define v where "v = enc_value s"
  have "lin e (enc_step s) = (enc_step s + 16) * 2 ^ (e + 3) + 2 ^ (e + 2) - 132"
    by (simp add: lin_def power_add algebra_simps)
  moreover have "(enc_step s + 16) * 2 ^ (e + 3) = v - v mod 2 ^ (e + 3)"
    unfolding enc_step_def e_def v_def by (simp add: minus_mod_eq_div_mult)
  moreover have "0 \<le> v mod 2 ^ (e + 3)" "v mod 2 ^ (e + 3) < 2 ^ (e + 3)" by simp_all
  moreover have "(2 :: int) ^ (e + 3) = 2 * 2 ^ (e + 2)" by (simp add: power_add)
  ultimately have "\<bar>lin e (enc_step s) - (v - 132)\<bar> \<le> 2 ^ (e + 2)" by linarith
  then show ?thesis by (simp add: e_def v_def enc_value_def)
qed

text \<open>The decoder inverts the encoder's choice of segment and step.\<close>

lemma enc_of_lin:
  assumes "\<bar>sint s\<bar> = lin e m" "0 \<le> m" "m < 16" "e < 8"
  shows "enc_seg s = e" "enc_step s = m"
proof -
  have "lin e m \<le> 32124" using lin_bounds(2) assms by blast
  then have v: "enc_value s = (m * 8 + 132) * 2 ^ e"
    using assms(1) by (simp add: enc_value_def lin_def)
  have p: "(2 :: int) ^ (7 + k) = 128 * 2 ^ k" "(2 :: int) ^ (8 + k) = 256 * 2 ^ k" for k
    by (simp_all add: power_add)
  have lo: "128 * 2 ^ e \<le> enc_value s" and hi: "enc_value s < 256 * 2 ^ e"
    unfolding v using assms(2,3) by simp_all
  have "(128 :: int) * 2 ^ e < 256 * 2 ^ enc_seg s" "(128 :: int) * 2 ^ enc_seg s < 256 * 2 ^ e"
    using enc_seg_spec(2,3) [of s] lo hi unfolding p by linarith+
  then have "(2 :: int) ^ e < 2 ^ (enc_seg s + 1)" "(2 :: int) ^ enc_seg s < 2 ^ (e + 1)" by simp_all
  then have "e < enc_seg s + 1" "enc_seg s < e + 1"
    by (auto intro: power_less_imp_less_exp [of "2 :: int"])
  then show seg: "enc_seg s = e" by simp
  have "enc_value s = 2 ^ (e + 2) + (m + 16) * 2 ^ (e + 3)"
    unfolding v by (simp add: power_add algebra_simps)
  moreover have "(2 :: int) ^ (e + 2) div 2 ^ (e + 3) = 0"
    by (simp add: power_add div_pos_pos_trivial)
  ultimately have "enc_value s div 2 ^ (e + 3) = m + 16" by simp
  then show "enc_step s = m" by (simp add: enc_step_def seg)
qed

lemma code_mu_split: "code_mu b = (if 128 \<le> code_mu b then 128 else 0) + 16 * int (code_seg b) + code_step b"
proof -
  define m where "m = code_mu b"
  have r: "0 \<le> m" "m < 256" using code_mu_range by (simp_all add: m_def)
  have "m div 16 = (if 128 \<le> m then 8 else 0) + m div 16 mod 8"
  proof (cases "128 \<le> m")
    case True
    then have "8 \<le> m div 16" "m div 16 < 16" using r by linarith+
    then have "(m div 16 - 8) mod 8 = m div 16 - 8" by (intro mod_pos_pos_trivial) auto
    then have "m div 16 mod 8 = m div 16 - 8" using minus_mod_self2 [of "m div 16" 8] by simp
    with True show ?thesis by simp
  next
    case False
    then have "m div 16 < 8" using r by linarith
    with False r show ?thesis by simp
  qed
  moreover have "m = 16 * (m div 16) + m mod 16" by simp
  ultimately have "m = 16 * ((if 128 \<le> m then 8 else 0) + m div 16 mod 8) + m mod 16" by metis
  then show ?thesis unfolding code_seg_def code_step_def m_def [symmetric] by auto
qed

lemma code_mu_inj: "code_mu a = code_mu b \<Longrightarrow> a = b"
  by (simp add: code_mu_def word_uint_eq_iff)

section \<open>Properties\<close>

text \<open>C40: Decoding any mu-law byte and encoding the sample again gives the byte back, except for
  the code of negative zero, which comes back as the code of positive zero.\<close>

theorem mulaw_roundtrip:
  "mulaw_byte (mulaw_to_linear b) = (if b = 0x7f then 0xff else b)"
proof -
  define s where "s = mulaw_to_linear b"
  have r: "0 \<le> code_step b" "code_step b < 16" "code_seg b < 8"
    using code_step_range code_seg_range by simp_all
  have l: "0 \<le> lin (code_seg b) (code_step b)" using lin_bounds r by blast
  have ab: "\<bar>sint s\<bar> = lin (code_seg b) (code_step b)"
    using l by (auto simp: s_def mulaw_decode)
  have e: "enc_seg s = code_seg b" "enc_step s = code_step b"
    using enc_of_lin [OF ab r] .
  have mu: "code_mu (mulaw_byte s) = (if sint s < 0 then 128 else 0) + 16 * int (code_seg b) + code_step b"
    by (simp add: code_mu_mulaw_byte e)
  show ?thesis
  proof (cases "b = 0x7f")
    case True
    then have z: "code_mu b = 128" by (simp add: code_mu_def)
    then have "code_seg b = 0" "code_step b = 0" by (simp_all add: code_seg_def code_step_def)
    moreover from this have "sint s = 0" using ab by (simp add: lin_def)
    ultimately have "code_mu (mulaw_byte s) = 0" using mu by simp
    then have "code_mu (mulaw_byte s) = code_mu 0xff" by (simp add: code_mu_def)
    then show ?thesis using True code_mu_inj by (simp add: s_def)
  next
    case False
    have "sint s < 0 \<longleftrightarrow> 128 \<le> code_mu b"
    proof (cases "lin (code_seg b) (code_step b) = 0")
      case True
      then have "(code_step b * 8 + 132) * 2 ^ code_seg b = 132" by (simp add: lin_def)
      moreover have "132 * 2 ^ code_seg b \<le> (code_step b * 8 + 132) * 2 ^ code_seg b"
        using r by (intro mult_right_mono) auto
      ultimately have "(2 :: int) ^ code_seg b \<le> 1" by linarith
      then have "code_seg b = 0" by (metis less_le_not_le not_gr_zero one_less_numeral_iff one_less_power semiring_norm(76))
      with True have "code_step b = 0" by (simp add: lin_def)
      with \<open>code_seg b = 0\<close> have "code_mu b = (if 128 \<le> code_mu b then 128 else 0)"
        using code_mu_split [of b] by simp
      moreover have "code_mu b \<noteq> 128"
        using False code_mu_inj [of b "0x7f"] by (auto simp: code_mu_def)
      ultimately have "\<not> 128 \<le> code_mu b" by (auto split: if_splits)
      then show ?thesis using True by (simp add: s_def mulaw_decode)
    qed (use l in \<open>auto simp: s_def mulaw_decode\<close>)
    then have "code_mu (mulaw_byte s) = code_mu b" using mu code_mu_split [of b] by auto
    then show ?thesis using False code_mu_inj by (simp add: s_def)
  qed
qed

text \<open>Sending a sample through the producer's encoder and the consumer's decoder keeps its
  sign and moves its magnitude, clipped at 32635, by at most half a quantisation step: at most
  one part in 32 of the biased magnitude.\<close>

theorem mulaw_quantisation:
  "\<bar>\<bar>sint (mulaw_to_linear (mulaw_byte s))\<bar> - min \<bar>sint s\<bar> 32635\<bar> \<le> 2 ^ (enc_seg s + 2)
   \<and> 32 * 2 ^ (enc_seg s + 2) \<le> min \<bar>sint s\<bar> 32635 + 132
   \<and> 0 \<le> sint (mulaw_to_linear (mulaw_byte s)) * sint s"
proof -
  have r: "0 \<le> enc_step s" "enc_step s < 16" "enc_seg s < 8"
    using enc_step_range enc_seg_spec(1) [of s] by auto
  have l: "0 \<le> lin (enc_seg s) (enc_step s)" using lin_bounds r by blast
  have d: "sint (mulaw_to_linear (mulaw_byte s))
      = (if sint s < 0 then - lin (enc_seg s) (enc_step s) else lin (enc_seg s) (enc_step s))"
    by (simp add: mulaw_decode code_of_mulaw_byte)
  have "32 * (2 :: int) ^ (enc_seg s + 2) = 2 ^ (7 + enc_seg s)" by (simp add: power_add)
  also have "\<dots> \<le> enc_value s" by (rule enc_seg_spec(2))
  finally show ?thesis
    using mulaw_encode_error [of s] l unfolding d
    by (auto simp: enc_value_def mult_nonneg_nonneg mult_nonneg_nonpos)
qed

end
