(* ===== verification/Energy.thy ===== *)
theory Energy
  imports Audio_Frame Codec
begin

text \<open>
  Frame energy (\<open>include/vhp/energy.hpp\<close>): the peak and the root mean square of a frame, for
  16-bit little-endian PCM and for mu-law. Sample sums are exact integers, as in the C++ loop;
  the final quotient, square root and normalisation are rounded \<^typ>\<open>double\<close> operations. A read
  outside the byte array is \<^const>\<open>None\<close>.
\<close>

definition kPcm16MaxAmplitude :: double where
  "kPcm16MaxAmplitude = 32768"

record audio_energy =
  ae_peak :: double
  ae_rms :: double
  ae_peak_norm :: double
  ae_rms_norm :: double
  ae_samples :: u32

text \<open>\<open>std::memcpy(&sample, bytes + i * 2, 2)\<close> on a little-endian host.\<close>

definition load_i16 :: "u8 list \<Rightarrow> nat \<Rightarrow> int option" where
  "load_i16 bytes off =
    (if off + 1 < length bytes
     then Some (sint (word_cat (bytes ! (off + 1)) (bytes ! off) :: 16 word)) else None)"

text \<open>\<open>kMulawTable[bytes[i]]\<close>.\<close>

definition load_mulaw :: "u8 list \<Rightarrow> nat \<Rightarrow> int option" where
  "load_mulaw bytes i =
    (if i < length bytes then Some (sint (kMulawTable ! unat (bytes ! i))) else None)"

text \<open>The loop over \<open>i < n\<close>, with the sample access of the format as \<open>ld\<close>; the accumulators
  are \<open>sum_squares\<close> and \<open>peak\<close>.\<close>

fun energy_loop :: "(nat \<Rightarrow> int option) \<Rightarrow> nat list \<Rightarrow> int \<Rightarrow> int \<Rightarrow> (int \<times> int) option" where
  "energy_loop ld [] sum_squares peak = Some (sum_squares, peak)"
| "energy_loop ld (i # is) sum_squares peak =
    (case ld i of
       None \<Rightarrow> None
     | Some sample \<Rightarrow>
         (let magnitude = (if sample < 0 then - sample else sample);
              peak = (if magnitude > peak then magnitude else peak)
          in energy_loop ld is (sum_squares + sample * sample) peak))"

text \<open>The common tail of the two functions: from the integer sums to the record.\<close>

definition energy_of_sums :: "nat \<Rightarrow> int \<Rightarrow> int \<Rightarrow> audio_energy" where
  "energy_of_sums n sum_squares peak =
    (let pk = f_of_int peak;
         rms = (if n > 0 then fsqrt (fdiv (f_of_int sum_squares) (f_of_int (int n))) else 0)
     in \<lparr>ae_peak = pk, ae_rms = rms,
         ae_peak_norm = fdiv pk kPcm16MaxAmplitude,
         ae_rms_norm = fdiv rms kPcm16MaxAmplitude,
         ae_samples = of_nat n\<rparr>)"

definition energy_pcm16 :: "u8 list \<Rightarrow> nat \<Rightarrow> audio_energy option" where
  "energy_pcm16 bytes byte_len =
    (let n = byte_len div 2
     in map_option (\<lambda>(s, p). energy_of_sums n s p)
          (energy_loop (\<lambda>i. load_i16 bytes (i * 2)) [0..<n] 0 0))"

definition energy_mulaw :: "u8 list \<Rightarrow> nat \<Rightarrow> audio_energy option" where
  "energy_mulaw bytes byte_len =
    map_option (\<lambda>(s, p). energy_of_sums byte_len s p)
      (energy_loop (load_mulaw bytes) [0..<byte_len] 0 0)"

definition frame_energy :: "audio_frame \<Rightarrow> audio_energy option" where
  "frame_energy f =
    (if fh_format (hdr f) = kMulaw8 then energy_mulaw (payload f) (f_len f)
     else energy_pcm16 (payload f) (f_len f))"

section \<open>The samples of a frame\<close>

definition frame_samples :: "audio_frame \<Rightarrow> int list" where
  "frame_samples f =
    (if fh_format (hdr f) = kMulaw8
     then map (\<lambda>i. sint (mulaw_to_linear (payload f ! i))) [0..<f_len f]
     else map (\<lambda>i. sint (word_cat (payload f ! (i * 2 + 1)) (payload f ! (i * 2)) :: 16 word))
            [0..<f_len f div 2])"

definition sum_sq :: "int list \<Rightarrow> int" where
  "sum_sq xs = sum_list (map (\<lambda>x. x * x) xs)"

definition peak_of :: "int list \<Rightarrow> int" where
  "peak_of xs = foldl (\<lambda>p x. max p \<bar>x\<bar>) 0 xs"

lemma energy_loop_map:
  assumes "\<And>i. i \<in> set is \<Longrightarrow> ld i = Some (g i)"
  shows "energy_loop ld is s p
    = Some (s + sum_sq (map g is), foldl (\<lambda>p x. max p \<bar>x\<bar>) p (map g is))"
  using assms
proof (induction "is" arbitrary: s p)
  case Nil
  then show ?case by (simp add: sum_sq_def)
next
  case (Cons i "is")
  have m: "(if \<bar>g i\<bar> > p then \<bar>g i\<bar> else p) = max p \<bar>g i\<bar>" by simp
  have a: "(if g i < 0 then - g i else g i) = \<bar>g i\<bar>" by simp
  show ?case using Cons by (simp add: Let_def a m sum_sq_def)
qed

lemma frame_samples_mulaw:
  "fh_format (hdr f) = kMulaw8 \<Longrightarrow>
     frame_samples f = map (\<lambda>i. sint (mulaw_to_linear (payload f ! i))) [0..<f_len f]"
  by (simp add: frame_samples_def)

lemma frame_samples_pcm:
  "fh_format (hdr f) \<noteq> kMulaw8 \<Longrightarrow>
     frame_samples f = map (\<lambda>i. sint (word_cat (payload f ! (i * 2 + 1)) (payload f ! (i * 2)) :: 16 word))
       [0..<f_len f div 2]"
  by (simp add: frame_samples_def)

lemma frame_energy_ok:
  assumes "frame_ok f"
  shows "frame_energy f
    = Some (energy_of_sums (length (frame_samples f)) (sum_sq (frame_samples f)) (peak_of (frame_samples f)))"
proof (cases "fh_format (hdr f) = kMulaw8")
  case True
  have "energy_loop (load_mulaw (payload f)) [0..<f_len f] 0 0
    = Some (0 + sum_sq (frame_samples f), foldl (\<lambda>p x. max p \<bar>x\<bar>) 0 (frame_samples f))"
    unfolding frame_samples_mulaw [OF True]
    by (rule energy_loop_map) (use assms in \<open>auto simp: frame_ok_def load_mulaw_def kMulawTable_nth\<close>)
  then show ?thesis using True
    by (simp add: frame_energy_def energy_mulaw_def peak_of_def frame_samples_mulaw)
next
  case False
  have "i * 2 + 1 < length (payload f)" if "i < f_len f div 2" for i
    using assms that by (simp add: frame_ok_def) linarith
  then have "energy_loop (\<lambda>i. load_i16 (payload f) (i * 2)) [0..<f_len f div 2] 0 0
    = Some (0 + sum_sq (frame_samples f), foldl (\<lambda>p x. max p \<bar>x\<bar>) 0 (frame_samples f))"
    unfolding frame_samples_pcm [OF False] by (intro energy_loop_map) (simp add: load_i16_def)
  then show ?thesis using False
    by (simp add: frame_energy_def energy_pcm16_def peak_of_def frame_samples_pcm Let_def)
qed

lemma sint16_range: "- 32768 \<le> sint (w :: 16 word)" "sint (w :: 16 word) \<le> 32767"
  using sint_greater_eq [of w] sint_less [of w] by simp_all

lemma frame_samples_range:
  assumes "x \<in> set (frame_samples f)"
  shows "\<bar>x\<bar> \<le> 32768"
proof -
  obtain w :: "16 word" where "x = sint w"
    using assms by (auto simp: frame_samples_def split: if_splits)
  then show ?thesis using sint16_range [of w] by linarith
qed

lemma length_frame_samples: "frame_ok f \<Longrightarrow> length (frame_samples f) \<le> 1024"
  by (auto simp: frame_samples_def frame_ok_def kFramePayloadBytes_def)

lemma peak_of_le:
  fixes p :: int
  assumes "\<And>x. x \<in> set xs \<Longrightarrow> \<bar>x\<bar> \<le> b" "p \<le> b"
  shows "p \<le> foldl (\<lambda>p x. max p \<bar>x\<bar>) p xs \<and> foldl (\<lambda>p x. max p \<bar>x\<bar>) p xs \<le> b"
  using assms
proof (induction xs arbitrary: p)
  case (Cons y ys)
  have "max p \<bar>y\<bar> \<le> b" using Cons.prems(1) [of y] Cons.prems(2) by (simp add: max_def)
  with Cons.IH [of "max p \<bar>y\<bar>"] Cons.prems show ?case by auto
qed simp

lemma peak_of_ge:
  fixes p :: int
  shows "x \<in> set xs \<Longrightarrow> \<bar>x\<bar> \<le> foldl (\<lambda>p x. max p \<bar>x\<bar>) p xs"
proof (induction xs arbitrary: p)
  case (Cons y ys)
  have "q \<le> foldl (\<lambda>p x. max p \<bar>x :: int\<bar>) q ys" for q :: int and ys
    by (induction ys arbitrary: q) (auto intro: order_trans [OF max.cobounded1])
  from this [of "max p \<bar>y\<bar>"] Cons show ?case by auto
qed simp

lemma sum_sq_bounds:
  assumes "\<And>x. x \<in> set xs \<Longrightarrow> \<bar>x\<bar> \<le> b" "0 \<le> b"
  shows "0 \<le> sum_sq xs \<and> sum_sq xs \<le> int (length xs) * (b * b)"
  using assms
proof (induction xs)
  case (Cons y ys)
  have "\<bar>y\<bar> * \<bar>y\<bar> \<le> b * b" using Cons.prems by (intro mult_mono) auto
  then have "y * y \<le> b * b" by simp
  moreover have "0 \<le> y * y" by simp
  ultimately show ?case using Cons by (simp add: sum_sq_def algebra_simps)
qed (simp add: sum_sq_def)

lemma peak_of_range:
  assumes "frame_ok f"
  shows "0 \<le> peak_of (frame_samples f)" "peak_of (frame_samples f) \<le> 32768"
  using peak_of_le [of "frame_samples f" 32768 0] frame_samples_range unfolding peak_of_def by auto

lemma sum_sq_le_peak:
  "0 \<le> sum_sq xs" "sum_sq xs \<le> int (length xs) * (peak_of xs * peak_of xs)"
proof -
  have "p \<le> foldl (\<lambda>p x. max p \<bar>x\<bar>) p ys" for p :: int and ys
    by (induction ys arbitrary: p) (auto intro: order_trans [OF max.cobounded1])
  then have "0 \<le> peak_of xs" unfolding peak_of_def .
  moreover have "\<bar>x\<bar> \<le> peak_of xs" if "x \<in> set xs" for x
    using peak_of_ge [OF that] unfolding peak_of_def .
  ultimately show "0 \<le> sum_sq xs" "sum_sq xs \<le> int (length xs) * (peak_of xs * peak_of xs)"
    using sum_sq_bounds [of xs "peak_of xs"] by auto
qed

text \<open>What the record says about the sums: the peak is exact, the root mean square is at most
  the peak, and normalisation divides the peak exactly.\<close>

lemma energy_of_sums_props:
  assumes "0 \<le> p" "p \<le> 32768" "0 \<le> s" "s \<le> int n * (p * p)" "n \<le> 1024"
  shows "ae_peak (energy_of_sums n s p) = of_int p"
    "ae_peak_norm (energy_of_sums n s p) = of_int p / 32768"
    "0 \<le> ae_rms (energy_of_sums n s p)" "ae_rms (energy_of_sums n s p) \<le> of_int p"
    "0 \<le> ae_rms_norm (energy_of_sums n s p)" "ae_rms_norm (energy_of_sums n s p) \<le> of_int p / 32768"
    "s < 2 ^ 63"
proof -
  define e where "e = energy_of_sums n s p"
  have pp: "p * p \<le> 32768 * 32768" using assms by (intro mult_mono) auto
  have "int n * (p * p) \<le> 1024 * (32768 * 32768)" using assms pp by (intro mult_mono) auto
  then have s: "s \<le> 2 ^ 40" using assms by simp
  then show "s < 2 ^ 63" by simp
  have ex: "f_of_int p = of_int p" "f_of_int s = of_int s" "f_of_int (int n) = of_int (int n)"
    unfolding f_of_int_def using assms s by (auto intro!: rnd_of_int simp del: of_int_of_nat_eq)
  show pk: "ae_peak e = of_int p" by (simp add: e_def energy_of_sums_def Let_def ex)
  have n15: "pow2 (- 15) = 1 / 32768" by (simp add: pow2_def)
  have nm: "fdiv (of_int p) kPcm16MaxAmplitude = of_int p / 32768"
    using rnd_exact [of p "- 15"] assms unfolding fdiv_def kPcm16MaxAmplitude_def n15 by simp
  show "ae_peak_norm e = of_int p / 32768"
    by (simp add: e_def energy_of_sums_def Let_def ex nm)
  have r: "ae_rms e = (if n > 0 then fsqrt (fdiv (of_int s) (of_int (int n))) else 0)"
    by (simp add: e_def energy_of_sums_def Let_def ex)
  show rn: "0 \<le> ae_rms e" by (simp add: r fsqrt_nonneg)
  show rp: "ae_rms e \<le> of_int p"
  proof (cases "n > 0")
    case True
    have "rat_of_int s \<le> of_int (int n * (p * p))" using assms by (simp only: of_int_le_iff)
    then have "rat_of_int s / of_int (int n) \<le> of_int (p * p)"
      using True by (simp add: divide_le_eq mult.commute)
    moreover have "\<bar>p * p\<bar> \<le> 2 ^ 53" using pp assms by simp
    ultimately have "fdiv (of_int s) (of_int (int n)) \<le> of_int (p * p)"
      unfolding fdiv_def by (rule f64.rd_le_int)
    then have "fsqrt (fdiv (of_int s) (of_int (int n))) \<le> fsqrt (of_int (p * p))" by (rule fsqrt_mono)
    also have "\<dots> = of_int p" using assms by (intro fsqrt_square) auto
    finally show ?thesis using True by (simp only: r if_True)
  qed (use assms in \<open>simp add: r\<close>)
  have rm: "ae_rms_norm e = fdiv (ae_rms e) kPcm16MaxAmplitude"
    by (simp add: e_def energy_of_sums_def Let_def)
  show "0 \<le> ae_rms_norm e"
    unfolding rm using rn by (simp add: fdiv_nonneg kPcm16MaxAmplitude_def)
  show "ae_rms_norm e \<le> of_int p / 32768"
    unfolding rm nm [symmetric] using rp by (intro fdiv_mono) (auto simp: kPcm16MaxAmplitude_def)
qed

section \<open>Two concrete frames\<close>

definition loud_frame :: "u64 \<Rightarrow> audio_frame" where
  "loud_frame seq = sample_frame seq [0x10, 0x27, 0xf0, 0xd8]"

definition quiet_sample :: "u64 \<Rightarrow> audio_frame" where
  "quiet_sample seq = sample_frame seq [1, 0, 0, 0]"

lemma sample_frames_ok [simp]: "frame_ok (loud_frame seq)" "frame_ok (quiet_sample seq)"
  by (simp_all add: loud_frame_def quiet_sample_def frame_ok_sample kFramePayloadBytes_def)

lemma frame_samples_loud: "frame_samples (loud_frame seq) = [10000, - 10000]"
  by (simp add: loud_frame_def frame_samples_def sample_frame_def zero_header_def kMulaw8_def upt_rec)
    code_simp

lemma frame_samples_quiet: "frame_samples (quiet_sample seq) = [1, 0]"
  by (simp add: quiet_sample_def frame_samples_def sample_frame_def zero_header_def kMulaw8_def upt_rec)

lemma frame_energy_samples [simp]:
  "frame_energy (loud_frame seq) = Some (energy_of_sums 2 200000000 10000)"
  "frame_energy (quiet_sample seq) = Some (energy_of_sums 2 1 1)"
  by (simp_all add: frame_energy_ok frame_samples_loud frame_samples_quiet sum_sq_def peak_of_def
      numeral_2_eq_2)

section \<open>Properties\<close>

text \<open>C39: For every frame whose valid bytes lie inside its payload, the energy computation reads
  no byte out of bounds and its 64-bit sum does not overflow; the peak is the exact largest
  magnitude, and the root mean square never exceeds it, in raw and in normalised units.\<close>

theorem frame_energy_bounds:
  assumes "frame_ok f"
  shows "\<exists>e. frame_energy f = Some e
    \<and> sum_sq (frame_samples f) < 2 ^ 63
    \<and> ae_peak e = of_int (peak_of (frame_samples f))
    \<and> 0 \<le> ae_rms e \<and> ae_rms e \<le> ae_peak e \<and> ae_peak e \<le> 32768
    \<and> 0 \<le> ae_rms_norm e \<and> ae_rms_norm e \<le> ae_peak_norm e \<and> ae_peak_norm e \<le> 1"
proof -
  define xs where "xs = frame_samples f"
  have b: "0 \<le> peak_of xs" "peak_of xs \<le> 32768" "0 \<le> sum_sq xs"
      "sum_sq xs \<le> int (length xs) * (peak_of xs * peak_of xs)" "length xs \<le> 1024"
    using peak_of_range [OF assms] sum_sq_le_peak [of xs] length_frame_samples [OF assms]
    by (simp_all add: xs_def)
  show ?thesis
    using energy_of_sums_props [OF b] b(2) frame_energy_ok [OF assms] unfolding xs_def [symmetric] by auto
qed

lemma frame_energy_bounds_witness:
  "frame_ok (loud_frame 7) \<and> (\<exists>e. frame_energy (loud_frame 7) = Some e \<and> ae_peak e = 10000 \<and> ae_rms e \<le> ae_peak e)"
  using frame_energy_bounds [of "loud_frame 7"] sample_frames_ok(1) [of 7]
  by (auto simp: frame_samples_loud peak_of_def)

text \<open>On a frame whose samples all have the same magnitude the root mean square equals the
  peak exactly, without any rounding error.\<close>

theorem frame_energy_constant:
  assumes "frame_ok f" and "frame_samples f \<noteq> []" and "\<And>x. x \<in> set (frame_samples f) \<Longrightarrow> \<bar>x\<bar> = a"
  shows "\<exists>e. frame_energy f = Some e \<and> ae_rms e = of_int a \<and> ae_peak e = of_int a
    \<and> ae_rms_norm e = ae_peak_norm e"
proof -
  define xs where "xs = frame_samples f"
  have a: "0 \<le> a" "a \<le> 32768" and ne: "xs \<noteq> []" and all: "\<And>x. x \<in> set xs \<Longrightarrow> \<bar>x\<bar> = a"
  proof -
    show ne: "xs \<noteq> []" and all: "\<And>x. x \<in> set xs \<Longrightarrow> \<bar>x\<bar> = a"
      using assms(2,3) by (simp_all add: xs_def)
    have "\<bar>hd xs\<bar> = a" "\<bar>hd xs\<bar> \<le> 32768"
      using all frame_samples_range [of "hd xs" f] ne by (simp_all add: xs_def)
    then show "0 \<le> a" "a \<le> 32768" by linarith+
  qed
  have pk: "peak_of xs = a"
    using peak_of_le [of xs a 0] peak_of_ge [of "hd xs" xs 0] all ne a(1) unfolding peak_of_def
    by (metis hd_in_set order_antisym order_refl)
  have "x * x = a * a" if "x \<in> set xs" for x using all [OF that] by (metis abs_mult_self_eq)
  then have sq: "sum_sq xs = int (length xs) * (a * a)"
    unfolding sum_sq_def by (induction xs) (auto simp: algebra_simps)
  have len: "0 < length xs" "length xs \<le> 1024" using ne length_frame_samples [OF assms(1)] by (auto simp: xs_def)
  have aa: "a * a \<le> 32768 * 32768" using a by (intro mult_mono) auto
  have "int (length xs) * (a * a) \<le> 1024 * (32768 * 32768)" 
  proof (rule mult_mono)
    show "int (length xs) \<le> 1024" "a * a \<le> 32768 * 32768" using len aa by simp_all
  qed simp_all
  then have ex: "f_of_int (int (length xs) * (a * a)) = of_int (int (length xs) * (a * a))"
      "f_of_int (int (length xs)) = of_int (int (length xs))" "f_of_int a = of_int a"
    unfolding f_of_int_def using len(2) a by (intro rnd_of_int, simp)+
  have "fdiv (of_int (int (length xs) * (a * a))) (of_int (int (length xs))) = of_int (a * a)"
    using len aa rnd_of_int [of "a * a"] by (simp add: fdiv_def)
  then have "fsqrt (fdiv (f_of_int (sum_sq xs)) (f_of_int (int (length xs)))) = of_int a"
    unfolding sq ex using fsqrt_square [of a] a by simp
  then show ?thesis
    using frame_energy_ok [OF assms(1)] len unfolding xs_def [symmetric] pk
    by (simp add: energy_of_sums_def Let_def ex)
qed

lemma frame_energy_constant_witness:
  "\<exists>e. frame_energy (loud_frame 7) = Some e \<and> ae_rms e = 10000 \<and> ae_peak e = 10000"
proof -
  have a: "frame_samples (loud_frame 7) \<noteq> []" by (simp add: frame_samples_loud)
  have b: "\<bar>x\<bar> = 10000" if "x \<in> set (frame_samples (loud_frame 7))" for x
    using that by (auto simp: frame_samples_loud)
  show ?thesis using frame_energy_constant [OF sample_frames_ok(1) a b] by simp
qed

text \<open>A frame whose header claims more bytes than its payload holds makes the energy
  computation read out of bounds; this is exactly when it does.\<close>

theorem frame_energy_out_of_bounds:
  "frame_energy f = None \<longleftrightarrow>
    (if fh_format (hdr f) = kMulaw8 then length (payload f) < f_len f
     else length (payload f) < 2 * (f_len f div 2))"
proof -
  have none: "energy_loop ld is s p = None \<longleftrightarrow> (\<exists>i \<in> set is. ld i = None)" for ld "is" s p
    by (induction "is" arbitrary: s p) (auto simp: Let_def split: option.splits)
  have mu: "(\<exists>i \<in> set [0..<n]. load_mulaw (payload f) i = None) \<longleftrightarrow> length (payload f) < n" for n
    by (auto simp: load_mulaw_def)
  have pcm: "(\<exists>i \<in> set [0..<n]. load_i16 (payload f) (i * 2) = None) \<longleftrightarrow> length (payload f) < 2 * n" for n
  proof
    assume "length (payload f) < 2 * n"
    then have "n - 1 < n" "length (payload f) \<le> (n - 1) * 2 + 1" by auto
    then show "\<exists>i \<in> set [0..<n]. load_i16 (payload f) (i * 2) = None"
      by (intro bexI [of _ "n - 1"]) (auto simp: load_i16_def)
  qed (auto simp: load_i16_def split: if_splits)
  show ?thesis
    by (simp only: frame_energy_def energy_mulaw_def energy_pcm16_def Let_def option.map_disc_iff none mu pcm
        split: if_split) simp
qed

end
