(* ===== verification/Vad_Gate.thy ===== *)
theory Vad_Gate
  imports Energy
begin

text \<open>
  The speech gate, \<open>SpeechThresholdGate\<close> of \<open>include/vhp/vad.hpp\<close>: a loudness threshold, a
  sustained-onset counter, a silence hold and a cooldown. The counters are 32-bit words. The
  main lemma relates the counters to windows over the history of loud and quiet frames.
\<close>

record gate_config =
  gc_rms_threshold :: "double option"
  gc_peak_threshold :: "double option"
  gc_speech_frames :: u32
  gc_silence_frames :: u32
  gc_cooldown_ms :: double

text \<open>The member initialisers of \<open>GateConfig\<close>.\<close>

definition default_gate_config :: gate_config where
  "default_gate_config = \<lparr>gc_rms_threshold = Some (rnd (2 / 100)), gc_peak_threshold = Some (rnd (10 / 100)),
     gc_speech_frames = 2, gc_silence_frames = 12, gc_cooldown_ms = 0\<rparr>"

record gate =
  g_cfg :: gate_config
  g_loud_frames :: u32
  g_quiet_frames :: u32
  g_speaking :: bool
  g_has_triggered :: bool
  g_last_trigger_ms :: double

definition gate_new :: "gate_config \<Rightarrow> gate" where
  "gate_new config =
    \<lparr>g_cfg = (if gc_speech_frames config < 1 then config\<lparr>gc_speech_frames := 1\<rparr> else config),
     g_loud_frames = 0, g_quiet_frames = 0, g_speaking = False, g_has_triggered = False,
     g_last_trigger_ms = 0\<rparr>"

definition is_loud :: "gate_config \<Rightarrow> audio_energy \<Rightarrow> bool" where
  "is_loud cfg e \<longleftrightarrow>
    (case gc_rms_threshold cfg of None \<Rightarrow> False | Some t \<Rightarrow> t \<le> ae_rms_norm e)
    \<or> (case gc_peak_threshold cfg of None \<Rightarrow> False | Some t \<Rightarrow> t \<le> ae_peak_norm e)"

text \<open>\<open>accept\<close>: the new state and whether onset is declared on this frame.\<close>

definition gate_accept :: "gate \<Rightarrow> audio_energy \<Rightarrow> double \<Rightarrow> gate \<times> bool" where
  "gate_accept g e now_ms =
    (if \<not> is_loud (g_cfg g) e then
       (let g = g\<lparr>g_loud_frames := 0\<rparr>
        in if g_speaking g then
             (let g = g\<lparr>g_quiet_frames := g_quiet_frames g + 1\<rparr>
              in if g_quiet_frames g \<ge> gc_silence_frames (g_cfg g)
                 then (g\<lparr>g_speaking := False\<rparr>, False) else (g, False))
           else (g, False))
     else
       (let g = g\<lparr>g_quiet_frames := 0, g_loud_frames := g_loud_frames g + 1\<rparr>
        in if g_speaking g \<or> g_loud_frames g < gc_speech_frames (g_cfg g) then (g, False)
           else if gc_cooldown_ms (g_cfg g) > 0 \<and> g_has_triggered g
             \<and> fsub now_ms (g_last_trigger_ms g) < gc_cooldown_ms (g_cfg g) then (g, False)
           else
             (let g = g\<lparr>g_last_trigger_ms := now_ms, g_has_triggered := True,
                        g_speaking := (gc_silence_frames (g_cfg g) > 0)\<rparr>;
                  g = (if \<not> g_speaking g then g\<lparr>g_loud_frames := 0\<rparr> else g)
              in (g, True))))"

definition gate_reset :: "gate \<Rightarrow> gate" where
  "gate_reset g = g\<lparr>g_loud_frames := 0, g_quiet_frames := 0, g_speaking := False,
     g_has_triggered := False, g_last_trigger_ms := 0\<rparr>"

text \<open>A run of the gate over frames, with the decision for each.\<close>

fun gate_run :: "gate \<Rightarrow> (audio_energy \<times> double) list \<Rightarrow> gate \<times> bool list" where
  "gate_run g [] = (g, [])"
| "gate_run g ((e, t) # xs) =
    (case gate_accept g e t of (g', d) \<Rightarrow> case gate_run g' xs of (g'', ds) \<Rightarrow> (g'', d # ds))"

declare gate_run.simps(2) [simp del]

lemma gate_run_Cons [simp]:
  "gate_run g (x # xs) =
    (fst (gate_run (fst (gate_accept g (fst x) (snd x))) xs),
     snd (gate_accept g (fst x) (snd x)) # snd (gate_run (fst (gate_accept g (fst x) (snd x))) xs))"
  by (cases x) (simp add: gate_run.simps(2) split: prod.split)

section \<open>Invariant\<close>

definition gate_inv :: "gate \<Rightarrow> bool" where
  "gate_inv g \<longleftrightarrow> 1 \<le> gc_speech_frames (g_cfg g)
    \<and> (g_speaking g \<longrightarrow> g_quiet_frames g < gc_silence_frames (g_cfg g))"

lemma gate_inv_new [inv_intros]: "gate_inv (gate_new c)"
  by (auto simp: gate_inv_def gate_new_def word_less_nat_alt word_le_nat_alt)

lemma gate_accept_cfg [simp]: "g_cfg (fst (gate_accept g e t)) = g_cfg g"
  by (simp add: gate_accept_def Let_def)

lemma gate_inv_accept [inv_intros]: "gate_inv g \<Longrightarrow> gate_inv (fst (gate_accept g e t))"
  by (auto simp: gate_inv_def gate_accept_def Let_def word_less_nat_alt word_le_nat_alt)

lemma gate_inv_reset [inv_intros]: "gate_inv g \<Longrightarrow> gate_inv (gate_reset g)"
  by (auto simp: gate_inv_def gate_reset_def)

lemma gate_reset_new: "gate_reset (gate_new c) = gate_new c"
  by (simp add: gate_reset_def gate_new_def)

text \<open>Onset is declared only on a loud frame, only when the gate is not speaking.\<close>

lemma gate_accept_onset:
  assumes "snd (gate_accept g e t)"
  shows "is_loud (g_cfg g) e" "\<not> g_speaking g"
    "g_speaking (fst (gate_accept g e t)) \<longleftrightarrow> 0 < gc_silence_frames (g_cfg g)"
  using assms by (auto simp: gate_accept_def Let_def split: if_splits)

lemma gate_accept_no_onset_speaking:
  "\<not> snd (gate_accept g e t) \<Longrightarrow> g_speaking (fst (gate_accept g e t)) \<Longrightarrow> g_speaking g"
  by (auto simp: gate_accept_def Let_def split: if_splits)

lemma gate_accept_loud_speaking:
  "g_speaking g \<Longrightarrow> is_loud (g_cfg g) e \<Longrightarrow>
    gate_accept g e t = (g\<lparr>g_quiet_frames := 0, g_loud_frames := g_loud_frames g + 1\<rparr>, False)"
  by (simp add: gate_accept_def Let_def)

lemma gate_accept_quiet_speaking:
  "g_speaking g \<Longrightarrow> \<not> is_loud (g_cfg g) e \<Longrightarrow>
    gate_accept g e t = (g\<lparr>g_loud_frames := 0, g_quiet_frames := g_quiet_frames g + 1,
      g_speaking := g_quiet_frames g + 1 < gc_silence_frames (g_cfg g)\<rparr>, False)"
  by (simp add: gate_accept_def Let_def not_less)

lemma gate_accept_quiet_idle:
  "\<not> g_speaking g \<Longrightarrow> \<not> is_loud (g_cfg g) e \<Longrightarrow>
    gate_accept g e t = (g\<lparr>g_loud_frames := 0\<rparr>, False)"
  by (simp add: gate_accept_def Let_def)

section \<open>The window specification\<close>

text \<open>
  What the gate means, as a function of the history alone (newest frame first): while silent it
  starts speaking when the last \<open>speech\<close> frames were all loud, and while speaking it stops when
  the last \<open>silence\<close> frames were all quiet.
\<close>

definition window :: "nat \<Rightarrow> (bool \<Rightarrow> bool) \<Rightarrow> bool list \<Rightarrow> bool" where
  "window k P h \<longleftrightarrow> k \<le> length h \<and> list_all P (take k h)"

fun spec_speaking :: "nat \<Rightarrow> nat \<Rightarrow> bool list \<Rightarrow> bool" where
  "spec_speaking speech silence [] = False"
| "spec_speaking speech silence (b # h) =
    (if spec_speaking speech silence h then \<not> window silence Not (b # h)
     else window speech (\<lambda>x. x) (b # h))"

text \<open>The decisions the specification prescribes for the frames that follow history \<open>h\<close>.\<close>

fun spec_onsets :: "nat \<Rightarrow> nat \<Rightarrow> bool list \<Rightarrow> bool list \<Rightarrow> bool list" where
  "spec_onsets speech silence h [] = []"
| "spec_onsets speech silence h (b # bs) =
    (\<not> spec_speaking speech silence h \<and> spec_speaking speech silence (b # h))
      # spec_onsets speech silence (b # h) bs"

lemma window_takeWhile: "window k P h \<longleftrightarrow> k \<le> length (takeWhile P h)"
proof (induction h arbitrary: k)
  case Nil
  then show ?case by (auto simp: window_def)
next
  case (Cons b h)
  then show ?case by (cases k) (auto simp: window_def)
qed

text \<open>The counters in terms of the history.\<close>

definition gate_rel :: "nat \<Rightarrow> nat \<Rightarrow> bool list \<Rightarrow> gate \<Rightarrow> bool" where
  "gate_rel speech silence h g \<longleftrightarrow>
    unat (gc_speech_frames (g_cfg g)) = speech \<and> 1 \<le> speech
    \<and> unat (gc_silence_frames (g_cfg g)) = silence \<and> 0 < silence \<and> gc_cooldown_ms (g_cfg g) \<le> 0
    \<and> g_speaking g = spec_speaking speech silence h
    \<and> unat (g_loud_frames g) = length (takeWhile (\<lambda>x. x) h)
    \<and> (g_speaking g \<longrightarrow> unat (g_quiet_frames g) = length (takeWhile Not h)
          \<and> unat (g_quiet_frames g) < silence)"

lemma gate_rel_step:
  assumes rel: "gate_rel speech silence h g" and len: "length h + 1 < 2 ^ 32"
    and loud: "b = is_loud (g_cfg g) e"
  shows "gate_rel speech silence (b # h) (fst (gate_accept g e t))"
    and "snd (gate_accept g e t) \<longleftrightarrow>
      \<not> spec_speaking speech silence h \<and> spec_speaking speech silence (b # h)"
proof -
  have r: "unat (gc_speech_frames (g_cfg g)) = speech" "1 \<le> speech"
      "unat (gc_silence_frames (g_cfg g)) = silence" "0 < silence" "\<not> 0 < gc_cooldown_ms (g_cfg g)"
      "g_speaking g = spec_speaking speech silence h"
      "unat (g_loud_frames g) = length (takeWhile (\<lambda>x. x) h)"
      "g_speaking g \<Longrightarrow> unat (g_quiet_frames g) = length (takeWhile Not h)"
      "g_speaking g \<Longrightarrow> unat (g_quiet_frames g) < silence"
    using rel by (auto simp: gate_rel_def)
  have lw: "length (takeWhile P h) \<le> length h" for P by (rule length_takeWhile_le)
  have lf: "unat (g_loud_frames g + 1) = Suc (length (takeWhile (\<lambda>x. x) h))"
    using unat_plus_one_if [of "g_loud_frames g"] r(7) lw [of "\<lambda>x. x"] len by simp
  have qf: "unat (g_quiet_frames g + 1) = Suc (length (takeWhile Not h))" if "g_speaking g"
    using unat_plus_one_if [of "g_quiet_frames g"] r(8) that lw [of Not] len by simp
  have pos: "0 < gc_silence_frames (g_cfg g)" using r(3,4) by (simp add: word_less_nat_alt)
  have sp: "spec_speaking speech silence (b # h) =
      (if g_speaking g then \<not> silence \<le> length (takeWhile Not (b # h))
       else speech \<le> length (takeWhile (\<lambda>x. x) (b # h)))"
    using r(6) by (simp add: window_takeWhile)
  show "gate_rel speech silence (b # h) (fst (gate_accept g e t))"
    using r lf qf pos len loud unfolding gate_rel_def sp
    by (auto simp: gate_accept_def Let_def word_le_nat_alt word_less_nat_alt)
  show "snd (gate_accept g e t) \<longleftrightarrow>
      \<not> spec_speaking speech silence h \<and> spec_speaking speech silence (b # h)"
    using r lf qf pos len loud unfolding sp r(6) [symmetric]
    by (auto simp: gate_accept_def Let_def word_le_nat_alt word_less_nat_alt)
qed

lemma is_loud_new [simp]: "is_loud (g_cfg (gate_new c)) e = is_loud c e"
  by (simp add: gate_new_def is_loud_def)

lemma gate_run_cfg [simp]: "g_cfg (fst (gate_run g es)) = g_cfg g"
  by (induction es arbitrary: g) simp_all

lemma gate_run_rel:
  assumes "gate_rel speech silence h g" "length h + length es < 2 ^ 32"
  shows "gate_rel speech silence (rev (map (is_loud (g_cfg g) \<circ> fst) es) @ h) (fst (gate_run g es))
    \<and> snd (gate_run g es) = spec_onsets speech silence h (map (is_loud (g_cfg g) \<circ> fst) es)"
  using assms
proof (induction es arbitrary: g h)
  case Nil
  then show ?case by simp
next
  case (Cons x es)
  obtain e t where x: "x = (e, t)" by force
  obtain g' d where acc: "gate_accept g e t = (g', d)" by force
  have c: "g_cfg g' = g_cfg g" using gate_accept_cfg [of g e t] acc by simp
  have "length h + 1 < 2 ^ 32" using Cons.prems(2) by simp
  note st = gate_rel_step [OF Cons.prems(1) this refl, of e t, unfolded acc fst_conv snd_conv]
  have "length (is_loud (g_cfg g) e # h) + length es < 2 ^ 32" using Cons.prems(2) by simp
  note ih = Cons.IH [OF st(1) this, unfolded c]
  show ?case using ih st(2) by (simp add: x acc)
qed

lemma gate_rel_new:
  assumes "0 < gc_silence_frames c" "gc_cooldown_ms c \<le> 0"
  shows "gate_rel (max 1 (unat (gc_speech_frames c))) (unat (gc_silence_frames c)) [] (gate_new c)"
  using assms by (auto simp: gate_rel_def gate_new_def word_less_nat_alt max_def)

text \<open>The times of the frames on which onset was declared.\<close>

definition onset_times :: "gate \<Rightarrow> (audio_energy \<times> double) list \<Rightarrow> double list" where
  "onset_times g es = map snd (filter fst (zip (snd (gate_run g es)) (map snd es)))"

lemma gate_accept_cooldown:
  "snd (gate_accept g e t) \<Longrightarrow> g_has_triggered (fst (gate_accept g e t))
    \<and> g_last_trigger_ms (fst (gate_accept g e t)) = t
    \<and> (0 < gc_cooldown_ms (g_cfg g) \<and> g_has_triggered g
         \<longrightarrow> gc_cooldown_ms (g_cfg g) \<le> fsub t (g_last_trigger_ms g))"
  "\<not> snd (gate_accept g e t) \<Longrightarrow> g_has_triggered (fst (gate_accept g e t)) = g_has_triggered g
    \<and> g_last_trigger_ms (fst (gate_accept g e t)) = g_last_trigger_ms g"
  by (auto simp: gate_accept_def Let_def split: if_splits)

lemma onset_times_Nil [simp]: "onset_times g [] = []"
  by (simp add: onset_times_def)

lemma onset_times_Cons:
  "onset_times g ((e, t) # es) =
    (if snd (gate_accept g e t) then t # onset_times (fst (gate_accept g e t)) es
     else onset_times (fst (gate_accept g e t)) es)"
  by (simp add: onset_times_def)

lemma onset_times_cooldown:
  assumes "0 < gc_cooldown_ms (g_cfg g)"
  shows "successively (\<lambda>a b. gc_cooldown_ms (g_cfg g) \<le> fsub b a) (onset_times g es)
    \<and> (g_has_triggered g \<longrightarrow>
        successively (\<lambda>a b. gc_cooldown_ms (g_cfg g) \<le> fsub b a) (g_last_trigger_ms g # onset_times g es))"
  using assms
proof (induction es arbitrary: g)
  case (Cons x es)
  obtain e t where x: "x = (e, t)" by force
  define g' where "g' = fst (gate_accept g e t)"
  have ih: "successively (\<lambda>a b. gc_cooldown_ms (g_cfg g) \<le> fsub b a) (onset_times g' es)
    \<and> (g_has_triggered g' \<longrightarrow>
        successively (\<lambda>a b. gc_cooldown_ms (g_cfg g) \<le> fsub b a) (g_last_trigger_ms g' # onset_times g' es))"
    using Cons.IH [of g'] Cons.prems by (simp add: g'_def)
  show ?case
    using ih gate_accept_cooldown [of g e t] Cons.prems
    by (auto simp: x onset_times_Cons g'_def [symmetric])
qed simp

lemma gate_run_append:
  "gate_run g (xs @ ys) =
    (fst (gate_run (fst (gate_run g xs)) ys), snd (gate_run g xs) @ snd (gate_run (fst (gate_run g xs)) ys))"
  by (induction xs arbitrary: g) simp_all

lemma gate_run_quiet:
  assumes "g_speaking g" "\<And>x. x \<in> set es \<Longrightarrow> \<not> is_loud (g_cfg g) (fst x)"
    "unat (g_quiet_frames g) + length es < unat (gc_silence_frames (g_cfg g))"
  shows "g_speaking (fst (gate_run g es))
    \<and> unat (g_quiet_frames (fst (gate_run g es))) = unat (g_quiet_frames g) + length es"
  using assms
proof (induction es arbitrary: g)
  case (Cons x es)
  obtain e t where x: "x = (e, t)" by force
  have "unat (g_quiet_frames g) + 1 < 2 ^ 32"
    using Cons.prems(3) unat_u32_less [of "gc_silence_frames (g_cfg g)"] by simp
  then have q: "unat (g_quiet_frames g + 1) = Suc (unat (g_quiet_frames g))"
    using unat_plus_one_if [of "g_quiet_frames g"] by simp
  have a: "gate_accept g e t = (g\<lparr>g_loud_frames := 0, g_quiet_frames := g_quiet_frames g + 1,
      g_speaking := True\<rparr>, False)"
    using gate_accept_quiet_speaking [of g e t] Cons.prems(1,3) Cons.prems(2) [of x] q
    by (simp add: x word_less_nat_alt)
  show ?case
    using Cons.IH [of "g\<lparr>g_loud_frames := 0, g_quiet_frames := g_quiet_frames g + 1, g_speaking := True\<rparr>"]
      Cons.prems q by (simp add: x a)
qed simp

section \<open>Properties\<close>

text \<open>C24: With the cooldown disabled and a positive silence hold, the counters of the gate
  implement the window specification: for every stream of fewer than \<open>2 ^ 32\<close> frames, the onset
  decisions and the final speaking state are those the history of loud and quiet frames
  prescribes.\<close>

theorem gate_window_equivalence:
  assumes "0 < gc_silence_frames c" and "gc_cooldown_ms c \<le> 0" and "length es < 2 ^ 32"
  shows "snd (gate_run (gate_new c) es)
      = spec_onsets (max 1 (unat (gc_speech_frames c))) (unat (gc_silence_frames c)) []
          (map (is_loud c \<circ> fst) es)
    \<and> g_speaking (fst (gate_run (gate_new c) es))
      = spec_speaking (max 1 (unat (gc_speech_frames c))) (unat (gc_silence_frames c))
          (rev (map (is_loud c \<circ> fst) es))"
proof -
  have m: "is_loud (g_cfg (gate_new c)) = is_loud c" by (rule ext) simp
  show ?thesis
    using gate_run_rel [OF gate_rel_new [OF assms(1,2)], of es] assms(3)
    by (simp add: gate_rel_def m)
qed

lemma gate_window_equivalence_witness:
  "let c = default_gate_config\<lparr>gc_silence_frames := 2\<rparr>;
       es = map (\<lambda>e. (e, 0)) [energy_of_sums 2 200000000 10000, energy_of_sums 2 200000000 10000,
              energy_of_sums 2 1 1, energy_of_sums 2 1 1]
   in snd (gate_run (gate_new c) es) = [False, True, False, False]
      \<and> \<not> g_speaking (fst (gate_run (gate_new c) es))"
proof -
  define c where "c = default_gate_config\<lparr>gc_silence_frames := 2\<rparr>"
  have l: "is_loud c (energy_of_sums 2 200000000 10000)" "\<not> is_loud c (energy_of_sums 2 1 1)"
    unfolding c_def by code_simp+
  have k: "unat (gc_speech_frames c) = 2" "unat (gc_silence_frames c) = 2" "gc_cooldown_ms c = 0"
      "0 < gc_silence_frames c"
    by (simp_all add: c_def default_gate_config_def)
  define es where "es = map (\<lambda>e. (e, 0 :: double)) [energy_of_sums 2 200000000 10000,
    energy_of_sums 2 200000000 10000, energy_of_sums 2 1 1, energy_of_sums 2 1 1]"
  have m: "map (is_loud c \<circ> fst) es = [True, True, False, False]" by (simp add: es_def l)
  have n: "length es < 2 ^ 32" by (simp add: es_def)
  show ?thesis
    using gate_window_equivalence [OF k(4) _ n] unfolding Let_def c_def [symmetric] es_def [symmetric] m k
    by (simp add: window_def numeral_2_eq_2)
qed

text \<open>With a cooldown, any two successive onsets of a run are at least the cooldown apart, in
  the arithmetic of the code.\<close>

theorem gate_cooldown_respected:
  assumes "0 < gc_cooldown_ms c"
  shows "successively (\<lambda>a b. gc_cooldown_ms c \<le> fsub b a) (onset_times (gate_new c) es)"
proof -
  have "gc_cooldown_ms (g_cfg (gate_new c)) = gc_cooldown_ms c" by (simp add: gate_new_def)
  then show ?thesis using onset_times_cooldown [of "gate_new c" es] assms by simp
qed

lemma gate_cooldown_respected_witness:
  "let c = default_gate_config\<lparr>gc_speech_frames := 1, gc_silence_frames := 1, gc_cooldown_ms := 50\<rparr>;
       es = zip (concat (replicate 3 [energy_of_sums 2 200000000 10000, energy_of_sums 2 1 1]))
              [0, 20, 40, 60, 80, 100]
   in onset_times (gate_new c) es = [0, 80]
      \<and> successively (\<lambda>a b. gc_cooldown_ms c \<le> fsub b a) (onset_times (gate_new c) es)"
proof -
  define c where "c = default_gate_config\<lparr>gc_speech_frames := 1, gc_silence_frames := 1, gc_cooldown_ms := 50\<rparr>"
  define es where "es = zip (concat (replicate 3 [energy_of_sums 2 200000000 10000, energy_of_sums 2 1 1]))
    [0, 20, 40, 60, 80, 100 :: double]"
  have "onset_times (gate_new c) es = [0, 80]" unfolding c_def es_def by code_simp
  moreover have "0 < gc_cooldown_ms c" by (simp add: c_def)
  ultimately show ?thesis
    using gate_cooldown_respected [of c es] unfolding Let_def c_def [symmetric] es_def [symmetric] by simp
qed

end
