(* ===== verification/Chunker.thy ===== *)
theory Chunker
  imports Vad_Gate "HOL-Library.Monad_Syntax"
begin

text \<open>
  Chunk assembly, \<open>ChunkAssembler\<close> of \<open>include/vhp/vad.hpp\<close>: the state machine that turns gate
  transitions into closed chunks. A step that would read a frame's bytes outside its payload
  array is \<^const>\<open>None\<close>; \<open>frame_ok\<close> frames never do. The second half states the machine the
  assembler implements, over lists of frames, and proves the refinement.
\<close>

section \<open>State\<close>

record chunker_config =
  cc_gate :: gate_config
  cc_pre_roll_frames :: u32
  cc_max_chunk_ms :: double
  cc_max_chunk_bytes :: nat

definition default_chunker_config :: chunker_config where
  "default_chunker_config = \<lparr>cc_gate = default_gate_config, cc_pre_roll_frames = 5,
     cc_max_chunk_ms = 15000, cc_max_chunk_bytes = 2 ^ 20\<rparr>"

text \<open>The private class \<open>PreRoll\<close>: a ring of \<open>cap_\<close> frames that overwrites the oldest.\<close>

record pre_roll =
  pr_cap :: nat
  pr_frames :: "audio_frame list"
  pr_head :: u64

record assembler =
  as_cfg :: chunker_config
  as_gate :: gate
  as_pre_roll :: pre_roll
  as_buffer :: "u8 list"
  as_last_seq_seen :: "u64 option"
  as_next_chunk_id :: u64
  as_first_seq :: u64
  as_last_seq :: u64
  as_t_speech_start_ns :: u64
  as_t_first_frame_ns :: u64
  as_frame_count :: u32
  as_gap_frames :: u32
  as_format :: u16
  as_active :: bool
  as_have_first :: bool

section \<open>Pre-roll operations\<close>

definition pr_new :: "u32 \<Rightarrow> pre_roll" where
  "pr_new capacity = \<lparr>pr_cap = unat capacity, pr_frames = replicate (unat capacity) zero_frame, pr_head = 0\<rparr>"

definition pr_push :: "pre_roll \<Rightarrow> audio_frame \<Rightarrow> pre_roll" where
  "pr_push p f =
    (if pr_cap p = 0 then p
     else p\<lparr>pr_frames := (pr_frames p)[unat (pr_head p) mod pr_cap p := f], pr_head := pr_head p + 1\<rparr>)"

definition pr_size :: "pre_roll \<Rightarrow> nat" where
  "pr_size p = (if unat (pr_head p) < pr_cap p then unat (pr_head p) else pr_cap p)"

definition pr_at :: "pre_roll \<Rightarrow> nat \<Rightarrow> audio_frame" where
  "pr_at p i =
    (let start = (if unat (pr_head p) < pr_cap p then 0 else unat (pr_head p) - pr_cap p)
     in pr_frames p ! ((start + i) mod pr_cap p))"

definition pr_clear :: "pre_roll \<Rightarrow> pre_roll" where
  "pr_clear p = p\<lparr>pr_head := 0\<rparr>"

section \<open>Assembler operations\<close>

definition asm_new :: "chunker_config \<Rightarrow> assembler" where
  "asm_new config =
    \<lparr>as_cfg = config, as_gate = gate_new (cc_gate config), as_pre_roll = pr_new (cc_pre_roll_frames config),
     as_buffer = [], as_last_seq_seen = None, as_next_chunk_id = 0, as_first_seq = 0, as_last_seq = 0,
     as_t_speech_start_ns = 0, as_t_first_frame_ns = 0, as_frame_count = 0, as_gap_frames = 0,
     as_format = 0, as_active = False, as_have_first = False\<rparr>"

definition open_chunk :: "assembler \<Rightarrow> u64 \<Rightarrow> assembler" where
  "open_chunk a now_ns =
    a\<lparr>as_active := True, as_buffer := [], as_frame_count := 0, as_gap_frames := 0, as_first_seq := 0,
      as_last_seq := 0, as_have_first := False, as_t_speech_start_ns := now_ns,
      as_t_first_frame_ns := now_ns\<rparr>"

definition append_frame :: "assembler \<Rightarrow> audio_frame \<Rightarrow> assembler option" where
  "append_frame a f = do {
     let len = f_len f;
     a \<leftarrow> (if length (as_buffer a) + len \<le> cc_max_chunk_bytes (as_cfg a)
           then map_option (\<lambda>bs. a\<lparr>as_buffer := as_buffer a @ bs\<rparr>) (frame_bytes f)
           else Some a);
     let a = (if \<not> as_have_first a
              then a\<lparr>as_first_seq := f_seq f, as_t_first_frame_ns := fh_t_produce_ns (hdr f),
                     as_format := fh_format (hdr f), as_have_first := True\<rparr>
              else a);
     Some (a\<lparr>as_last_seq := f_seq f, as_frame_count := as_frame_count a + 1\<rparr>)
   }"

fun append_frames :: "assembler \<Rightarrow> audio_frame list \<Rightarrow> assembler option" where
  "append_frames a [] = Some a"
| "append_frames a (f # fs) = do { a \<leftarrow> append_frame a f; append_frames a fs }"

definition flush_pre_roll :: "assembler \<Rightarrow> assembler option" where
  "flush_pre_roll a = do {
     a \<leftarrow> append_frames a (map (pr_at (as_pre_roll a)) [0..<pr_size (as_pre_roll a)]);
     Some (a\<lparr>as_pre_roll := pr_clear (as_pre_roll a)\<rparr>)
   }"

definition elapsed_ms :: "assembler \<Rightarrow> u64 \<Rightarrow> double" where
  "elapsed_ms a now_ns = fdiv (f_of_u64 (now_ns - as_t_speech_start_ns a)) 1000000"

definition close_chunk :: "assembler \<Rightarrow> close_reason \<Rightarrow> u64 \<Rightarrow> assembler \<times> chunk_event" where
  "close_chunk a reason now_ns =
    (a\<lparr>as_next_chunk_id := as_next_chunk_id a + 1, as_active := False\<rparr>,
     \<lparr>ce_session_id = 0, ce_pad = 0, ce_chunk_id = as_next_chunk_id a,
      ce_first_seq = as_first_seq a, ce_last_seq = as_last_seq a,
      ce_t_first_frame_ns = as_t_first_frame_ns a, ce_t_speech_start_ns = as_t_speech_start_ns a,
      ce_t_endpoint_ns = now_ns, ce_frame_count = as_frame_count a,
      ce_byte_count = of_nat (length (as_buffer a)), ce_dropped_frames = as_gap_frames a,
      ce_reason = reason_code reason, ce_format = as_format a\<rparr>)"

text \<open>The loss accounting at the head of \<open>on_frame\<close>.\<close>

definition note_seq :: "assembler \<Rightarrow> audio_frame \<Rightarrow> assembler" where
  "note_seq a f =
    (let a = (case as_last_seq_seen a of
                None \<Rightarrow> a
              | Some l \<Rightarrow>
                  if f_seq f > l + 1
                  then a\<lparr>as_gap_frames := as_gap_frames a + ucast (f_seq f - l - 1)\<rparr> else a)
     in a\<lparr>as_last_seq_seen := Some (f_seq f)\<rparr>)"

definition now_ms_of :: "u64 \<Rightarrow> double" where
  "now_ms_of now_ns = fdiv (f_of_u64 now_ns) 1000000"

definition on_frame :: "assembler \<Rightarrow> audio_frame \<Rightarrow> u64 \<Rightarrow> (assembler \<times> chunk_event option) option" where
  "on_frame a f now_ns = do {
     energy \<leftarrow> frame_energy f;
     let a = note_seq a f;
     let (g, onset) = gate_accept (as_gate a) energy (now_ms_of now_ns);
     let a = a\<lparr>as_gate := g\<rparr>;
     a \<leftarrow> (if onset \<and> \<not> as_active a then flush_pre_roll (open_chunk a now_ns) else Some a);
     a \<leftarrow> (if as_active a then append_frame a f
           else Some (a\<lparr>as_pre_roll := pr_push (as_pre_roll a) f\<rparr>));
     Some (if \<not> as_active a then (a, None)
           else if \<not> g_speaking (as_gate a) then
             (case close_chunk a KHangover now_ns of (a, ev) \<Rightarrow> (a, Some ev))
           else if elapsed_ms a now_ns \<ge> cc_max_chunk_ms (as_cfg a) then
             (case close_chunk a KMaxLength now_ns of (a, ev) \<Rightarrow> (open_chunk a now_ns, Some ev))
           else (a, None))
   }"

definition flush :: "assembler \<Rightarrow> u64 \<Rightarrow> assembler \<times> chunk_event option" where
  "flush a now_ns =
    (if \<not> as_active a then (a, None)
     else case close_chunk a KStreamEnd now_ns of (a, ev) \<Rightarrow> (a, Some ev))"

text \<open>A run over frames with their dequeue times, with the result of each call.\<close>

fun asm_run :: "assembler \<Rightarrow> (audio_frame \<times> u64) list \<Rightarrow> (assembler \<times> chunk_event option list) option" where
  "asm_run a [] = Some (a, [])"
| "asm_run a ((f, t) # xs) = do {
     (a, ev) \<leftarrow> on_frame a f t;
     (a, evs) \<leftarrow> asm_run a xs;
     Some (a, ev # evs)
   }"

section \<open>The pre-roll as a bounded list\<close>

definition pr_list :: "pre_roll \<Rightarrow> audio_frame list" where
  "pr_list p = map (pr_at p) [0..<pr_size p]"

definition pr_wf :: "pre_roll \<Rightarrow> bool" where
  "pr_wf p \<longleftrightarrow> length (pr_frames p) = pr_cap p"

lemma pr_wf_new [inv_intros]: "pr_wf (pr_new c)"
  by (simp add: pr_wf_def pr_new_def)

lemma pr_wf_push [inv_intros]: "pr_wf p \<Longrightarrow> pr_wf (pr_push p f)"
  by (simp add: pr_wf_def pr_push_def)

lemma pr_wf_clear [inv_intros]: "pr_wf p \<Longrightarrow> pr_wf (pr_clear p)"
  by (simp add: pr_wf_def pr_clear_def)

lemma pr_list_new [simp]: "pr_list (pr_new c) = []"
  by (simp add: pr_list_def pr_new_def pr_size_def)

lemma pr_list_clear [simp]: "pr_list (pr_clear p) = []"
  by (simp add: pr_list_def pr_clear_def pr_size_def)

lemma pr_cap_push [simp]: "pr_cap (pr_push p f) = pr_cap p"
  by (simp add: pr_push_def)

lemma pr_cap_clear [simp]: "pr_cap (pr_clear p) = pr_cap p"
  by (simp add: pr_clear_def)

lemma length_pr_list: "length (pr_list p) \<le> pr_cap p"
  by (simp add: pr_list_def pr_size_def)

lemma pr_head_push:
  "unat (pr_head p) + 1 < 2 ^ 64 \<Longrightarrow> unat (pr_head (pr_push p f)) \<le> unat (pr_head p) + 1"
  using unat_plus_one_if [of "pr_head p"] by (simp add: pr_push_def)

lemma mod_shift_neq:
  assumes "0 < c" "0 < d" "d < c"
  shows "(h + d) mod c \<noteq> h mod (c :: nat)"
proof
  assume "(h + d) mod c = h mod c"
  then have "c dvd (h + d) - h" by (metis le_add1 mod_eq_dvd_iff_nat)
  then show False using assms by (auto dest: dvd_imp_le)
qed

lemma pr_push_fields:
  assumes "pr_cap p \<noteq> 0" "unat (pr_head p) + 1 < 2 ^ 64"
  shows "pr_frames (pr_push p f) = (pr_frames p)[unat (pr_head p) mod pr_cap p := f]"
    "unat (pr_head (pr_push p f)) = Suc (unat (pr_head p))"
  using assms unat_plus_one_if [of "pr_head p"] by (simp_all add: pr_push_def)

lemma pr_list_filling:
  assumes "pr_wf p" "unat (pr_head p) \<le> pr_cap p"
  shows "pr_list p = take (unat (pr_head p)) (pr_frames p)"
  using assms by (auto simp: pr_list_def pr_size_def pr_at_def pr_wf_def Let_def intro!: nth_equalityI)

lemma pr_list_full:
  assumes "pr_cap p \<le> unat (pr_head p)"
  shows "pr_list p = map (\<lambda>i. pr_frames p ! ((unat (pr_head p) - pr_cap p + i) mod pr_cap p)) [0..<pr_cap p]"
  using assms by (auto simp: pr_list_def pr_size_def pr_at_def Let_def)

text \<open>The slots of a full pre-roll after the oldest one stay where they are.\<close>

lemma pr_push_keeps:
  assumes "c \<le> h" "Suc i < (c :: nat)"
  shows "(h - c + Suc i) mod c \<noteq> h mod c"
  using mod_shift_neq [of c "c - Suc i" "h - c + Suc i"] assms by fastforce

lemma pr_list_push_full:
  assumes wf: "pr_wf p" and head: "unat (pr_head p) + 1 < 2 ^ 64" and c: "0 < pr_cap p" "pr_cap p \<le> unat (pr_head p)"
  shows "pr_list (pr_push p f) = tl (pr_list p) @ [f]"
proof (rule nth_equalityI)
  define c h where "c = pr_cap p" "h = unat (pr_head p)"
  have old: "pr_list p = map (\<lambda>i. pr_frames p ! ((h - c + i) mod c)) [0..<c]"
    using pr_list_full [OF c(2)] by (simp only: c_h_def)
  have "pr_cap p \<noteq> 0" using c(1) by simp
  note q = pr_push_fields [OF this head, of f, folded c_h_def]
  have new: "pr_list (pr_push p f) = map (\<lambda>i. (pr_frames p)[h mod c := f] ! ((Suc h - c + i) mod c)) [0..<c]"
    using pr_list_full [of "pr_push p f"] c(2) q by (simp add: c_h_def)
  have ch: "0 < c" "c \<le> h" "length (pr_frames p) = c" using c wf by (simp_all add: c_h_def pr_wf_def)
  show "length (pr_list (pr_push p f)) = length (tl (pr_list p) @ [f])" using ch by (simp add: old new)
  fix i
  assume "i < length (pr_list (pr_push p f))"
  then have i: "i < c" by (simp add: new)
  show "pr_list (pr_push p f) ! i = (tl (pr_list p) @ [f]) ! i"
  proof (cases "i = c - 1")
    case True
    then have "Suc h - c + i = h" using ch by simp
    then show ?thesis using True i ch by (simp add: new old nth_append)
  next
    case False
    then have "Suc i < c" "Suc h - c + i = h - c + Suc i" using i ch by simp_all
    then show ?thesis using pr_push_keeps [OF ch(2), of i] i ch by (simp add: new old nth_append nth_tl)
  qed
qed

lemma pr_list_push:
  assumes wf: "pr_wf p" and head: "unat (pr_head p) + 1 < 2 ^ 64"
  shows "pr_list (pr_push p f) = lastn (pr_cap p) (pr_list p @ [f])"
proof -
  consider "pr_cap p = 0" | "unat (pr_head p) < pr_cap p" | "0 < pr_cap p" "pr_cap p \<le> unat (pr_head p)" by linarith
  then show ?thesis
  proof cases
    case 1
    then show ?thesis by (simp add: pr_push_def pr_list_def pr_size_def)
  next
    case 2
    then have c: "pr_cap p \<noteq> 0" by simp
    have "pr_list (pr_push p f) = take (Suc (unat (pr_head p))) (pr_frames (pr_push p f))"
      using pr_list_filling [OF pr_wf_push [OF wf], of f] 2 pr_push_fields(2) [OF c head] by simp
    also have "\<dots> = take (unat (pr_head p)) (pr_frames p) @ [f]"
      using 2 wf pr_push_fields(1) [OF c head] by (simp add: take_Suc_conv_app_nth pr_wf_def)
    also have "\<dots> = pr_list p @ [f]" using pr_list_filling [OF wf] 2 by simp
    finally show ?thesis
      using 2 wf pr_list_filling [OF wf] by (simp add: lastn_all pr_wf_def)
  next
    case 3
    have l: "length (pr_list p) = pr_cap p" unfolding pr_list_full [OF 3(2)] by simp
    then have "lastn (pr_cap p) (pr_list p @ [f]) = tl (pr_list p) @ [f]"
      using 3(1) by (simp add: lastn_def drop_Suc)
    then show ?thesis using pr_list_push_full [OF wf head 3] by simp
  qed
qed

section \<open>The segmenter the assembler implements\<close>

text \<open>
  Over frames of any type: \<open>pre\<close> holds the last \<open>cap\<close> frames outside chunks, the open chunk, if
  there is one, the frames since it was opened. A frame that opens a chunk brings the pre-roll
  with it. The three booleans are what the gate and the clock decide: onset on this frame,
  still speaking after it, and the length cap reached.
\<close>

type_synonym 'f seg = "'f list \<times> 'f list option"

definition seg_grow :: "'f list \<Rightarrow> bool \<Rightarrow> bool \<Rightarrow> 'f seg \<times> ('f list \<times> close_reason) option" where
  "seg_grow fs speaking capped =
    (if \<not> speaking then (([], None), Some (fs, KHangover))
     else if capped then (([], Some []), Some (fs, KMaxLength))
     else (([], Some fs), None))"

fun seg_step :: "nat \<Rightarrow> 'f seg \<Rightarrow> bool \<Rightarrow> bool \<Rightarrow> bool \<Rightarrow> 'f \<Rightarrow> 'f seg \<times> ('f list \<times> close_reason) option" where
  "seg_step cap (pre, Some fs) onset speaking capped f = seg_grow (fs @ [f]) speaking capped"
| "seg_step cap (pre, None) onset speaking capped f =
    (if onset then seg_grow (pre @ [f]) speaking capped
     else ((lastn cap (pre @ [f]), None), None))"

text \<open>The assembled audio of a list of frames: a frame that no longer fits is left out.\<close>

definition put_audio :: "nat \<Rightarrow> u8 list \<Rightarrow> audio_frame \<Rightarrow> u8 list" where
  "put_audio mx b f = (if length b + f_len f \<le> mx then b @ take (f_len f) (payload f) else b)"

definition packed :: "nat \<Rightarrow> audio_frame list \<Rightarrow> u8 list" where
  "packed mx fs = foldl (put_audio mx) [] fs"

lemma packed_Nil [simp]: "packed mx [] = []"
  by (simp add: packed_def)

lemma packed_snoc: "packed mx (fs @ [f]) = put_audio mx (packed mx fs) f"
  by (simp add: packed_def)

lemma length_packed: "\<forall>f \<in> set fs. frame_ok f \<Longrightarrow> length (packed mx fs) \<le> mx"
  by (induction fs rule: rev_induct) (auto simp: packed_snoc put_audio_def)

lemma packed_fits:
  assumes "\<forall>f \<in> set fs. frame_ok f" "sum_list (map f_len fs) \<le> mx"
  shows "packed mx fs = concat (map (\<lambda>f. take (f_len f) (payload f)) fs)"
    "length (packed mx fs) = sum_list (map f_len fs)"
proof -
  have "packed mx fs = concat (map (\<lambda>f. take (f_len f) (payload f)) fs)
    \<and> length (packed mx fs) = sum_list (map f_len fs)"
    using assms
  proof (induction fs rule: rev_induct)
    case (snoc f fs)
    then show ?case by (auto simp: packed_snoc put_audio_def frame_ok_def)
  qed simp
  then show "packed mx fs = concat (map (\<lambda>f. take (f_len f) (payload f)) fs)"
    "length (packed mx fs) = sum_list (map f_len fs)" by auto
qed

text \<open>The fields of an assembler that describe the open chunk, as a function of its frames.\<close>

definition chunk_fields :: "assembler \<Rightarrow> audio_frame list \<Rightarrow> bool" where
  "chunk_fields a fs \<longleftrightarrow>
    as_buffer a = packed (cc_max_chunk_bytes (as_cfg a)) fs
    \<and> as_frame_count a = of_nat (length fs)
    \<and> as_have_first a = (fs \<noteq> [])
    \<and> as_first_seq a = (if fs = [] then 0 else f_seq (hd fs))
    \<and> as_last_seq a = (if fs = [] then 0 else f_seq (last fs))
    \<and> as_t_first_frame_ns a = (if fs = [] then as_t_speech_start_ns a else fh_t_produce_ns (hdr (hd fs)))
    \<and> (fs \<noteq> [] \<longrightarrow> as_format a = fh_format (hdr (hd fs)))"

text \<open>The relation between an assembler and a segmenter state; \<open>n\<close> bounds the frames pushed.\<close>

definition asm_rel :: "nat \<Rightarrow> assembler \<Rightarrow> audio_frame seg \<Rightarrow> bool" where
  "asm_rel n a s \<longleftrightarrow>
    gate_inv (as_gate a) \<and> pr_wf (as_pre_roll a) \<and> unat (pr_head (as_pre_roll a)) \<le> n
    \<and> length (as_buffer a) \<le> cc_max_chunk_bytes (as_cfg a)
    \<and> pr_list (as_pre_roll a) = fst s \<and> (\<forall>f \<in> set (fst s). frame_ok f)
    \<and> (case snd s of
         None \<Rightarrow> \<not> as_active a
       | Some fs \<Rightarrow> as_active a \<and> g_speaking (as_gate a) \<and> fst s = [] \<and> chunk_fields a fs
           \<and> (\<forall>f \<in> set fs. frame_ok f))"

section \<open>The refinement, operation by operation\<close>

lemma asm_rel_new: "asm_rel n (asm_new c) ([], None)"
  by (simp add: asm_rel_def asm_new_def inv_intros) (simp add: pr_new_def)

lemma note_seq_fields [simp]:
  "as_cfg (note_seq a f) = as_cfg a" "as_gate (note_seq a f) = as_gate a"
  "as_pre_roll (note_seq a f) = as_pre_roll a" "as_buffer (note_seq a f) = as_buffer a"
  "as_next_chunk_id (note_seq a f) = as_next_chunk_id a" "as_first_seq (note_seq a f) = as_first_seq a"
  "as_last_seq (note_seq a f) = as_last_seq a" "as_t_speech_start_ns (note_seq a f) = as_t_speech_start_ns a"
  "as_t_first_frame_ns (note_seq a f) = as_t_first_frame_ns a" "as_frame_count (note_seq a f) = as_frame_count a"
  "as_format (note_seq a f) = as_format a" "as_active (note_seq a f) = as_active a"
  "as_have_first (note_seq a f) = as_have_first a" "as_last_seq_seen (note_seq a f) = Some (f_seq f)"
  by (simp_all add: note_seq_def Let_def split: option.split)

text \<open>\<open>append_frame\<close> on a frame inside its payload is total.\<close>

definition appended :: "assembler \<Rightarrow> audio_frame \<Rightarrow> assembler" where
  "appended a f = a\<lparr>as_buffer := put_audio (cc_max_chunk_bytes (as_cfg a)) (as_buffer a) f,
     as_first_seq := (if as_have_first a then as_first_seq a else f_seq f),
     as_t_first_frame_ns := (if as_have_first a then as_t_first_frame_ns a else fh_t_produce_ns (hdr f)),
     as_format := (if as_have_first a then as_format a else fh_format (hdr f)),
     as_have_first := True, as_last_seq := f_seq f, as_frame_count := as_frame_count a + 1\<rparr>"

lemma append_frame_ok: "frame_ok f \<Longrightarrow> append_frame a f = Some (appended a f)"
  by (auto simp: append_frame_def appended_def put_audio_def frame_bytes_ok)

lemma append_frames_ok:
  "\<forall>f \<in> set fs. frame_ok f \<Longrightarrow> append_frames a fs = Some (foldl appended a fs)"
  by (induction fs arbitrary: a) (auto simp: append_frame_ok)

lemma appended_same [simp]:
  "as_cfg (appended a f) = as_cfg a" "as_gate (appended a f) = as_gate a"
  "as_pre_roll (appended a f) = as_pre_roll a" "as_next_chunk_id (appended a f) = as_next_chunk_id a"
  "as_t_speech_start_ns (appended a f) = as_t_speech_start_ns a" "as_active (appended a f) = as_active a"
  "as_gap_frames (appended a f) = as_gap_frames a"
  "as_last_seq_seen (appended a f) = as_last_seq_seen a"
  by (simp_all add: appended_def)

lemma foldl_appended_same [simp]:
  "as_cfg (foldl appended a fs) = as_cfg a" "as_gate (foldl appended a fs) = as_gate a"
  "as_pre_roll (foldl appended a fs) = as_pre_roll a"
  "as_next_chunk_id (foldl appended a fs) = as_next_chunk_id a"
  "as_t_speech_start_ns (foldl appended a fs) = as_t_speech_start_ns a"
  "as_active (foldl appended a fs) = as_active a"
  "as_gap_frames (foldl appended a fs) = as_gap_frames a"
  "as_last_seq_seen (foldl appended a fs) = as_last_seq_seen a"
  by (induction fs arbitrary: a) simp_all

lemma chunk_fields_open: "chunk_fields (open_chunk a t) []"
  by (simp add: chunk_fields_def open_chunk_def)

lemma chunk_fields_appended:
  "chunk_fields a fs \<Longrightarrow> chunk_fields (appended a f) (fs @ [f])"
  by (auto simp: chunk_fields_def appended_def packed_snoc)

lemma chunk_fields_foldl:
  "chunk_fields a fs \<Longrightarrow> chunk_fields (foldl appended a gs) (fs @ gs)"
proof (induction gs arbitrary: a fs)
  case (Cons g gs)
  then show ?case using chunk_fields_appended [of a fs g] by fastforce
qed simp

lemma chunk_fields_cong:
  assumes "chunk_fields a fs" "as_cfg b = as_cfg a" "as_buffer b = as_buffer a"
    "as_frame_count b = as_frame_count a" "as_have_first b = as_have_first a"
    "as_first_seq b = as_first_seq a" "as_last_seq b = as_last_seq a"
    "as_t_first_frame_ns b = as_t_first_frame_ns a" "as_t_speech_start_ns b = as_t_speech_start_ns a"
    "as_format b = as_format a"
  shows "chunk_fields b fs"
  using assms unfolding chunk_fields_def by simp

lemma flush_pre_roll_open:
  assumes "\<forall>f \<in> set (pr_list (as_pre_roll a)). frame_ok f"
  shows "flush_pre_roll (open_chunk a t) =
    Some ((foldl appended (open_chunk a t) (pr_list (as_pre_roll a)))
      \<lparr>as_pre_roll := pr_clear (as_pre_roll a)\<rparr>)"
proof -
  have p: "as_pre_roll (open_chunk a t) = as_pre_roll a" by (simp add: open_chunk_def)
  show ?thesis
    using append_frames_ok [OF assms, of "open_chunk a t"]
    by (simp add: flush_pre_roll_def p flip: pr_list_def)
qed

text \<open>The event a chunk is closed with.\<close>

definition event_of :: "u64 \<Rightarrow> nat \<Rightarrow> audio_frame list \<Rightarrow> u64 \<Rightarrow> u64 \<Rightarrow> u32 \<Rightarrow> close_reason \<Rightarrow> chunk_event" where
  "event_of cid mx fs start now_ns gaps reason =
    \<lparr>ce_session_id = 0, ce_pad = 0, ce_chunk_id = cid, ce_first_seq = f_seq (hd fs),
     ce_last_seq = f_seq (last fs), ce_t_first_frame_ns = fh_t_produce_ns (hdr (hd fs)),
     ce_t_speech_start_ns = start, ce_t_endpoint_ns = now_ns, ce_frame_count = of_nat (length fs),
     ce_byte_count = of_nat (length (packed mx fs)), ce_dropped_frames = gaps,
     ce_reason = reason_code reason, ce_format = fh_format (hdr (hd fs))\<rparr>"

lemma close_chunk_event:
  assumes "chunk_fields a fs" "fs \<noteq> []"
  shows "snd (close_chunk a r t) = event_of (as_next_chunk_id a) (cc_max_chunk_bytes (as_cfg a)) fs
    (as_t_speech_start_ns a) t (as_gap_frames a) r"
  using assms by (simp add: close_chunk_def chunk_fields_def event_of_def)

text \<open>The tail of \<open>on_frame\<close>, once the frame is in the open chunk.\<close>

definition finish_frame :: "assembler \<Rightarrow> u64 \<Rightarrow> assembler \<times> chunk_event option" where
  "finish_frame a now_ns =
    (if \<not> as_active a then (a, None)
     else if \<not> g_speaking (as_gate a) then
       (case close_chunk a KHangover now_ns of (a, ev) \<Rightarrow> (a, Some ev))
     else if elapsed_ms a now_ns \<ge> cc_max_chunk_ms (as_cfg a) then
       (case close_chunk a KMaxLength now_ns of (a, ev) \<Rightarrow> (open_chunk a now_ns, Some ev))
     else (a, None))"

definition capped :: "assembler \<Rightarrow> u64 \<Rightarrow> bool" where
  "capped a now_ns \<longleftrightarrow> elapsed_ms a now_ns \<ge> cc_max_chunk_ms (as_cfg a)"

text \<open>An assembler whose open chunk holds exactly the non-empty list \<open>fs\<close>.\<close>

definition holding :: "nat \<Rightarrow> assembler \<Rightarrow> audio_frame list \<Rightarrow> bool" where
  "holding n a fs \<longleftrightarrow> gate_inv (as_gate a) \<and> pr_wf (as_pre_roll a)
    \<and> unat (pr_head (as_pre_roll a)) \<le> n \<and> pr_list (as_pre_roll a) = []
    \<and> as_active a \<and> chunk_fields a fs \<and> fs \<noteq> [] \<and> (\<forall>f \<in> set fs. frame_ok f)"

lemma finish_frame_grow:
  assumes "holding n a fs"
  shows "asm_rel n (fst (finish_frame a t)) (fst (seg_grow fs (g_speaking (as_gate a)) (capped a t)))"
    and "snd (finish_frame a t) = map_option (\<lambda>(cs, r). event_of (as_next_chunk_id a)
      (cc_max_chunk_bytes (as_cfg a)) cs (as_t_speech_start_ns a) t (as_gap_frames a) r)
      (snd (seg_grow fs (g_speaking (as_gate a)) (capped a t)))"
proof -
  have h: "gate_inv (as_gate a)" "pr_wf (as_pre_roll a)" "unat (pr_head (as_pre_roll a)) \<le> n"
      "pr_list (as_pre_roll a) = []" "as_active a" "chunk_fields a fs" "fs \<noteq> []" "\<forall>f \<in> set fs. frame_ok f"
    using assms by (auto simp: holding_def)
  have len: "length (as_buffer a) \<le> cc_max_chunk_bytes (as_cfg a)"
    using h(6) length_packed [OF h(8)] by (simp add: chunk_fields_def)
  note ev = close_chunk_event [OF h(6,7)]
  show "asm_rel n (fst (finish_frame a t)) (fst (seg_grow fs (g_speaking (as_gate a)) (capped a t)))"
    using h len chunk_fields_open [of "fst (close_chunk a KMaxLength t)" t]
    by (auto simp: finish_frame_def seg_grow_def capped_def asm_rel_def close_chunk_def open_chunk_def)
  show "snd (finish_frame a t) = map_option (\<lambda>(cs, r). event_of (as_next_chunk_id a)
      (cc_max_chunk_bytes (as_cfg a)) cs (as_t_speech_start_ns a) t (as_gap_frames a) r)
      (snd (seg_grow fs (g_speaking (as_gate a)) (capped a t)))"
    using h(5) ev by (auto simp: finish_frame_def seg_grow_def capped_def case_prod_beta)
qed

text \<open>One call of \<open>on_frame\<close> on a frame inside its payload, by cases.\<close>

abbreviation energy_of :: "audio_frame \<Rightarrow> audio_energy" where
  "energy_of f \<equiv> the (frame_energy f)"

definition gated :: "assembler \<Rightarrow> audio_frame \<Rightarrow> u64 \<Rightarrow> gate \<times> bool" where
  "gated a f now_ns = gate_accept (as_gate a) (energy_of f) (now_ms_of now_ns)"

definition opened :: "assembler \<Rightarrow> u64 \<Rightarrow> assembler" where
  "opened a t = (foldl appended (open_chunk a t) (pr_list (as_pre_roll a)))
     \<lparr>as_pre_roll := pr_clear (as_pre_roll a)\<rparr>"

lemma frame_energy_some: "frame_ok f \<Longrightarrow> frame_energy f = Some (energy_of f)"
  by (simp add: frame_energy_ok)

lemma on_frame_cases:
  assumes f: "frame_ok f" and pre: "\<forall>f \<in> set (pr_list (as_pre_roll a)). frame_ok f"
  shows "on_frame a f t =
    (let a1 = (note_seq a f)\<lparr>as_gate := fst (gated a f t)\<rparr>
     in if as_active a then Some (finish_frame (appended a1 f) t)
        else if snd (gated a f t) then Some (finish_frame (appended (opened a1 t) f) t)
        else Some (a1\<lparr>as_pre_roll := pr_push (as_pre_roll a) f\<rparr>, None))"
proof -
  define a1 where "a1 = (note_seq a f)\<lparr>as_gate := fst (gated a f t)\<rparr>"
  have a1: "as_pre_roll a1 = as_pre_roll a" "as_active a1 = as_active a" by (simp_all add: a1_def)
  have op: "flush_pre_roll (open_chunk a1 t) = Some (opened a1 t)"
    using flush_pre_roll_open [of a1 t] pre unfolding a1 opened_def by simp
  have oa: "as_active (opened a1 t)" by (simp add: opened_def open_chunk_def)
  obtain e where e: "frame_energy f = Some e" using frame_energy_some [OF f] by blast
  have ga: "gate_accept (as_gate a) e (now_ms_of t) = (fst (gated a f t), snd (gated a f t))"
    by (simp add: gated_def e)
  have unf: "on_frame a f t = do {
       a \<leftarrow> (if snd (gated a f t) \<and> \<not> as_active a1 then flush_pre_roll (open_chunk a1 t) else Some a1);
       a \<leftarrow> (if as_active a then append_frame a f
             else Some (a\<lparr>as_pre_roll := pr_push (as_pre_roll a) f\<rparr>));
       Some (finish_frame a t)
     }"
    unfolding on_frame_def e finish_frame_def a1_def
    by (simp only: bind.bind_lunit Let_def note_seq_fields ga prod.case)
  show ?thesis
  proof (cases "as_active a")
    case True
    then show ?thesis by (simp add: unf a1 append_frame_ok [OF f] Let_def flip: a1_def)
  next
    case False
    then show ?thesis
      using op oa by (simp add: unf a1 append_frame_ok [OF f] Let_def finish_frame_def flip: a1_def)
  qed
qed

lemma holding_opened:
  assumes "asm_rel n a (pre, None)" "frame_ok f"
    and "a1 = (note_seq a f)\<lparr>as_gate := g\<rparr>" "gate_inv g"
  shows "holding n (appended (opened a1 t) f) (pre @ [f])"
proof -
  have r: "pr_wf (as_pre_roll a)" "unat (pr_head (as_pre_roll a)) \<le> n" "pr_list (as_pre_roll a) = pre"
      "\<forall>f \<in> set pre. frame_ok f"
    using assms(1) by (auto simp: asm_rel_def)
  have a1: "as_pre_roll a1 = as_pre_roll a" "as_gate a1 = g" by (simp_all add: assms(3))
  have "chunk_fields (foldl appended (open_chunk a1 t) pre) pre"
    using chunk_fields_foldl [OF chunk_fields_open, of a1 t pre] by simp
  then have "chunk_fields (opened a1 t) pre"
    unfolding opened_def a1 r(3) by (rule chunk_fields_cong) simp_all
  then have "chunk_fields (appended (opened a1 t) f) (pre @ [f])" by (rule chunk_fields_appended)
  moreover have "as_gate (opened a1 t) = g" "as_pre_roll (opened a1 t) = pr_clear (as_pre_roll a)"
      "as_active (opened a1 t)"
    by (simp_all add: opened_def a1 open_chunk_def)
  moreover have "unat (pr_head (pr_clear (as_pre_roll a))) \<le> n" by (simp add: pr_clear_def)
  ultimately show ?thesis using r assms(2,4) by (simp add: holding_def inv_intros)
qed

lemma holding_appended:
  assumes "asm_rel n a (pre, Some fs)" "frame_ok f"
    and "a1 = (note_seq a f)\<lparr>as_gate := g\<rparr>" "gate_inv g"
  shows "holding n (appended a1 f) (fs @ [f])"
proof -
  have r: "pr_wf (as_pre_roll a)" "unat (pr_head (as_pre_roll a)) \<le> n" "pr_list (as_pre_roll a) = []"
      "as_active a" "chunk_fields a fs" "\<forall>f \<in> set fs. frame_ok f"
    using assms(1) by (auto simp: asm_rel_def)
  have "chunk_fields a1 fs"
    by (rule chunk_fields_cong [OF r(5)]) (simp_all add: assms(3))
  then have "chunk_fields (appended a1 f) (fs @ [f])" by (rule chunk_fields_appended)
  then show ?thesis using r assms(2,4) by (simp add: holding_def assms(3))
qed

lemma asm_rel_weaken: "asm_rel n a s \<Longrightarrow> n \<le> m \<Longrightarrow> asm_rel m a s"
  by (auto simp: asm_rel_def split: option.splits)

text \<open>The decisions the gate and the clock take on a frame.\<close>

definition chunk_start :: "assembler \<Rightarrow> u64 \<Rightarrow> u64" where
  "chunk_start a t = (if as_active a then as_t_speech_start_ns a else t)"

definition over_cap :: "assembler \<Rightarrow> u64 \<Rightarrow> bool" where
  "over_cap a t \<longleftrightarrow> cc_max_chunk_ms (as_cfg a) \<le> fdiv (f_of_u64 (t - chunk_start a t)) 1000000"

definition decisions :: "assembler \<Rightarrow> audio_frame \<Rightarrow> u64 \<Rightarrow> bool \<times> bool \<times> bool" where
  "decisions a f t = (snd (gated a f t), g_speaking (fst (gated a f t)), over_cap a t)"

definition seg_step3 :: "nat \<Rightarrow> 'f seg \<Rightarrow> bool \<times> bool \<times> bool \<Rightarrow> 'f \<Rightarrow> 'f seg \<times> ('f list \<times> close_reason) option" where
  "seg_step3 cap s d f = seg_step cap s (fst d) (fst (snd d)) (snd (snd d)) f"

definition chunk_matches :: "nat \<Rightarrow> chunk_event \<Rightarrow> audio_frame list \<times> close_reason \<Rightarrow> bool" where
  "chunk_matches mx ev c \<longleftrightarrow>
    ev = event_of (ce_chunk_id ev) mx (fst c) (ce_t_speech_start_ns ev) (ce_t_endpoint_ns ev)
      (ce_dropped_frames ev) (snd c)"

text \<open>What one step promises, besides the relation between the states.\<close>

definition step_event :: "assembler \<Rightarrow> u64 \<Rightarrow> (audio_frame list \<times> close_reason) option
    \<Rightarrow> assembler \<Rightarrow> chunk_event option \<Rightarrow> bool" where
  "step_event a t out a' ev \<longleftrightarrow>
    as_cfg a' = as_cfg a \<and> pr_cap (as_pre_roll a') = pr_cap (as_pre_roll a) \<and>
    (case (out, ev) of
       (None, None) \<Rightarrow> as_next_chunk_id a' = as_next_chunk_id a
     | (Some c, Some ev) \<Rightarrow> as_next_chunk_id a' = as_next_chunk_id a + 1
         \<and> ce_chunk_id ev = as_next_chunk_id a \<and> ce_t_endpoint_ns ev = t
         \<and> ce_t_speech_start_ns ev = chunk_start a t
         \<and> chunk_matches (cc_max_chunk_bytes (as_cfg a)) ev c
     | _ \<Rightarrow> False)"

lemma finish_frame_fields:
  "as_cfg (fst (finish_frame a t)) = as_cfg a" "as_gate (fst (finish_frame a t)) = as_gate a"
  "as_pre_roll (fst (finish_frame a t)) = as_pre_roll a"
  "as_next_chunk_id (fst (finish_frame a t))
    = as_next_chunk_id a + (if snd (finish_frame a t) = None then 0 else 1)"
  by (auto simp: finish_frame_def close_chunk_def open_chunk_def)

lemma finish_step_event:
  assumes h: "holding n b fs" and b: "as_cfg b = as_cfg a" "pr_cap (as_pre_roll b) = pr_cap (as_pre_roll a)"
    "as_next_chunk_id b = as_next_chunk_id a" "as_t_speech_start_ns b = chunk_start a t"
  shows "step_event a t (snd (seg_grow fs (g_speaking (as_gate b)) (capped b t)))
    (fst (finish_frame b t)) (snd (finish_frame b t))"
  using finish_frame_grow(2) [OF h, of t] finish_frame_fields [of b t] b
  by (auto simp: step_event_def seg_grow_def event_of_def chunk_matches_def split: if_splits)

lemma finish_frame_refines:
  assumes h: "holding n b fs" and b: "as_cfg b = as_cfg a" "pr_cap (as_pre_roll b) = pr_cap (as_pre_roll a)"
    "as_next_chunk_id b = as_next_chunk_id a" "as_t_speech_start_ns b = chunk_start a t"
    "as_gate b = fst (gated a f t)"
  shows "\<exists>a' ev. finish_frame b t = (a', ev)
    \<and> asm_rel (n + 1) a' (fst (seg_grow fs (g_speaking (fst (gated a f t))) (over_cap a t)))
    \<and> step_event a t (snd (seg_grow fs (g_speaking (fst (gated a f t))) (over_cap a t))) a' ev
    \<and> as_gate a' = fst (gated a f t)"
proof -
  have cp: "capped b t = over_cap a t" by (simp add: capped_def over_cap_def elapsed_ms_def b)
  show ?thesis
    using asm_rel_weaken [OF finish_frame_grow(1) [OF h, of t], of "n + 1"]
      finish_step_event [OF h b(1-4)] finish_frame_fields(2) [of b t]
    by (simp add: cp b(5)) (metis prod.collapse)
qed

lemma on_frame_refines:
  assumes rel: "asm_rel n a s" and f: "frame_ok f" and n: "n + 1 < 2 ^ 64"
    and cap: "pr_cap (as_pre_roll a) = cap"
  shows "\<exists>a' ev. on_frame a f t = Some (a', ev)
    \<and> asm_rel (n + 1) a' (fst (seg_step3 cap s (decisions a f t) f))
    \<and> step_event a t (snd (seg_step3 cap s (decisions a f t) f)) a' ev
    \<and> as_gate a' = fst (gated a f t)"
proof -
  define a1 where "a1 = (note_seq a f)\<lparr>as_gate := fst (gated a f t)\<rparr>"
  obtain pre cur where s: "s = (pre, cur)" by force
  have r: "gate_inv (as_gate a)" "pr_wf (as_pre_roll a)" "unat (pr_head (as_pre_roll a)) \<le> n"
      "length (as_buffer a) \<le> cc_max_chunk_bytes (as_cfg a)" "pr_list (as_pre_roll a) = pre"
      "\<forall>f \<in> set pre. frame_ok f"
    using rel by (auto simp: asm_rel_def s)
  have gi: "gate_inv (fst (gated a f t))" unfolding gated_def by (intro inv_intros r(1))
  note step = finish_frame_refines [of n _ _ a t f]
  show ?thesis
  proof (cases cur)
    case (Some fs)
    have act: "as_active a" using rel by (simp add: asm_rel_def s Some)
    have h: "holding n (appended a1 f) (fs @ [f])"
      using holding_appended [OF _ f a1_def gi] rel by (simp add: s Some)
    have "on_frame a f t = Some (finish_frame (appended a1 f) t)"
      using on_frame_cases [OF f, of a t] r(5,6) act by (simp add: a1_def Let_def)
    then show ?thesis
      using step [OF h] act by (simp add: a1_def chunk_start_def seg_step3_def decisions_def s Some)
  next
    case None
    have act: "\<not> as_active a" using rel by (simp add: asm_rel_def s None)
    show ?thesis
    proof (cases "snd (gated a f t)")
      case True
      have h: "holding n (appended (opened a1 t) f) (pre @ [f])"
        using holding_opened [OF _ f a1_def gi] rel by (simp add: s None)
      have "on_frame a f t = Some (finish_frame (appended (opened a1 t) f) t)"
        using on_frame_cases [OF f, of a t] r(5,6) act True by (simp add: a1_def Let_def)
      then show ?thesis
        using step [OF h] act True
        by (simp add: a1_def opened_def open_chunk_def chunk_start_def seg_step3_def decisions_def s None)
    next
      case False
      have ev: "on_frame a f t = Some (a1\<lparr>as_pre_roll := pr_push (as_pre_roll a) f\<rparr>, None)"
        using on_frame_cases [OF f, of a t] r(5,6) act False by (simp add: a1_def Let_def)
      have hd: "unat (pr_head (as_pre_roll a)) + 1 < 2 ^ 64" using r(3) n by linarith
      have oks: "\<forall>x \<in> set (lastn cap (pre @ [f])). frame_ok x"
        using r(6) f by (auto dest!: set_lastn)
      have "asm_rel (n + 1) (a1\<lparr>as_pre_roll := pr_push (as_pre_roll a) f\<rparr>) (lastn cap (pre @ [f]), None)"
        using r act gi pr_list_push [OF r(2) hd, of f] pr_head_push [OF hd, of f] pr_wf_push [OF r(2), of f] oks cap
        by (auto simp: asm_rel_def a1_def)
      then show ?thesis
        using False ev by (simp add: seg_step3_def decisions_def s None step_event_def a1_def)
    qed
  qed
qed

end
