(* ===== verification/Options.thy ===== *)
theory Options
  imports Chunker Histogram
begin

text \<open>
  Command lines: the option records of both programs, their defaults, and the effect of each option
  (\<open>parse_args\<close> of \<open>src/vhp_consumer.cpp\<close> and \<open>src/vhp_producer.cpp\<close>). What \<open>getopt_long\<close> found is the
  input: the list of recognised options with their arguments, an unrecognised one as the help
  option, which is how the \<open>default\<close> branch treats it. The numeric conversions of the C library are
  written out; of \<open>atof\<close> the decimal forms.
\<close>

section \<open>Numbers in arguments\<close>

definition is_space :: "char \<Rightarrow> bool" where
  "is_space c \<longleftrightarrow> (let n = of_char c :: nat in n = 32 \<or> 9 \<le> n \<and> n \<le> 13)"

definition digit_of :: "char \<Rightarrow> nat option" where
  "digit_of c =
    (let n = of_char c :: nat
     in if 48 \<le> n \<and> n \<le> 57 then Some (n - 48)
        else if 97 \<le> n \<and> n \<le> 122 then Some (n - 87)
        else if 65 \<le> n \<and> n \<le> 90 then Some (n - 55) else None)"

text \<open>The longest prefix of digits of a base: how many, their value, and what follows.\<close>

fun take_digits :: "nat \<Rightarrow> nat \<Rightarrow> nat \<Rightarrow> string \<Rightarrow> nat \<times> nat \<times> string" where
  "take_digits base k acc [] = (k, acc, [])"
| "take_digits base k acc (c # cs) =
    (case digit_of c of
       None \<Rightarrow> (k, acc, c # cs)
     | Some d \<Rightarrow> if d < base then take_digits base (k + 1) (acc * base + d) cs else (k, acc, c # cs))"

definition take_sign :: "string \<Rightarrow> bool \<times> string" where
  "take_sign s = (case s of [] \<Rightarrow> (False, []) | c # cs \<Rightarrow>
     if c = CHR ''-'' then (True, cs) else if c = CHR ''+'' then (False, cs) else (False, c # cs))"

text \<open>\<open>strtoul\<close> and \<open>strtoull\<close>: a value out of range is \<open>ULONG_MAX\<close>, a minus sign negates modulo \<open>2 ^ 64\<close>.\<close>

definition unsigned_value :: "nat \<Rightarrow> string \<Rightarrow> u64" where
  "unsigned_value base s =
    (let (neg, s) = take_sign (dropWhile is_space s);
         (k, v, rest) = take_digits base 0 0 s
     in if 2 ^ 64 \<le> v then 0xFFFFFFFFFFFFFFFF else if neg then - of_nat v else of_nat v)"

definition strtoul10 :: "string \<Rightarrow> u64" where
  "strtoul10 s = unsigned_value 10 s"

text \<open>Base 0: \<open>0x\<close> followed by a hexadecimal digit, a leading \<open>0\<close>, or decimal.\<close>

definition strtoull0 :: "string \<Rightarrow> u64" where
  "strtoull0 s =
    (let (neg, t) = take_sign (dropWhile is_space s);
         sign = (if neg then ''-'' else '''')
     in case t of
          CHR ''0'' # x # d # ds \<Rightarrow>
            if (x = CHR ''x'' \<or> x = CHR ''X'') \<and> (case digit_of d of None \<Rightarrow> False | Some n \<Rightarrow> n < 16)
            then unsigned_value 16 (sign @ d # ds) else unsigned_value 8 (sign @ t)
        | CHR ''0'' # _ \<Rightarrow> unsigned_value 8 (sign @ t)
        | _ \<Rightarrow> unsigned_value 10 (sign @ t))"

text \<open>\<open>atoi\<close>: \<open>strtol\<close>, which saturates at 64 bits, narrowed to \<open>int\<close>.\<close>

definition atoi :: "string \<Rightarrow> int" where
  "atoi s =
    (let (neg, s) = take_sign (dropWhile is_space s);
         (k, v, rest) = take_digits 10 0 0 s;
         n = (if neg then max (- (2 ^ 63)) (- int v) else min (2 ^ 63 - 1) (int v))
     in sint (word_of_int n :: u32))"

text \<open>\<open>atof\<close> on \<open>[space][sign]digits[.digits][e[sign]digits]\<close>, correctly rounded; 0 without a digit.\<close>

definition take_exponent :: "string \<Rightarrow> int" where
  "take_exponent s =
    (case s of [] \<Rightarrow> 0 | c # cs \<Rightarrow>
       if c = CHR ''e'' \<or> c = CHR ''E''
       then (let (neg, cs) = take_sign cs; (k, v, rest) = take_digits 10 0 0 cs
             in if neg then - int v else int v)
       else 0)"

definition atof :: "string \<Rightarrow> double" where
  "atof s =
    (let (neg, s) = take_sign (dropWhile is_space s);
         (k, v, s) = take_digits 10 0 0 s;
         (k', v', s) = (case s of [] \<Rightarrow> (0, v, []) | c # cs \<Rightarrow>
            if c = CHR ''.'' then take_digits 10 0 v cs else (0, v, c # cs));
         x = (if k + k' = 0 then 0 else of_nat v' * 10 powi (take_exponent s - int k'))
     in rnd (if neg then - x else x))"

section \<open>The consumer\<close>

record consumer_options =
  co_frame_shm :: string
  co_event_shm :: string
  co_uds_path :: string
  co_core :: int
  co_realtime :: bool
  co_spin :: bool
  co_frame_ms :: double
  co_seconds :: double
  co_chunker :: chunker_config
  co_max_sessions :: u32
  co_session_idle_ms :: double
  co_csv_prefix :: string

definition kDefaultFrameShm :: string where
  "kDefaultFrameShm = ''/vhp_frames''"

definition kDefaultEventShm :: string where
  "kDefaultEventShm = ''/vhp_events''"

definition consumer_defaults :: consumer_options where
  "consumer_defaults = \<lparr>co_frame_shm = kDefaultFrameShm, co_event_shm = kDefaultEventShm, co_uds_path = [],
    co_core = -1, co_realtime = False, co_spin = True, co_frame_ms = 20, co_seconds = 0,
    co_chunker = default_chunker_config, co_max_sessions = 32, co_session_idle_ms = 2000, co_csv_prefix = []\<rparr>"

datatype consumer_flag =
  KFrameShm | KEventShm | KUds | KCore | KRt | KYield | KRms | KPeak | KSpeechFrames | KSilenceFrames
  | KPreroll | KMaxChunk | KFrameMs | KSeconds | KCsv | KMaxSessions | KSessionIdle | KHelp

abbreviation with_gate :: "(gate_config \<Rightarrow> gate_config) \<Rightarrow> consumer_options \<Rightarrow> consumer_options" where
  "with_gate g opt \<equiv> opt\<lparr>co_chunker := (co_chunker opt)\<lparr>cc_gate := g (cc_gate (co_chunker opt))\<rparr>\<rparr>"

text \<open>One turn of the \<open>switch\<close>; \<^const>\<open>None\<close> prints the usage and ends the program.\<close>

fun consumer_option :: "consumer_flag \<Rightarrow> string \<Rightarrow> consumer_options \<Rightarrow> consumer_options option" where
  "consumer_option KFrameShm arg opt = Some (opt\<lparr>co_frame_shm := arg\<rparr>)"
| "consumer_option KEventShm arg opt = Some (opt\<lparr>co_event_shm := arg\<rparr>)"
| "consumer_option KUds arg opt = Some (opt\<lparr>co_uds_path := arg\<rparr>)"
| "consumer_option KCore arg opt = Some (opt\<lparr>co_core := atoi arg\<rparr>)"
| "consumer_option KRt arg opt = Some (opt\<lparr>co_realtime := True\<rparr>)"
| "consumer_option KYield arg opt = Some (opt\<lparr>co_spin := False\<rparr>)"
| "consumer_option KRms arg opt = Some (with_gate (\<lambda>g. g\<lparr>gc_rms_threshold := Some (atof arg)\<rparr>) opt)"
| "consumer_option KPeak arg opt = Some (with_gate (\<lambda>g. g\<lparr>gc_peak_threshold := Some (atof arg)\<rparr>) opt)"
| "consumer_option KSpeechFrames arg opt = Some (with_gate (\<lambda>g. g\<lparr>gc_speech_frames := ucast (strtoul10 arg)\<rparr>) opt)"
| "consumer_option KSilenceFrames arg opt = Some (with_gate (\<lambda>g. g\<lparr>gc_silence_frames := ucast (strtoul10 arg)\<rparr>) opt)"
| "consumer_option KPreroll arg opt =
    Some (opt\<lparr>co_chunker := (co_chunker opt)\<lparr>cc_pre_roll_frames := ucast (strtoul10 arg)\<rparr>\<rparr>)"
| "consumer_option KMaxChunk arg opt = Some (opt\<lparr>co_chunker := (co_chunker opt)\<lparr>cc_max_chunk_ms := atof arg\<rparr>\<rparr>)"
| "consumer_option KFrameMs arg opt = Some (opt\<lparr>co_frame_ms := atof arg\<rparr>)"
| "consumer_option KSeconds arg opt = Some (opt\<lparr>co_seconds := atof arg\<rparr>)"
| "consumer_option KCsv arg opt = Some (opt\<lparr>co_csv_prefix := arg\<rparr>)"
| "consumer_option KMaxSessions arg opt = Some (opt\<lparr>co_max_sessions := ucast (strtoul10 arg)\<rparr>)"
| "consumer_option KSessionIdle arg opt = Some (opt\<lparr>co_session_idle_ms := atof arg\<rparr>)"
| "consumer_option KHelp arg opt = None"

fun parse_with :: "('c \<Rightarrow> string \<Rightarrow> 'o \<Rightarrow> 'o option) \<Rightarrow> ('c \<times> string) list \<Rightarrow> 'o \<Rightarrow> 'o option" where
  "parse_with apply_one [] opt = Some opt"
| "parse_with apply_one ((c, arg) # args) opt = do { opt \<leftarrow> apply_one c arg opt; parse_with apply_one args opt }"

definition consumer_parse_args :: "(consumer_flag \<times> string) list \<Rightarrow> consumer_options option" where
  "consumer_parse_args args = parse_with consumer_option args consumer_defaults"

section \<open>The producer\<close>

record producer_options =
  po_frame_shm :: string
  po_uds_path :: string
  po_create_shm :: bool
  po_frame_ms :: double
  po_sample_rate :: u32
  po_format :: u16
  po_seconds :: double
  po_speech_ms :: double
  po_gap_ms :: double
  po_word_gap_ms :: double
  po_word_every_ms :: double
  po_speech_amplitude :: double
  po_noise_floor :: double
  po_stall_every_ms :: double
  po_stall_ms :: double
  po_seed :: u64
  po_sessions :: u32
  po_core :: int
  po_spin_pace :: bool

definition producer_defaults :: producer_options where
  "producer_defaults = \<lparr>po_frame_shm = kDefaultFrameShm, po_uds_path = [], po_create_shm = False, po_frame_ms = 20,
    po_sample_rate = 24000, po_format = kPcm16Le, po_seconds = 10, po_speech_ms = 1500, po_gap_ms = 900,
    po_word_gap_ms = 0, po_word_every_ms = 320, po_speech_amplitude = 1 / 4, po_noise_floor = rnd (4 / 1000),
    po_stall_every_ms = 0, po_stall_ms = 0, po_seed = 0xC0FFEE, po_sessions = 1, po_core = -1, po_spin_pace = False\<rparr>"

datatype producer_flag =
  PShm | PUds | PCreate | PSeconds | PSpeech | PGap | PWordGap | PWordEvery | PAmp | PNoise | PSeed | PSessions
  | PRate | PMulaw | PFrameMs | PStallEvery | PStall | PCore | PSpin | PHelp

fun producer_option :: "producer_flag \<Rightarrow> string \<Rightarrow> producer_options \<Rightarrow> producer_options option" where
  "producer_option PShm arg opt = Some (opt\<lparr>po_frame_shm := arg\<rparr>)"
| "producer_option PUds arg opt = Some (opt\<lparr>po_uds_path := arg\<rparr>)"
| "producer_option PCreate arg opt = Some (opt\<lparr>po_create_shm := True\<rparr>)"
| "producer_option PSeconds arg opt = Some (opt\<lparr>po_seconds := atof arg\<rparr>)"
| "producer_option PSpeech arg opt = Some (opt\<lparr>po_speech_ms := atof arg\<rparr>)"
| "producer_option PGap arg opt = Some (opt\<lparr>po_gap_ms := atof arg\<rparr>)"
| "producer_option PWordGap arg opt = Some (opt\<lparr>po_word_gap_ms := atof arg\<rparr>)"
| "producer_option PWordEvery arg opt = Some (opt\<lparr>po_word_every_ms := atof arg\<rparr>)"
| "producer_option PAmp arg opt = Some (opt\<lparr>po_speech_amplitude := atof arg\<rparr>)"
| "producer_option PNoise arg opt = Some (opt\<lparr>po_noise_floor := atof arg\<rparr>)"
| "producer_option PSeed arg opt = Some (opt\<lparr>po_seed := strtoull0 arg\<rparr>)"
| "producer_option PSessions arg opt =
    (let n = ucast (strtoul10 arg) in Some (opt\<lparr>po_sessions := (if n = 0 then 1 else n)\<rparr>))"
| "producer_option PRate arg opt = Some (opt\<lparr>po_sample_rate := ucast (strtoul10 arg)\<rparr>)"
| "producer_option PMulaw arg opt = Some (opt\<lparr>po_format := kMulaw8, po_sample_rate := 8000\<rparr>)"
| "producer_option PFrameMs arg opt = Some (opt\<lparr>po_frame_ms := atof arg\<rparr>)"
| "producer_option PStallEvery arg opt = Some (opt\<lparr>po_stall_every_ms := atof arg\<rparr>)"
| "producer_option PStall arg opt = Some (opt\<lparr>po_stall_ms := atof arg\<rparr>)"
| "producer_option PCore arg opt = Some (opt\<lparr>po_core := atoi arg\<rparr>)"
| "producer_option PSpin arg opt = Some (opt\<lparr>po_spin_pace := True\<rparr>)"
| "producer_option PHelp arg opt = None"

definition producer_parse_args :: "(producer_flag \<times> string) list \<Rightarrow> producer_options option" where
  "producer_parse_args args = parse_with producer_option args producer_defaults"

section \<open>Numbers survive the round trip\<close>

lemma digit_of_decimal: "d < 10 \<Longrightarrow> digit_of (char_of (48 + d)) = Some d"
  by (simp add: digit_of_def Let_def)

lemma take_digits_append:
  assumes "\<forall>c \<in> set cs. \<exists>d < base. digit_of c = Some d"
  shows "take_digits base k acc (cs @ ds)
    = (case take_digits base k acc cs of (k, acc, _) \<Rightarrow> take_digits base k acc ds)"
  using assms by (induction cs arbitrary: k acc) (auto split: option.splits)

lemma decimal_digits: "\<forall>c \<in> set (decimal n). \<exists>d < 10. digit_of c = Some d"
proof (induction n rule: decimal.induct)
  case (1 n)
  then show ?case by (subst decimal.simps) (auto simp: digit_of_decimal)
qed

lemma take_digits_decimal: "\<exists>k. take_digits 10 j 0 (decimal n) = (k, n, [])"
proof (induction n arbitrary: j rule: decimal.induct)
  case (1 n)
  show ?case
  proof (cases "n < 10")
    case True
    then show ?thesis by (subst decimal.simps) (simp add: digit_of_decimal)
  next
    case False
    then obtain k where k: "take_digits 10 j 0 (decimal (n div 10)) = (k, n div 10, [])" using 1 by blast
    have "decimal n = decimal (n div 10) @ [char_of (48 + n mod 10)]" using False by (subst decimal.simps) simp
    then show ?thesis
      by (simp add: take_digits_append [OF decimal_digits] k digit_of_decimal)
  qed
qed

lemma decimal_head:
  "\<exists>c cs. decimal n = c # cs \<and> \<not> is_space c \<and> c \<noteq> CHR ''-'' \<and> c \<noteq> CHR ''+''"
proof -
  have ne: "decimal n \<noteq> []" by (subst decimal.simps) simp
  then obtain c cs where c: "decimal n = c # cs" by (cases "decimal n") auto
  then obtain d where d: "digit_of c = Some d" using decimal_digits [of n] by auto
  have "\<not> is_space c" using d by (auto simp: digit_of_def is_space_def Let_def split: if_splits)
  moreover have "c \<noteq> CHR ''-''" "c \<noteq> CHR ''+''" using d by (auto simp: digit_of_def)
  ultimately show ?thesis using c by blast
qed

lemma strtoul10_decimal: "n < 2 ^ 64 \<Longrightarrow> strtoul10 (decimal n) = of_nat n"
proof -
  assume n: "n < 2 ^ 64"
  obtain c cs where c: "decimal n = c # cs" "\<not> is_space c" "c \<noteq> CHR ''-''" "c \<noteq> CHR ''+''"
    using decimal_head by blast
  obtain k where "take_digits 10 0 0 (c # cs) = (k, n, [])" using take_digits_decimal [of 0 n] c(1) by auto
  then show ?thesis using n c by (simp add: strtoul10_def unsigned_value_def take_sign_def)
qed

section \<open>Properties\<close>

text \<open>A count given on the command line reaches the configuration as the number it denotes,
  reduced modulo \<open>2 ^ 32\<close> and not rejected, and the last occurrence of an option wins.\<close>

theorem max_sessions_argument:
  assumes "n < 2 ^ 64" "consumer_parse_args args = Some opt"
  shows "consumer_parse_args (args @ [(KMaxSessions, decimal n)]) = Some (opt\<lparr>co_max_sessions := of_nat n\<rparr>)"
proof -
  have app: "parse_with f (xs @ ys) o1 = do { o2 \<leftarrow> parse_with f xs o1; parse_with f ys o2 }"
    for f :: "consumer_flag \<Rightarrow> string \<Rightarrow> consumer_options \<Rightarrow> consumer_options option" and xs ys o1
    by (induction xs arbitrary: o1) (auto split: Option.bind_splits)
  have "(ucast (of_nat n :: u64) :: u32) = of_nat n"
    using assms(1) by (simp add: unsigned_of_nat take_bit_nat_eq_self)
  then show ?thesis using assms by (simp add: consumer_parse_args_def app strtoul10_decimal)
qed

theorem max_sessions_argument_witness:
  "consumer_parse_args ([(KYield, [])] @ [(KMaxSessions, decimal (2 ^ 32))])
    = Some (consumer_defaults\<lparr>co_spin := False, co_max_sessions := 0\<rparr>)"
proof -
  have p: "consumer_parse_args [(KYield, [])] = Some (consumer_defaults\<lparr>co_spin := False\<rparr>)"
    by (simp add: consumer_parse_args_def)
  have n: "(2 ^ 32 :: nat) < 2 ^ 64" by simp
  have z: "(of_nat (2 ^ 32) :: u32) = 0" by simp
  show ?thesis using max_sessions_argument [OF n p] unfolding z .
qed

end
