(* ===== verification/Chunker_Props.thy ===== *)
theory Chunker_Props
  imports Chunker
begin

text \<open>
  Whole runs of the chunk assembler: the chunks it closes partition the input stream in order,
  the buffer stays inside its preallocation, chunks end exactly when the hangover elapses or the
  length cap is reached, and what is left after a forced flush.
\<close>

section \<open>Runs of the segmenter\<close>

fun seg_run :: "nat \<Rightarrow> 'f seg \<Rightarrow> ((bool \<times> bool \<times> bool) \<times> 'f) list
    \<Rightarrow> 'f seg \<times> ('f list \<times> close_reason) option list" where
  "seg_run cap s [] = (s, [])"
| "seg_run cap s ((d, f) # xs) =
    (let (s', c) = seg_step3 cap s d f; (s'', cs) = seg_run cap s' xs in (s'', c # cs))"

text \<open>
  \<open>covers cs h\<close>: the chunks \<open>cs\<close> are disjoint blocks of consecutive frames of \<open>h\<close>, in order, the
  last one ends \<open>h\<close>, and a chunk that follows a forced flush starts right where that one ended.
\<close>

inductive covers :: "('f list \<times> close_reason) list \<Rightarrow> 'f list \<Rightarrow> bool" where
  covers_nil: "covers [] []"
| covers_snoc: "covers cs h \<Longrightarrow> (cs \<noteq> [] \<Longrightarrow> snd (last cs) = KMaxLength \<Longrightarrow> skip = [])
    \<Longrightarrow> fs \<noteq> [] \<Longrightarrow> covers (cs @ [(fs, r)]) (h @ skip @ fs)"

definition glued :: "('f list \<times> close_reason) list \<Rightarrow> bool" where
  "glued cs \<longleftrightarrow> cs \<noteq> [] \<and> snd (last cs) = KMaxLength"

definition seg_inv :: "('f list \<times> close_reason) list \<Rightarrow> 'f list \<Rightarrow> 'f seg \<Rightarrow> bool" where
  "seg_inv cs h s \<longleftrightarrow>
    (case snd s of
       None \<Rightarrow> \<not> glued cs \<and> (\<exists>d x. h = d @ x @ fst s \<and> covers cs d)
     | Some fs \<Rightarrow> fst s = [] \<and> (\<exists>d x. h = d @ x @ fs \<and> covers cs d \<and> (glued cs \<longrightarrow> x = [])))"

definition outs :: "'a option list \<Rightarrow> 'a list" where
  "outs xs = map the (filter (\<lambda>x. x \<noteq> None) xs)"

lemma outs_simps [simp]:
  "outs [] = []" "outs (None # xs) = outs xs" "outs (Some y # xs) = y # outs xs"
  "outs (xs @ ys) = outs xs @ outs ys"
  by (simp_all add: outs_def)

lemma seg_inv_grow:
  assumes "h = d @ x @ fs" "covers cs d" "glued cs \<longrightarrow> x = []" "fs \<noteq> []"
  shows "seg_inv (cs @ outs [snd (seg_grow fs sp cp)]) h (fst (seg_grow fs sp cp))"
proof -
  have cv: "covers (cs @ [(fs, r)]) h" for r
    unfolding assms(1) using assms(2-4) by (intro covers_snoc) (auto simp: glued_def)
  show ?thesis
  proof (cases sp)
    case False
    have "\<exists>d x. h = d @ x \<and> covers (cs @ [(fs, KHangover)]) d"
      using cv [of KHangover] append_Nil2 by metis
    then show ?thesis using False by (simp add: seg_grow_def seg_inv_def glued_def)
  next
    case True
    then show ?thesis using cv [of KMaxLength] assms
      by (auto simp: seg_grow_def seg_inv_def glued_def intro: exI [of _ h])
  qed
qed

lemma seg_inv_step:
  assumes "seg_inv cs h s"
  shows "seg_inv (cs @ outs [snd (seg_step3 cap s d f)]) (h @ [f]) (fst (seg_step3 cap s d f))"
proof -
  obtain pre cur where s: "s = (pre, cur)" by force
  show ?thesis
  proof (cases cur)
    case (Some fs)
    then obtain e x where h: "h = e @ x @ fs" "covers cs e" "glued cs \<longrightarrow> x = []"
      using assms by (auto simp: seg_inv_def s)
    then show ?thesis
      using seg_inv_grow [of "h @ [f]" e x "fs @ [f]" cs] by (simp add: s Some seg_step3_def)
  next
    case None
    then obtain e x where h: "h = e @ x @ pre" "covers cs e" "\<not> glued cs"
      using assms by (auto simp: seg_inv_def s)
    show ?thesis
    proof (cases "fst d")
      case True
      then show ?thesis
        using h seg_inv_grow [of "h @ [f]" e x "pre @ [f]" cs] by (simp add: s None seg_step3_def)
    next
      case False
      obtain y where "pre @ [f] = y @ lastn cap (pre @ [f])" using lastn_suffix by blast
      then have "h @ [f] = e @ (x @ y) @ lastn cap (pre @ [f])" using h(1) by simp
      then have "\<exists>d x. h @ [f] = d @ x @ lastn cap (pre @ [f]) \<and> covers cs d"
        using h(2) by blast
      then show ?thesis using False h(3) by (simp add: s None seg_step3_def seg_inv_def)
    qed
  qed
qed

lemma seg_inv_run:
  "seg_inv cs h s \<Longrightarrow>
    seg_inv (cs @ outs (snd (seg_run cap s xs))) (h @ map snd xs) (fst (seg_run cap s xs))"
proof (induction xs arbitrary: cs h s)
  case (Cons x xs)
  obtain d f where x: "x = (d, f)" by (cases x)
  obtain s' c where st: "seg_step3 cap s d f = (s', c)"
    by (cases "seg_step3 cap s d f")
  have "seg_inv (cs @ outs [c]) (h @ [f]) s'"
    using seg_inv_step [OF Cons.prems, of cap d f] by (simp add: st)
  from Cons.IH [OF this] show ?case
    by (cases c) (auto simp: x st split: prod.split)
qed simp

lemma seg_inv_covers:
  assumes "seg_inv cs h s"
  shows "\<exists>d x. h = d @ x \<and> covers cs d"
  using assms by (cases "snd s") (auto simp: seg_inv_def)

section \<open>Runs of the assembler\<close>

lemma asm_rel_cap:
  assumes "asm_rel n a s" "pr_cap (as_pre_roll a) = cap"
  shows "length (fst s) \<le> cap"
  using assms length_pr_list [of "as_pre_roll a"] by (auto simp: asm_rel_def)

lemma asm_run_refines:
  assumes "asm_rel n a s" "\<forall>x \<in> set xs. frame_ok (fst x)" "n + length xs < 2 ^ 64"
    "pr_cap (as_pre_roll a) = cap"
  shows "\<exists>a' evs ds. asm_run a xs = Some (a', evs) \<and> length ds = length xs
    \<and> asm_rel (n + length xs) a' (fst (seg_run cap s (zip ds (map fst xs))))
    \<and> list_all2 (rel_option (chunk_matches (cc_max_chunk_bytes (as_cfg a)))) evs
        (snd (seg_run cap s (zip ds (map fst xs))))
    \<and> map ce_chunk_id (outs evs) = map (\<lambda>i. as_next_chunk_id a + of_nat i) [0..<length (outs evs)]
    \<and> as_cfg a' = as_cfg a \<and> pr_cap (as_pre_roll a') = cap"
  using assms
proof (induction xs arbitrary: n a s)
  case Nil
  then show ?case by (intro exI [of _ a] exI [of _ "[]"]) auto
next
  case (Cons x xs)
  obtain f t where x: "x = (f, t)" by force
  have f: "frame_ok f" and n: "n + 1 < 2 ^ 64" using Cons.prems by (auto simp: x)
  define st where "st = seg_step3 cap s (decisions a f t) f"
  obtain b ev where b: "on_frame a f t = Some (b, ev)" "asm_rel (n + 1) b (fst st)"
      "step_event a t (snd st) b ev"
    using on_frame_refines [OF Cons.prems(1) f n Cons.prems(4), of t] by (auto simp: st_def)
  have c: "as_cfg b = as_cfg a" "pr_cap (as_pre_roll b) = cap"
    using b(3) Cons.prems(4) by (auto simp: step_event_def)
  obtain a' evs ds where r: "asm_run b xs = Some (a', evs)" "length ds = length xs"
      "asm_rel (n + 1 + length xs) a' (fst (seg_run cap (fst st) (zip ds (map fst xs))))"
      "list_all2 (rel_option (chunk_matches (cc_max_chunk_bytes (as_cfg a)))) evs
        (snd (seg_run cap (fst st) (zip ds (map fst xs))))"
      "map ce_chunk_id (outs evs) = map (\<lambda>i. as_next_chunk_id b + of_nat i) [0..<length (outs evs)]"
      "as_cfg a' = as_cfg a" "pr_cap (as_pre_roll a') = cap"
    using Cons.IH [OF b(2) _ _ c(2)] Cons.prems(2,3) c(1) by auto
  have run: "asm_run a (x # xs) = Some (a', ev # evs)" by (simp add: x b(1) r(1))
  have sr: "seg_run cap s (zip (decisions a f t # ds) (map fst (x # xs)))
      = (fst (seg_run cap (fst st) (zip ds (map fst xs))),
         snd st # snd (seg_run cap (fst st) (zip ds (map fst xs))))"
    by (simp add: x st_def split: prod.split)
  have m: "rel_option (chunk_matches (cc_max_chunk_bytes (as_cfg a))) ev (snd st)"
    using b(3) by (auto simp: step_event_def split: option.splits)
  have ids: "map ce_chunk_id (outs (ev # evs))
      = map (\<lambda>i. as_next_chunk_id a + of_nat i) [0..<length (outs (ev # evs))]"
  proof (cases ev)
    case None
    then have "as_next_chunk_id b = as_next_chunk_id a"
      using b(3) by (auto simp: step_event_def split: option.splits)
    then show ?thesis using r(5) None by simp
  next
    case (Some e)
    then have "as_next_chunk_id b = as_next_chunk_id a + 1" "ce_chunk_id e = as_next_chunk_id a"
      using b(3) by (auto simp: step_event_def split: option.splits)
    then show ?thesis using r(5) Some
      by (simp add: map_upt_Suc add.assoc del: upt_Suc)
  qed
  show ?case
    using run sr m r ids
    by (intro exI [of _ a'] exI [of _ "ev # evs"] exI [of _ "decisions a f t # ds"]) simp
qed

lemma list_all2_outs:
  "list_all2 (rel_option P) xs ys \<Longrightarrow> list_all2 P (outs xs) (outs ys)"
proof (induction rule: list_all2_induct)
  case (Cons x xs y ys)
  then show ?case by (cases x; cases y) auto
qed simp

lemma asm_run_new:
  assumes "\<forall>x \<in> set xs. frame_ok (fst x)" "length xs < 2 ^ 64"
  shows "\<exists>a evs s. asm_run (asm_new c) xs = Some (a, evs)
    \<and> asm_rel (length xs) a s \<and> as_cfg a = c \<and> pr_cap (as_pre_roll a) = unat (cc_pre_roll_frames c)
    \<and> map ce_chunk_id (outs evs) = map of_nat [0..<length (outs evs)]
    \<and> (\<exists>cs d x. list_all2 (chunk_matches (cc_max_chunk_bytes c)) (outs evs) cs
          \<and> map fst xs = d @ x \<and> covers cs d)"
proof -
  define cap where "cap = unat (cc_pre_roll_frames c)"
  have n: "as_cfg (asm_new c) = c" "pr_cap (as_pre_roll (asm_new c)) = cap" "as_next_chunk_id (asm_new c) = 0"
    by (simp_all add: asm_new_def pr_new_def cap_def)
  obtain a evs ds where r: "asm_run (asm_new c) xs = Some (a, evs)" "length ds = length xs"
      "asm_rel (0 + length xs) a (fst (seg_run cap ([], None) (zip ds (map fst xs))))"
      "list_all2 (rel_option (chunk_matches (cc_max_chunk_bytes c))) evs
        (snd (seg_run cap ([], None) (zip ds (map fst xs))))"
      "map ce_chunk_id (outs evs) = map (\<lambda>i. 0 + of_nat i) [0..<length (outs evs)]"
      "as_cfg a = c" "pr_cap (as_pre_roll a) = cap"
    using asm_run_refines [OF asm_rel_new [of 0 c] assms(1) _ n(2)] assms(2) unfolding n by auto
  have "seg_inv [] [] ([], None)"
    using covers_nil by (simp add: seg_inv_def glued_def)
  from seg_inv_covers [OF seg_inv_run [OF this, of cap "zip ds (map fst xs)"]]
  have "\<exists>d x. map fst xs = d @ x \<and> covers (outs (snd (seg_run cap ([], None) (zip ds (map fst xs))))) d"
    using r(2) by simp
  then show ?thesis
    using r list_all2_outs [OF r(4)]
    by (intro exI [of _ a] exI [of _ evs] exI [of _ "fst (seg_run cap ([], None) (zip ds (map fst xs)))"])
      (auto simp: cap_def)
qed

section \<open>Runs that stay silent\<close>

text \<open>Feeding quiet frames to an open chunk: until the hangover is used up, nothing is emitted.\<close>

lemma asm_run_append:
  "asm_run a (xs @ ys) = do {
     (b, evs) \<leftarrow> asm_run a xs; (c, evs') \<leftarrow> asm_run b ys; Some (c, evs @ evs') }"
proof (induction xs arbitrary: a)
  case Nil
  then show ?case by (cases "asm_run a ys") auto
next
  case (Cons x xs)
  then show ?case
    by (cases x; cases "on_frame a (fst x) (snd x)")
      (auto simp: Cons bind_eq_None_conv split: Option.bind_split prod.splits)
qed

definition quiet_frame :: "chunker_config \<Rightarrow> audio_frame \<Rightarrow> bool" where
  "quiet_frame c f \<longleftrightarrow> frame_ok f \<and> \<not> is_loud (cc_gate c) (energy_of f)"

text \<open>The gate of an assembler always runs with the configured thresholds and counts.\<close>

definition gate_of_cfg :: "assembler \<Rightarrow> bool" where
  "gate_of_cfg a \<longleftrightarrow> g_cfg (as_gate a) = g_cfg (gate_new (cc_gate (as_cfg a)))"

lemma gate_of_cfg_loud: "gate_of_cfg a \<Longrightarrow> is_loud (g_cfg (as_gate a)) e = is_loud (cc_gate (as_cfg a)) e"
  by (simp add: gate_of_cfg_def)

lemma gate_of_cfg_silence:
  "gate_of_cfg a \<Longrightarrow> gc_silence_frames (g_cfg (as_gate a)) = gc_silence_frames (cc_gate (as_cfg a))"
  by (simp add: gate_of_cfg_def gate_new_def)

lemma gate_of_cfg_step:
  assumes "gate_of_cfg a" "as_cfg a' = as_cfg a" "as_gate a' = fst (gated a f t)"
  shows "gate_of_cfg a'"
  using assms by (simp add: gate_of_cfg_def gated_def)

lemma on_frame_refines':
  assumes "asm_rel n a s" "frame_ok f" "n + 1 < 2 ^ 64" "gate_of_cfg a"
  shows "\<exists>a' ev. on_frame a f t = Some (a', ev)
    \<and> asm_rel (n + 1) a' (fst (seg_step3 (pr_cap (as_pre_roll a)) s (decisions a f t) f))
    \<and> step_event a t (snd (seg_step3 (pr_cap (as_pre_roll a)) s (decisions a f t) f)) a' ev
    \<and> as_gate a' = fst (gated a f t) \<and> gate_of_cfg a'"
proof -
  obtain a' ev where r: "on_frame a f t = Some (a', ev)"
      "asm_rel (n + 1) a' (fst (seg_step3 (pr_cap (as_pre_roll a)) s (decisions a f t) f))"
      "step_event a t (snd (seg_step3 (pr_cap (as_pre_roll a)) s (decisions a f t) f)) a' ev"
      "as_gate a' = fst (gated a f t)"
    using on_frame_refines [OF assms(1-3) refl, of t] by blast
  have "as_cfg a' = as_cfg a" using r(3) by (simp add: step_event_def)
  then show ?thesis using r gate_of_cfg_step [OF assms(4) _ r(4)] by blast
qed

text \<open>One quiet frame on an open chunk.\<close>

lemma on_frame_quiet:
  assumes rel: "asm_rel n a (pre, Some fs)" and q: "quiet_frame (as_cfg a) f" and n: "n + 1 < 2 ^ 64"
    and g: "gate_of_cfg a" and cap: "\<not> over_cap a t"
  defines "k \<equiv> unat (g_quiet_frames (as_gate a)) + 1"
    and "sil \<equiv> unat (gc_silence_frames (cc_gate (as_cfg a)))"
  shows "k \<le> sil \<and> (\<exists>a' ev. on_frame a f t = Some (a', ev) \<and> gate_of_cfg a' \<and> as_cfg a' = as_cfg a
    \<and> (if k < sil
       then ev = None \<and> asm_rel (n + 1) a' ([], Some (fs @ [f])) \<and> unat (g_quiet_frames (as_gate a')) = k
         \<and> as_t_speech_start_ns a' = as_t_speech_start_ns a
       else asm_rel (n + 1) a' ([], None) \<and> (\<exists>e. ev = Some e \<and> ce_t_endpoint_ns e = t
         \<and> chunk_matches (cc_max_chunk_bytes (as_cfg a)) e (fs @ [f], KHangover))))"
proof -
  have r: "gate_inv (as_gate a)" "g_speaking (as_gate a)" "as_active a" using rel by (auto simp: asm_rel_def)
  have f: "frame_ok f" and quiet: "\<not> is_loud (g_cfg (as_gate a)) (energy_of f)"
    using q gate_of_cfg_loud [OF g] by (auto simp: quiet_frame_def)
  have sil: "unat (gc_silence_frames (g_cfg (as_gate a))) = sil"
    by (simp add: sil_def gate_of_cfg_silence [OF g])
  have lt: "unat (g_quiet_frames (as_gate a)) < sil"
    using r(1,2) sil by (simp add: gate_inv_def word_less_nat_alt)
  have k: "unat (g_quiet_frames (as_gate a) + 1) = k"
    using lt unat_u32_less [of "gc_silence_frames (g_cfg (as_gate a))"] sil
    by (simp add: k_def unat_plus_one_if)
  have ga: "gated a f t = ((as_gate a)\<lparr>g_loud_frames := 0, g_quiet_frames := g_quiet_frames (as_gate a) + 1,
      g_speaking := k < sil\<rparr>, False)"
    using gate_accept_quiet_speaking [OF r(2) quiet] k sil by (simp add: gated_def word_less_nat_alt)
  obtain a' ev where st: "on_frame a f t = Some (a', ev)"
      "asm_rel (n + 1) a' (fst (seg_grow (fs @ [f]) (k < sil) False))"
      "step_event a t (snd (seg_grow (fs @ [f]) (k < sil) False)) a' ev"
      "as_gate a' = fst (gated a f t)" "gate_of_cfg a'"
    using on_frame_refines' [OF rel f n g, of t] cap by (auto simp: seg_step3_def decisions_def ga)
  have "as_t_speech_start_ns a' = as_t_speech_start_ns a" if "k < sil"
  proof -
    have "ev = None" using st(3) that by (auto simp: step_event_def seg_grow_def split: option.splits)
    then show ?thesis
      using st(1) on_frame_cases [OF f, of a t] r(3) rel
      by (auto simp: Let_def finish_frame_def asm_rel_def case_prod_beta split: if_splits)
  qed
  note start = this
  have kl: "k \<le> sil" using lt by (simp add: k_def)
  show ?thesis
  proof (cases "k < sil")
    case True
    then show ?thesis
      using st(3) st(2) st(1,4,5) k kl start
      by (auto simp: step_event_def seg_grow_def ga split: option.splits)
  next
    case False
    then have d: "seg_grow (fs @ [f]) (k < sil) False = (([], None), Some (fs @ [f], KHangover))"
      by (simp add: seg_grow_def)
    show ?thesis
      using st(1-5) kl False unfolding d
      by (auto simp: step_event_def ga split: option.splits)
  qed
qed

text \<open>A whole stretch of quiet frames, shorter than what is left of the hangover.\<close>

lemma asm_run_quiet:
  assumes "asm_rel n a (pre, Some fs)" "gate_of_cfg a" "\<forall>x \<in> set ys. quiet_frame (as_cfg a) (fst x)"
    "\<forall>x \<in> set ys. \<not> over_cap a (snd x)" "n + length ys < 2 ^ 64"
    "unat (g_quiet_frames (as_gate a)) + length ys < unat (gc_silence_frames (cc_gate (as_cfg a)))"
  shows "\<exists>b. asm_run a ys = Some (b, replicate (length ys) None) \<and> gate_of_cfg b \<and> as_cfg b = as_cfg a
    \<and> asm_rel (n + length ys) b ([], Some (fs @ map fst ys))
    \<and> unat (g_quiet_frames (as_gate b)) = unat (g_quiet_frames (as_gate a)) + length ys
    \<and> as_t_speech_start_ns b = as_t_speech_start_ns a"
  using assms
proof (induction ys arbitrary: n a pre fs)
  case Nil
  then show ?case by (auto simp: asm_rel_def)
next
  case (Cons y ys)
  obtain f t where y: "y = (f, t)" by force
  have "quiet_frame (as_cfg a) f" "n + 1 < 2 ^ 64" "\<not> over_cap a t"
    using Cons.prems by (auto simp: y)
  from on_frame_quiet [OF Cons.prems(1) this(1,2) Cons.prems(2) this(3)] Cons.prems(6)
  obtain b where b: "on_frame a f t = Some (b, None)" "gate_of_cfg b" "as_cfg b = as_cfg a"
      "asm_rel (n + 1) b ([], Some (fs @ [f]))"
      "unat (g_quiet_frames (as_gate b)) = unat (g_quiet_frames (as_gate a)) + 1"
      "as_t_speech_start_ns b = as_t_speech_start_ns a"
    by auto
  have act: "as_active a" "as_active b" using Cons.prems(1) b(4) by (auto simp: asm_rel_def)
  have oc: "over_cap b u = over_cap a u" for u
    by (simp add: over_cap_def chunk_start_def b act)
  show ?case
    using Cons.IH [OF b(4,2)] Cons.prems(3-6) b oc by (auto simp: y add.assoc)
qed

text \<open>The tail of \<open>on_frame\<close> named, and the gate's configuration along a run.\<close>

lemma on_frame_alt:
  "on_frame a f t = do {
     energy \<leftarrow> frame_energy f;
     let a = note_seq a f;
     let (g, onset) = gate_accept (as_gate a) energy (now_ms_of t);
     let a = a\<lparr>as_gate := g\<rparr>;
     a \<leftarrow> (if onset \<and> \<not> as_active a then flush_pre_roll (open_chunk a t) else Some a);
     a \<leftarrow> (if as_active a then append_frame a f
           else Some (a\<lparr>as_pre_roll := pr_push (as_pre_roll a) f\<rparr>));
     Some (finish_frame a t)
   }"
  unfolding on_frame_def finish_frame_def ..

lemma append_frame_gate: "append_frame a f = Some b \<Longrightarrow> as_gate b = as_gate a"
  by (auto simp: append_frame_def Let_def bind_eq_Some_conv split: if_splits)

lemma append_frames_gate: "append_frames a fs = Some b \<Longrightarrow> as_gate b = as_gate a"
  by (induction fs arbitrary: a) (auto simp: bind_eq_Some_conv append_frame_gate)

lemma flush_pre_roll_gate: "flush_pre_roll a = Some b \<Longrightarrow> as_gate b = as_gate a"
  by (auto simp: flush_pre_roll_def bind_eq_Some_conv append_frames_gate)

lemma open_chunk_gate: "as_gate (open_chunk a t) = as_gate a"
  by (simp add: open_chunk_def)

lemma on_frame_gate_cfg:
  assumes "on_frame a f t = Some (a', ev)"
  shows "g_cfg (as_gate a') = g_cfg (as_gate a)"
proof -
  obtain e a2 a3 where st:
      "(if snd (gate_accept (as_gate (note_seq a f)) e (now_ms_of t)) \<and> \<not> as_active a
        then flush_pre_roll (open_chunk ((note_seq a f)\<lparr>as_gate := fst (gate_accept (as_gate (note_seq a f)) e (now_ms_of t))\<rparr>) t)
        else Some ((note_seq a f)\<lparr>as_gate := fst (gate_accept (as_gate (note_seq a f)) e (now_ms_of t))\<rparr>)) = Some a2"
      "(if as_active a2 then append_frame a2 f else Some (a2\<lparr>as_pre_roll := pr_push (as_pre_roll a2) f\<rparr>)) = Some a3"
      "finish_frame a3 t = (a', ev)"
    using assms unfolding on_frame_alt Let_def case_prod_beta bind_eq_Some_conv by auto
  have "as_gate a2 = fst (gate_accept (as_gate (note_seq a f)) e (now_ms_of t))"
    using st(1) by (auto simp: open_chunk_gate dest!: flush_pre_roll_gate split: if_splits)
  moreover have "as_gate a3 = as_gate a2"
    using st(2) by (auto dest: append_frame_gate split: if_splits)
  moreover have "as_gate a' = as_gate a3"
    using finish_frame_fields(2) [of a3 t] st(3) by simp
  ultimately show ?thesis by simp
qed

lemma asm_run_gate_from: "asm_run b xs = Some (a, evs) \<Longrightarrow> g_cfg (as_gate a) = g_cfg (as_gate b)"
  by (induction xs arbitrary: b evs) (auto simp: bind_eq_Some_conv on_frame_gate_cfg)

lemma asm_run_gate:
  assumes "asm_run (asm_new c) xs = Some (a, evs)"
  shows "g_cfg (as_gate a) = g_cfg (gate_new (cc_gate c))"
  using asm_run_gate_from [OF assms] by (simp add: asm_new_def)

section \<open>After a forced flush\<close>

lemma on_frame_finish:
  assumes "on_frame a f t = Some (a', ev)"
  shows "\<exists>b. finish_frame b t = (a', ev)"
  using assms unfolding on_frame_alt Let_def case_prod_beta bind_eq_Some_conv by auto

lemma finish_frame_max:
  assumes "finish_frame b t = (a', Some ev)" "ce_reason ev = reason_code KMaxLength"
  shows "a' = open_chunk (fst (close_chunk b KMaxLength t)) t" "cc_max_chunk_ms (as_cfg b) \<le> elapsed_ms b t"
  using assms by (auto simp: finish_frame_def close_chunk_def split: if_splits)

section \<open>A concrete configuration\<close>

text \<open>One loud frame opens a chunk, two quiet ones close it, and there is no pre-roll.\<close>

definition sample_config :: "double \<Rightarrow> chunker_config" where
  "sample_config ms = default_chunker_config\<lparr>cc_gate := default_gate_config\<lparr>gc_speech_frames := 1,
     gc_silence_frames := 2\<rparr>, cc_pre_roll_frames := 0, cc_max_chunk_ms := ms, cc_max_chunk_bytes := 64\<rparr>"

lemma is_loud_samples:
  "is_loud (default_gate_config\<lparr>gc_speech_frames := 1, gc_silence_frames := 2\<rparr>) (energy_of_sums 2 200000000 10000)"
  "\<not> is_loud (default_gate_config\<lparr>gc_speech_frames := 1, gc_silence_frames := 2\<rparr>) (energy_of_sums 2 1 1)"
  by code_simp+

lemma gated_sample:
  "gated (asm_new (sample_config ms)) (loud_frame s) t =
    ((gate_new (cc_gate (sample_config ms)))\<lparr>g_loud_frames := 1, g_last_trigger_ms := now_ms_of t,
       g_has_triggered := True, g_speaking := True\<rparr>, True)"
  by (simp add: gated_def asm_new_def gate_new_def sample_config_def gate_accept_def is_loud_samples Let_def)

lemma on_frame_sample:
  assumes "0 < ms"
  shows "\<exists>a. on_frame (asm_new (sample_config ms)) (loud_frame s) t = Some (a, None) \<and> as_active a
    \<and> g_quiet_frames (as_gate a) = 0 \<and> as_t_speech_start_ns a = t \<and> as_cfg a = sample_config ms"
proof -
  have p: "pr_list (as_pre_roll (asm_new (sample_config ms))) = []" by (simp add: asm_new_def)
  have z: "fdiv (f_of_u64 0) 1000000 = 0" by code_simp
  show ?thesis
    using assms by (simp add: on_frame_cases p gated_sample Let_def)
      (simp add: asm_new_def pr_new_def opened_def open_chunk_def pr_list_def pr_size_def appended_def
        gate_new_def finish_frame_def elapsed_ms_def sample_config_def z)
qed

lemma on_frame_sample_max:
  "\<exists>a ev. on_frame (asm_new (sample_config 0)) (loud_frame s) t = Some (a, Some ev)
    \<and> ce_reason ev = reason_code KMaxLength"
proof -
  have p: "pr_list (as_pre_roll (asm_new (sample_config 0))) = []" by (simp add: asm_new_def)
  have z: "fdiv (f_of_u64 0) 1000000 = 0" by code_simp
  show ?thesis
    by (simp add: on_frame_cases p gated_sample Let_def)
      (simp add: asm_new_def pr_new_def opened_def open_chunk_def pr_list_def pr_size_def appended_def
        gate_new_def finish_frame_def elapsed_ms_def sample_config_def close_chunk_def z)
qed

section \<open>Properties\<close>

text \<open>C23: Fed any stream of fewer than \<open>2 ^ 64\<close> frames whose bytes lie inside their payloads, the
  assembler never reads out of bounds, and the events it returns describe consecutive, disjoint
  blocks of the input in order: each event carries the first and last sequence number, the
  frame count, the size of the assembled audio and the format of its block, a block that
  follows a forced flush starts on the next frame, and the chunk ids are 0, 1, 2 and so on.\<close>

theorem chunks_partition_stream:
  assumes "\<forall>x \<in> set xs. frame_ok (fst x)" and "length xs < 2 ^ 64"
  shows "\<exists>a evs cs d rest. asm_run (asm_new c) xs = Some (a, evs)
    \<and> list_all2 (chunk_matches (cc_max_chunk_bytes c)) (outs evs) cs
    \<and> map fst xs = d @ rest \<and> covers cs d
    \<and> map ce_chunk_id (outs evs) = map of_nat [0..<length (outs evs)]"
  using asm_run_new [OF assms, of c] by blast

lemma chunks_partition_stream_witness:
  "\<exists>a evs cs d rest. asm_run (asm_new default_chunker_config) [(loud_frame 1, 5), (quiet_sample 2, 9)] = Some (a, evs)
    \<and> list_all2 (chunk_matches (cc_max_chunk_bytes default_chunker_config)) (outs evs) cs
    \<and> map fst [(loud_frame 1, 5 :: u64), (quiet_sample 2, 9)] = d @ rest \<and> covers cs d"
proof -
  have "\<forall>x \<in> set [(loud_frame 1, 5 :: u64), (quiet_sample 2, 9)]. frame_ok (fst x)"
    "length [(loud_frame 1, 5 :: u64), (quiet_sample 2, 9)] < 2 ^ 64"
    by simp_all
  from chunks_partition_stream [OF this, of default_chunker_config] show ?thesis by blast
qed

text \<open>The audio buffer never grows past the bytes reserved at construction, and the pre-roll
  never holds more frames than configured, whatever the stream.\<close>

theorem chunk_buffer_bounded:
  assumes "\<forall>x \<in> set xs. frame_ok (fst x)" and "length xs < 2 ^ 64"
    and "asm_run (asm_new c) xs = Some (a, evs)"
  shows "length (as_buffer a) \<le> cc_max_chunk_bytes c
    \<and> length (pr_list (as_pre_roll a)) \<le> unat (cc_pre_roll_frames c)"
proof -
  obtain s where "asm_rel (length xs) a s" "as_cfg a = c"
      "pr_cap (as_pre_roll a) = unat (cc_pre_roll_frames c)"
    using asm_run_new [OF assms(1,2), of c] assms(3) by auto
  then show ?thesis using length_pr_list [of "as_pre_roll a"] by (simp add: asm_rel_def)
qed

lemma chunk_buffer_bounded_witness:
  "\<exists>a evs. asm_run (asm_new (sample_config 100)) [(loud_frame 1, 5)] = Some (a, evs)
    \<and> length (as_buffer a) \<le> 64 \<and> pr_list (as_pre_roll a) = []"
proof -
  obtain a where a: "on_frame (asm_new (sample_config 100)) (loud_frame 1) 5 = Some (a, None)"
    using on_frame_sample [of 100 1 5] by auto
  show ?thesis
    using chunk_buffer_bounded [of "[(loud_frame 1, 5)]" "sample_config 100" a "[None]"] a
    by (simp add: sample_config_def)
qed

text \<open>C25: The endpoint is decided exactly \<open>silence_frames\<close> quiet frames after the last loud one:
  from any reachable assembler with an open chunk whose last frame was loud, the quiet frames
  before that emit nothing, and the last of them closes the chunk with reason hangover, at its
  own time, with all of them inside the chunk (unless the length cap intervenes).\<close>

theorem endpoint_after_hangover:
  assumes "\<forall>x \<in> set xs. frame_ok (fst x)" and "length xs + length ys < 2 ^ 64"
    and "asm_run (asm_new c) xs = Some (a, evs)" and "as_active a" and "g_quiet_frames (as_gate a) = 0"
    and "\<forall>y \<in> set ys. quiet_frame c (fst y) \<and> \<not> over_cap a (snd y)"
    and "length ys = unat (gc_silence_frames (cc_gate c))"
  shows "\<exists>b ev fs. asm_run a ys = Some (b, replicate (length ys - 1) None @ [Some ev])
    \<and> \<not> as_active b \<and> ce_t_endpoint_ns ev = snd (last ys)
    \<and> chunk_matches (cc_max_chunk_bytes c) ev (fs @ map fst ys, KHangover)"
proof -
  obtain s where s: "asm_rel (length xs) a s" "as_cfg a = c" and g: "gate_of_cfg a"
    using asm_run_new [OF assms(1), of c] asm_run_gate [OF assms(3)] assms(2,3) by (auto simp: gate_of_cfg_def)
  obtain fs where fs: "snd s = Some fs" using s(1) assms(4) by (cases "snd s") (auto simp: asm_rel_def)
  then have rel: "asm_rel (length xs) a ([], Some fs)" "g_speaking (as_gate a)"
    using s(1) by (auto simp: asm_rel_def)
  have pos: "0 < length ys"
    using rel g s(2) assms(5,7) gate_of_cfg_silence [OF g]
    by (auto simp: asm_rel_def gate_inv_def word_less_nat_alt)
  then obtain zs z where ys: "ys = zs @ [z]" by (metis length_greater_0_conv rev_exhaust)
  obtain f t where z: "z = (f, t)" by (cases z)
  have "\<exists>b. asm_run a zs = Some (b, replicate (length zs) None) \<and> gate_of_cfg b \<and> as_cfg b = as_cfg a
    \<and> asm_rel (length xs + length zs) b ([], Some (fs @ map fst zs))
    \<and> unat (g_quiet_frames (as_gate b)) = unat (g_quiet_frames (as_gate a)) + length zs
    \<and> as_t_speech_start_ns b = as_t_speech_start_ns a"
    by (rule asm_run_quiet [OF rel(1) g]) (use assms(2,5,6,7) s(2) in \<open>auto simp: ys\<close>)
  then obtain b where b: "asm_run a zs = Some (b, replicate (length zs) None)" "gate_of_cfg b"
      "as_cfg b = c" "asm_rel (length xs + length zs) b ([], Some (fs @ map fst zs))"
      "unat (g_quiet_frames (as_gate b)) = length zs"
      "as_t_speech_start_ns b = as_t_speech_start_ns a"
    using s(2) assms(5) by auto
  have act: "as_active b" using b(4) by (simp add: asm_rel_def)
  have q: "quiet_frame (as_cfg b) f" "\<not> over_cap b t"
    using assms(4,6) act b(3,6) s(2) by (auto simp: ys z over_cap_def chunk_start_def)
  have n: "length xs + length zs + 1 < 2 ^ 64" using assms(2) by (simp add: ys)
  obtain e b' where last: "on_frame b f t = Some (b', Some e)" "asm_rel (length xs + length zs + 1) b' ([], None)"
      "ce_t_endpoint_ns e = t" "chunk_matches (cc_max_chunk_bytes c) e ((fs @ map fst zs) @ [f], KHangover)"
    using on_frame_quiet [OF b(4) q(1) n b(2) q(2)] assms(7) b(3,5) by (auto simp: ys)
  have "asm_run a ys = Some (b', replicate (length ys - 1) None @ [Some e])"
    by (simp add: ys asm_run_append b(1) z last(1))
  moreover have "\<not> as_active b'" using last(2) by (simp add: asm_rel_def)
  ultimately show ?thesis using last(3,4) by (intro exI [of _ b'] exI [of _ e] exI [of _ fs]) (simp add: ys z)
qed

lemma endpoint_after_hangover_witness:
  "\<exists>a b ev. asm_run (asm_new (sample_config 100)) [(loud_frame 1, 5)] = Some (a, [None])
    \<and> asm_run a [(quiet_sample 2, 6), (quiet_sample 3, 7)] = Some (b, [None, Some ev])
    \<and> \<not> as_active b \<and> ce_t_endpoint_ns ev = 7"
proof -
  obtain a where a: "on_frame (asm_new (sample_config 100)) (loud_frame 1) 5 = Some (a, None)" "as_active a"
      "g_quiet_frames (as_gate a) = 0" "as_t_speech_start_ns a = 5" "as_cfg a = sample_config 100"
    using on_frame_sample [of 100 1 5] by auto
  have cap: "\<not> over_cap a 6" "\<not> over_cap a 7"
  proof -
    have "fdiv (f_of_u64 1) 1000000 < 100" "fdiv (f_of_u64 2) 1000000 < 100" by code_simp+
    then show "\<not> over_cap a 6" "\<not> over_cap a 7"
      by (simp_all add: over_cap_def chunk_start_def a sample_config_def)
  qed
  have q: "quiet_frame (sample_config 100) (quiet_sample s)" for s
    using is_loud_samples(2) by (simp add: quiet_frame_def sample_config_def)
  have "\<exists>b ev fs. asm_run a [(quiet_sample 2, 6), (quiet_sample 3, 7)] =
      Some (b, replicate (length [(quiet_sample 2, 6 :: u64), (quiet_sample 3, 7)] - 1) None @ [Some ev])
    \<and> \<not> as_active b \<and> ce_t_endpoint_ns ev = snd (last [(quiet_sample 2, 6), (quiet_sample 3, 7)])
    \<and> chunk_matches (cc_max_chunk_bytes (sample_config 100)) ev
        (fs @ map fst [(quiet_sample 2, 6 :: u64), (quiet_sample 3, 7)], KHangover)"
    by (rule endpoint_after_hangover [of "[(loud_frame 1, 5)]" _ _ _ "[None]"])
      (use a cap q in \<open>auto simp: sample_config_def\<close>)
  then show ?thesis using a(1) by auto
qed

text \<open>The length cap bounds how long a chunk can stay open: after any frame that leaves a
  chunk open without closing one, the chunk is younger than the cap.\<close>

theorem open_chunk_younger_than_cap:
  assumes "on_frame a f t = Some (a', None)" and "as_active a'"
  shows "elapsed_ms a' t < cc_max_chunk_ms (as_cfg a')"
proof -
  obtain b where "finish_frame b t = (a', None)" using on_frame_finish [OF assms(1)] by blast
  then show ?thesis using assms(2) by (auto simp: finish_frame_def case_prod_beta split: if_splits)
qed

lemma open_chunk_younger_than_cap_witness:
  "\<exists>a. on_frame (asm_new (sample_config 100)) (loud_frame 1) 5 = Some (a, None)
    \<and> elapsed_ms a 5 < cc_max_chunk_ms (as_cfg a)"
  using on_frame_sample [of 100 1 5] open_chunk_younger_than_cap by fastforce

text \<open>C26: A forced flush hands out an event whose audio is already gone: when \<open>on_frame\<close> returns
  an event with reason max-length, the buffer that should hold the chunk's audio is empty, and a
  stream end right after it closes a second chunk with no frames and sequence numbers 0.\<close>

theorem forced_flush_discards_audio:
  assumes "on_frame a f t = Some (a', Some ev)" and "ce_reason ev = reason_code KMaxLength"
  shows "as_buffer a' = [] \<and> as_active a'
    \<and> (\<exists>a'' ev'. flush a' u = (a'', Some ev') \<and> ce_frame_count ev' = 0 \<and> ce_byte_count ev' = 0
          \<and> ce_first_seq ev' = 0 \<and> ce_last_seq ev' = 0)"
proof -
  obtain b where "finish_frame b t = (a', Some ev)" using on_frame_finish [OF assms(1)] by blast
  from finish_frame_max(1) [OF this assms(2)] show ?thesis
    by (simp add: open_chunk_def close_chunk_def flush_def)
qed

lemma forced_flush_discards_audio_witness:
  "\<exists>a ev a' ev'. on_frame (asm_new (sample_config 0)) (loud_frame 1) 5 = Some (a, Some ev)
    \<and> as_buffer a = [] \<and> flush a 6 = (a', Some ev') \<and> ce_frame_count ev' = 0"
  using on_frame_sample_max [of 1 5] forced_flush_discards_audio [of _ "loud_frame 1" 5 _ _ 6] by blast

end
