(* ===== verification/Session_Table.thy ===== *)
theory Session_Table
  imports Chunker_Props
begin

text \<open>
  The session table of \<open>include/vhp/session.hpp\<close>: preallocated sessions, an open-addressed index
  with tombstones from call ids to sessions, and a free list. This theory holds the state and the
  operations as the class has them, and the invariant each operation keeps;
  \<open>Session_Props\<close> states what clients rely on. A \<open>std::size_t\<close> slot is a \<^typ>\<open>nat\<close>; the loops that
  visit every slot at most once count the probes left, and the unbounded loop of the rebuild
  returns \<^const>\<open>None\<close> when it would never meet an empty slot.
\<close>

section \<open>State\<close>

record session =
  ss_assembler :: assembler
  ss_id :: u32
  ss_active :: bool
  ss_prev_frame_ns :: u64
  ss_last_frame_ns :: u64
  ss_last_loud_produce_ns :: u64
  ss_last_seq :: u64
  ss_frames :: u64
  ss_have_last_seq :: bool

record session_table =
  st_max :: u32
  st_mask :: nat
  st_slots :: "u32 list"
  st_sessions :: "session list"
  st_free :: "u32 list"
  st_tombstones :: nat
  st_live :: u32
  st_peak_live :: u32
  st_opened :: u64
  st_rejected :: u64

definition kEmpty :: u32 where
  "kEmpty = 0xFFFFFFFF"

definition kTombstone :: u32 where
  "kTombstone = 0xFFFFFFFE"

section \<open>Operations\<close>

definition session_new :: "chunker_config \<Rightarrow> session" where
  "session_new c = \<lparr>ss_assembler = asm_new c, ss_id = 0, ss_active = False, ss_prev_frame_ns = 0,
     ss_last_frame_ns = 0, ss_last_loud_produce_ns = 0, ss_last_seq = 0, ss_frames = 0,
     ss_have_last_seq = False\<rparr>"

text \<open>The loop of \<open>next_pow2\<close>; it starts from 1, so the first test of the guard is always true.\<close>

function grow_pow2 :: "nat \<Rightarrow> nat \<Rightarrow> nat" where
  "grow_pow2 result value = (if 0 < result \<and> result < value then grow_pow2 (push_bit 1 result) value else result)"
  by pat_completeness auto
termination
  by (relation "measure (\<lambda>(r, v). v - r)") auto

declare grow_pow2.simps [simp del]

definition next_pow2 :: "nat \<Rightarrow> nat" where
  "next_pow2 value = grow_pow2 1 value"

definition table_new :: "u32 \<Rightarrow> chunker_config \<Rightarrow> session_table" where
  "table_new max_sessions config =
    (let m = (if max_sessions = 0 then 1 else max_sessions);
         smask = next_pow2 (unat m * 2) - 1
     in \<lparr>st_max = m, st_mask = smask, st_slots = replicate (smask + 1) kEmpty,
         st_sessions = replicate (unat m) (session_new config),
         st_free = map of_nat (rev [0..<unat m]), st_tombstones = 0, st_live = 0, st_peak_live = 0,
         st_opened = 0, st_rejected = 0\<rparr>)"

definition probe_start :: "nat \<Rightarrow> u32 \<Rightarrow> nat" where
  "probe_start smask sid =
    unat (drop_bit 32 ((ucast sid :: u64) * 0x9E3779B97F4A7C15)) AND smask"

text \<open>The probe loop of \<open>acquire\<close>, with the number of probes left: the session found, or the slot
  to insert at, \<^const>\<open>None\<close> standing for \<open>kNoSlot\<close>.\<close>

datatype probe_result = Found u32 | Insert_at "nat option"

fun probe :: "session_table \<Rightarrow> u32 \<Rightarrow> nat \<Rightarrow> nat \<Rightarrow> nat option \<Rightarrow> probe_result" where
  "probe t sid 0 slot first_tomb = Insert_at first_tomb"
| "probe t sid (Suc left) slot first_tomb =
    (let occupant = st_slots t ! slot;
         continue = probe t sid left ((slot + 1) AND st_mask t)
     in if occupant = kEmpty then Insert_at (if first_tomb \<noteq> None then first_tomb else Some slot)
        else if occupant = kTombstone then
          continue (if first_tomb = None then Some slot else first_tomb)
        else
          (let candidate = st_sessions t ! unat occupant
           in if ss_active candidate \<and> ss_id candidate = sid then Found occupant
              else continue first_tomb))"

text \<open>The pointer \<open>acquire\<close> returns is the index of the session, \<^const>\<open>None\<close> for \<open>nullptr\<close>.\<close>

definition acquire :: "session_table \<Rightarrow> u32 \<Rightarrow> u64 \<Rightarrow> session_table \<times> nat option" where
  "acquire t sid now_ns =
    (case probe t sid (st_mask t + 1) (probe_start (st_mask t) sid) None of
       Found occupant \<Rightarrow>
         (let i = unat occupant
          in (t\<lparr>st_sessions := (st_sessions t)[i := (st_sessions t ! i)\<lparr>ss_last_frame_ns := now_ns\<rparr>]\<rparr>, Some i))
     | Insert_at ins \<Rightarrow>
         (case ins of
            None \<Rightarrow> (t\<lparr>st_rejected := st_rejected t + 1\<rparr>, None)
          | Some s \<Rightarrow>
              if st_free t = [] then (t\<lparr>st_rejected := st_rejected t + 1\<rparr>, None)
              else
                (let index = last (st_free t); i = unat index;
                     live = st_live t + 1
                 in (t\<lparr>st_tombstones := (if st_slots t ! s = kTombstone then st_tombstones t - 1
                                          else st_tombstones t),
                       st_free := butlast (st_free t),
                       st_slots := (st_slots t)[s := index],
                       st_sessions := (st_sessions t)[i := (st_sessions t ! i)
                         \<lparr>ss_id := sid, ss_active := True, ss_prev_frame_ns := 0, ss_last_frame_ns := now_ns,
                          ss_last_loud_produce_ns := 0, ss_have_last_seq := False, ss_frames := 0\<rparr>],
                       st_live := live, st_opened := st_opened t + 1,
                       st_peak_live := (if live > st_peak_live t then live else st_peak_live t)\<rparr>,
                     Some i))))"

text \<open>The loop of \<open>release\<close>: the slot that holds the index, unless an empty slot comes first.\<close>

fun find_slot :: "session_table \<Rightarrow> u32 \<Rightarrow> nat \<Rightarrow> nat \<Rightarrow> nat option" where
  "find_slot t index 0 slot = None"
| "find_slot t index (Suc left) slot =
    (if st_slots t ! slot = index then Some slot
     else if st_slots t ! slot = kEmpty then None
     else find_slot t index left ((slot + 1) AND st_mask t))"

definition release :: "session_table \<Rightarrow> nat \<Rightarrow> session_table" where
  "release t i =
    (let index = of_nat i;
         s = st_sessions t ! i;
         t = (case find_slot t index (st_mask t + 1) (probe_start (st_mask t) (ss_id s)) of
                None \<Rightarrow> t
              | Some slot \<Rightarrow> t\<lparr>st_slots := (st_slots t)[slot := kTombstone], st_tombstones := st_tombstones t + 1\<rparr>)
     in t\<lparr>st_sessions := (st_sessions t)[i := s\<lparr>ss_active := False\<rparr>],
          st_free := st_free t @ [index],
          st_live := (if st_live t > 0 then st_live t - 1 else st_live t)\<rparr>)"

text \<open>The body both sweeps share: flush the open chunk, hand it to \<open>emit\<close>, release the session.\<close>

definition close_session :: "session_table \<Rightarrow> u64 \<Rightarrow> nat \<Rightarrow> session_table \<times> chunk_event list" where
  "close_session t now_ns i =
    (let s = st_sessions t ! i;
         (a, tail) = flush (ss_assembler s) now_ns;
         t = t\<lparr>st_sessions := (st_sessions t)[i := s\<lparr>ss_assembler := a\<rparr>]\<rparr>
     in (release t i, case tail of None \<Rightarrow> [] | Some ev \<Rightarrow> [ev\<lparr>ce_session_id := ss_id s\<rparr>]))"

text \<open>A sweep over the indices that closes those \<open>p\<close> selects; the second component is what was
  handed to \<open>emit\<close>, in order.\<close>

fun sweep :: "(session \<Rightarrow> bool) \<Rightarrow> u64 \<Rightarrow> session_table \<Rightarrow> nat list \<Rightarrow> session_table \<times> chunk_event list" where
  "sweep p now_ns t [] = (t, [])"
| "sweep p now_ns t (i # is) =
    (if p (st_sessions t ! i)
     then (case close_session t now_ns i of (t, evs) \<Rightarrow>
             case sweep p now_ns t is of (t, evs') \<Rightarrow> (t, evs @ evs'))
     else sweep p now_ns t is)"

text \<open>The inner loop of the rebuild; there is an empty slot among all of them or it never ends.\<close>

fun first_empty :: "u32 list \<Rightarrow> nat \<Rightarrow> nat \<Rightarrow> nat \<Rightarrow> nat option" where
  "first_empty slots smask 0 slot = None"
| "first_empty slots smask (Suc left) slot =
    (if slots ! slot = kEmpty then Some slot else first_empty slots smask left ((slot + 1) AND smask))"

fun rebuild :: "session list \<Rightarrow> nat \<Rightarrow> u32 list \<Rightarrow> nat list \<Rightarrow> u32 list option" where
  "rebuild sessions smask slots [] = Some slots"
| "rebuild sessions smask slots (i # is) =
    (if \<not> ss_active (sessions ! i) then rebuild sessions smask slots is
     else do {
       slot \<leftarrow> first_empty slots smask (smask + 1) (probe_start smask (ss_id (sessions ! i)));
       rebuild sessions smask (slots[slot := of_nat i]) is
     })"

definition maybe_rebuild :: "session_table \<Rightarrow> session_table option" where
  "maybe_rebuild t =
    (if st_tombstones t * 4 \<le> length (st_slots t) then Some t
     else map_option (\<lambda>slots. t\<lparr>st_slots := slots, st_tombstones := 0\<rparr>)
       (rebuild (st_sessions t) (st_mask t) (replicate (length (st_slots t)) kEmpty) [0..<unat (st_max t)]))"

definition is_idle :: "u64 \<Rightarrow> u64 \<Rightarrow> session \<Rightarrow> bool" where
  "is_idle now_ns idle_ns s \<longleftrightarrow> \<not> (\<not> ss_active s \<or> now_ns - ss_last_frame_ns s < idle_ns)"

definition expire_idle :: "session_table \<Rightarrow> u64 \<Rightarrow> u64 \<Rightarrow> (session_table \<times> chunk_event list) option" where
  "expire_idle t now_ns idle_ns =
    (case sweep (is_idle now_ns idle_ns) now_ns t [0..<unat (st_max t)] of
       (t, evs) \<Rightarrow> map_option (\<lambda>t. (t, evs)) (maybe_rebuild t))"

definition flush_all :: "session_table \<Rightarrow> u64 \<Rightarrow> (session_table \<times> chunk_event list) option" where
  "flush_all t now_ns =
    (case sweep ss_active now_ns t [0..<unat (st_max t)] of
       (t, evs) \<Rightarrow> map_option (\<lambda>t. (t, evs)) (maybe_rebuild t))"

section \<open>Positions of a probe chain\<close>

lemma grow_pow2_pow:
  "\<exists>k. grow_pow2 (2 ^ j) v = 2 ^ k \<and> v \<le> 2 ^ k \<and> j \<le> k"
proof (induction "v - 2 ^ j" arbitrary: j rule: less_induct)
  case less
  show ?case
  proof (cases "2 ^ j < v")
    case True
    have e: "push_bit 1 (2 ^ j :: nat) = 2 ^ Suc j" by (simp add: push_bit_eq_mult)
    have "v - 2 ^ Suc j < v - 2 ^ j" using True by (intro diff_less_mono2) auto
    then obtain k where "grow_pow2 (2 ^ Suc j) v = 2 ^ k \<and> v \<le> 2 ^ k \<and> Suc j \<le> k" using less by blast
    then show ?thesis using True e by (subst grow_pow2.simps) (auto simp: mult.commute)
  next
    case False
    then show ?thesis by (subst grow_pow2.simps) auto
  qed
qed

lemma next_pow2_pow: "\<exists>k. next_pow2 v = 2 ^ k \<and> v \<le> 2 ^ k"
  using grow_pow2_pow [of 0 v] by (auto simp: next_pow2_def)

text \<open>The slot reached after \<open>d\<close> steps from where the chain of an id starts.\<close>

definition chain :: "session_table \<Rightarrow> u32 \<Rightarrow> nat \<Rightarrow> nat" where
  "chain t sid d = (probe_start (st_mask t) sid + d) mod length (st_slots t)"

definition slots_wf :: "session_table \<Rightarrow> bool" where
  "slots_wf t \<longleftrightarrow> st_mask t + 1 = length (st_slots t) \<and> (\<exists>k. length (st_slots t) = 2 ^ k)"

lemma slots_wf_and:
  assumes "slots_wf t"
  shows "n AND st_mask t = n mod length (st_slots t)" "0 < length (st_slots t)"
proof -
  obtain k where "length (st_slots t) = 2 ^ k" "st_mask t = 2 ^ k - 1"
    using assms by (auto simp: slots_wf_def)
  then show "n AND st_mask t = n mod length (st_slots t)" "0 < length (st_slots t)"
    using nat_and_mask [of n k] by auto
qed

lemma chain_facts:
  assumes "slots_wf t"
  shows "chain t sid d < length (st_slots t)" "probe_start (st_mask t) sid = chain t sid 0"
    "(chain t sid d + 1) AND st_mask t = chain t sid (Suc d)"
  using slots_wf_and [OF assms] by (simp_all add: chain_def probe_start_def mod_Suc_eq)

lemma chain_surj:
  assumes "slots_wf t" "s < length (st_slots t)"
  shows "\<exists>d < length (st_slots t). chain t sid d = s"
proof -
  define n where "n = length (st_slots t)"
  define p where "p = probe_start (st_mask t) sid"
  have p: "p < n" using chain_facts(1) [OF assms(1), of sid 0] chain_facts(2) [OF assms(1), of sid] by (simp add: p_def n_def)
  have s: "s < n" using assms(2) by (simp add: n_def)
  show ?thesis
  proof (cases "p \<le> s")
    case True
    then show ?thesis using s by (intro exI [of _ "s - p"]) (simp add: chain_def n_def p_def)
  next
    case False
    then have "(p + (n + s - p)) mod n = s" "n + s - p < n" using s p by simp_all
    then show ?thesis by (intro exI [of _ "n + s - p"]) (simp add: chain_def n_def p_def)
  qed
qed

section \<open>The invariant\<close>

definition is_index :: "u32 \<Rightarrow> bool" where
  "is_index w \<longleftrightarrow> w \<noteq> kEmpty \<and> w \<noteq> kTombstone"

abbreviation sess :: "session_table \<Rightarrow> nat \<Rightarrow> session" where
  "sess t i \<equiv> st_sessions t ! i"

text \<open>Session \<open>i\<close> is indexed by exactly one slot, on its own probe chain, with no empty slot before it.\<close>

definition indexed :: "session_table \<Rightarrow> nat \<Rightarrow> bool" where
  "indexed t i \<longleftrightarrow> (\<exists>d < length (st_slots t). st_slots t ! chain t (ss_id (sess t i)) d = of_nat i
      \<and> (\<forall>e < d. st_slots t ! chain t (ss_id (sess t i)) e \<noteq> kEmpty)
      \<and> (\<forall>s < length (st_slots t). st_slots t ! s = of_nat i \<longrightarrow> s = chain t (ss_id (sess t i)) d))"

definition shape_ok :: "session_table \<Rightarrow> bool" where
  "shape_ok t \<longleftrightarrow> slots_wf t \<and> length (st_sessions t) = unat (st_max t)
    \<and> 2 * unat (st_max t) \<le> length (st_slots t) \<and> 0 < unat (st_max t) \<and> st_max t < kTombstone"

definition index_ok :: "session_table \<Rightarrow> bool" where
  "index_ok t \<longleftrightarrow>
    (\<forall>s < length (st_slots t). is_index (st_slots t ! s) \<longrightarrow>
       unat (st_slots t ! s) < unat (st_max t) \<and> ss_active (sess t (unat (st_slots t ! s))))
    \<and> (\<forall>i < unat (st_max t). ss_active (sess t i) \<longrightarrow> indexed t i)
    \<and> (\<forall>i < unat (st_max t). \<forall>j < unat (st_max t).
         ss_active (sess t i) \<and> ss_active (sess t j) \<and> ss_id (sess t i) = ss_id (sess t j) \<longrightarrow> i = j)"

definition live_set :: "session_table \<Rightarrow> nat set" where
  "live_set t = {i. i < unat (st_max t) \<and> ss_active (sess t i)}"

definition counts_ok :: "session_table \<Rightarrow> bool" where
  "counts_ok t \<longleftrightarrow> distinct (st_free t) \<and> unat ` set (st_free t) = {..<unat (st_max t)} - live_set t
    \<and> unat (st_live t) = card (live_set t) \<and> st_live t \<le> st_peak_live t
    \<and> st_tombstones t = count_list (st_slots t) kTombstone"

definition table_inv :: "session_table \<Rightarrow> bool" where
  "table_inv t \<longleftrightarrow> shape_ok t \<and> index_ok t \<and> counts_ok t"

text \<open>Between calls the tombstones are at most a quarter of the slots.\<close>

definition table_ok :: "session_table \<Rightarrow> bool" where
  "table_ok t \<longleftrightarrow> table_inv t \<and> st_tombstones t * 4 \<le> length (st_slots t)"

text \<open>What the table means: the live session of a call id.\<close>

definition view :: "session_table \<Rightarrow> u32 \<Rightarrow> nat option" where
  "view t sid = map_of (map (\<lambda>i. (ss_id (sess t i), i)) (filter (\<lambda>i. ss_active (sess t i)) [0..<unat (st_max t)])) sid"

lemma finite_live_set [simp]: "finite (live_set t)"
  by (simp add: live_set_def)

lemma card_live_set: "card (live_set t) \<le> unat (st_max t)"
  using card_mono [of "{..<unat (st_max t)}" "live_set t"] by (auto simp: live_set_def)

lemma view_Some:
  assumes "index_ok t"
  shows "view t sid = Some i \<longleftrightarrow> i < unat (st_max t) \<and> ss_active (sess t i) \<and> ss_id (sess t i) = sid"
proof -
  have "distinct (map fst (map (\<lambda>i. (ss_id (sess t i), i)) (filter (\<lambda>i. ss_active (sess t i)) [0..<unat (st_max t)])))"
    using assms by (auto simp: index_ok_def distinct_map inj_on_def)
  from map_of_eq_Some_iff [OF this] show ?thesis by (auto simp: view_def)
qed

lemma view_None:
  assumes "index_ok t"
  shows "view t sid = None \<longleftrightarrow> (\<forall>i < unat (st_max t). ss_active (sess t i) \<longrightarrow> ss_id (sess t i) \<noteq> sid)"
  using view_Some [OF assms] by (metis not_Some_eq)

lemma view_inj:
  assumes "index_ok t"
  shows "inj_on (view t) (dom (view t))"
  by (rule inj_onI) (metis assms domD view_Some)

lemma ran_view:
  assumes "index_ok t"
  shows "ran (view t) = live_set t"
  using view_Some [OF assms] by (auto simp: ran_def live_set_def)

lemma card_dom_view:
  assumes "index_ok t"
  shows "card (dom (view t)) = card (live_set t)"
proof -
  have "ran (view t) = (\<lambda>x. the (view t x)) ` dom (view t)" by (force simp: ran_def)
  moreover have "inj_on (\<lambda>x. the (view t x)) (dom (view t))"
    using view_inj [OF assms] by (auto simp: inj_on_def dom_def)
  ultimately show ?thesis using ran_view [OF assms] card_image by metis
qed

section \<open>Lookup\<close>

text \<open>What the probe finds, started \<open>d\<close> steps along the chain.\<close>

abbreviation at_chain :: "session_table \<Rightarrow> u32 \<Rightarrow> nat \<Rightarrow> u32" where
  "at_chain t sid d \<equiv> st_slots t ! chain t sid d"

definition matches :: "session_table \<Rightarrow> u32 \<Rightarrow> u32 \<Rightarrow> bool" where
  "matches t sid w \<longleftrightarrow> is_index w \<and> ss_active (sess t (unat w)) \<and> ss_id (sess t (unat w)) = sid"

text \<open>No match and no empty slot from step \<open>d\<close> up to step \<open>m\<close>, where there is an empty slot or the chain
  has come round; and where an insertion goes after such a scan.\<close>

definition scanned :: "session_table \<Rightarrow> u32 \<Rightarrow> nat \<Rightarrow> nat \<Rightarrow> bool" where
  "scanned t sid d m \<longleftrightarrow> d \<le> m \<and> m \<le> length (st_slots t)
    \<and> (m < length (st_slots t) \<longrightarrow> at_chain t sid m = kEmpty)
    \<and> (\<forall>e. d \<le> e \<and> e < m \<longrightarrow> at_chain t sid e \<noteq> kEmpty \<and> \<not> matches t sid (at_chain t sid e))"

definition place :: "session_table \<Rightarrow> u32 \<Rightarrow> nat \<Rightarrow> nat \<Rightarrow> nat option \<Rightarrow> bool" where
  "place t sid d m ins \<longleftrightarrow>
    (case ins of
       Some s \<Rightarrow> \<exists>e \<le> m. d \<le> e \<and> e < length (st_slots t) \<and> s = chain t sid e \<and> \<not> is_index (st_slots t ! s)
     | None \<Rightarrow> m = length (st_slots t) \<and> (\<forall>e. d \<le> e \<and> e < m \<longrightarrow> is_index (at_chain t sid e)))"

definition probe_post :: "session_table \<Rightarrow> u32 \<Rightarrow> nat \<Rightarrow> nat option \<Rightarrow> probe_result \<Rightarrow> bool" where
  "probe_post t sid d tomb r \<longleftrightarrow>
    (case r of
       Found w \<Rightarrow> matches t sid w \<and> (\<exists>e < length (st_slots t). at_chain t sid e = w)
     | Insert_at ins \<Rightarrow>
         (\<exists>m. scanned t sid d m \<and> (if tomb = None then place t sid d m ins else ins = tomb)))"

lemma all_from:
  assumes "d < m"
  shows "(\<forall>e. d \<le> e \<and> e < m \<longrightarrow> P e) \<longleftrightarrow> P d \<and> (\<forall>e. Suc d \<le> e \<and> e < m \<longrightarrow> P e)"
  using assms by (metis Suc_le_eq le_eq_less_or_eq)

lemma scanned_back:
  assumes "scanned t sid (Suc d) m" "at_chain t sid d \<noteq> kEmpty" "\<not> matches t sid (at_chain t sid d)"
  shows "scanned t sid d m"
proof -
  have "d < m" using assms(1) by (simp add: scanned_def)
  then show ?thesis using assms unfolding scanned_def all_from [OF \<open>d < m\<close>] by simp
qed

lemma place_back:
  assumes "place t sid (Suc d) m ins" "is_index (at_chain t sid d)" "Suc d \<le> m"
  shows "place t sid d m ins"
proof (cases ins)
  case None
  have "d < m" using assms(3) by simp
  then show ?thesis using assms None unfolding place_def all_from [OF \<open>d < m\<close>] by simp
next
  case (Some s)
  then show ?thesis using assms by (auto simp: place_def dest: Suc_leD)
qed

text \<open>One step of the loop over a slot that neither ends it nor matches.\<close>

lemma probe_post_step:
  assumes r: "probe_post t sid (Suc d) tomb' r" and w: "at_chain t sid d \<noteq> kEmpty" "\<not> matches t sid (at_chain t sid d)"
    and ins: "\<And>m ins. r = Insert_at ins \<Longrightarrow> scanned t sid (Suc d) m \<Longrightarrow>
      (if tomb' = None then place t sid (Suc d) m ins else ins = tomb') \<Longrightarrow>
      (if tomb = None then place t sid d m ins else ins = tomb)"
  shows "probe_post t sid d tomb r"
proof (cases r)
  case (Found v)
  then show ?thesis using r by (simp add: probe_post_def)
next
  case (Insert_at i)
  then obtain m where m: "scanned t sid (Suc d) m" "if tomb' = None then place t sid (Suc d) m i else i = tomb'"
    using r by (auto simp: probe_post_def)
  show ?thesis
    using scanned_back [OF m(1) w] ins [OF Insert_at m] unfolding Insert_at probe_post_def by auto
qed

lemma probe_post_tombstone:
  assumes r: "probe_post t sid (Suc d) (if tomb = None then Some (chain t sid d) else tomb) r"
    and w: "at_chain t sid d = kTombstone" "d < length (st_slots t)"
  shows "probe_post t sid d tomb r"
proof (rule probe_post_step [OF r])
  show "at_chain t sid d \<noteq> kEmpty" "\<not> matches t sid (at_chain t sid d)"
    using w(1) by (simp_all add: matches_def is_index_def kEmpty_def kTombstone_def)
  show "if tomb = None then place t sid d m ins else ins = tomb"
    if "scanned t sid (Suc d) m" "if (if tomb = None then Some (chain t sid d) else tomb) = None
      then place t sid (Suc d) m ins else ins = (if tomb = None then Some (chain t sid d) else tomb)" for m ins
    using that w by (auto simp: scanned_def place_def is_index_def intro!: exI [of _ d] split: if_splits)
qed

lemma probe_spec:
  assumes "slots_wf t" "d + left = length (st_slots t)"
  shows "probe_post t sid d tomb (probe t sid left (chain t sid d) tomb)"
  using assms(2)
proof (induction left arbitrary: d tomb)
  case 0
  then show ?case
    by (auto simp: probe_post_def scanned_def place_def split: option.splits intro!: exI [of _ d])
next
  case (Suc left)
  define w where "w = at_chain t sid d"
  have lt: "d < length (st_slots t)" using Suc.prems by simp
  note next_slot = chain_facts(3) [OF assms(1), of sid d]
  have ih: "probe_post t sid (Suc d) tomb' (probe t sid left (chain t sid (Suc d)) tomb')" for tomb'
    using Suc.IH [of "Suc d"] Suc.prems by simp
  consider "w = kEmpty" | "w = kTombstone" "w \<noteq> kEmpty" | "matches t sid w" | "is_index w" "\<not> matches t sid w"
    by (auto simp: is_index_def)
  then show ?case
  proof cases
    case 1
    then have e: "probe t sid (Suc left) (chain t sid d) tomb
        = Insert_at (if tomb \<noteq> None then tomb else Some (chain t sid d))"
      by (simp add: w_def)
    have "scanned t sid d d" "place t sid d d (Some (chain t sid d))"
      using 1 lt by (auto simp: scanned_def place_def w_def is_index_def)
    then show ?thesis unfolding e probe_post_def by auto
  next
    case 2
    then have "probe t sid (Suc left) (chain t sid d) tomb
        = probe t sid left (chain t sid (Suc d)) (if tomb = None then Some (chain t sid d) else tomb)"
      using next_slot by (simp add: w_def)
    then show ?thesis using probe_post_tombstone [OF ih] 2(1) lt by (simp only: w_def)
  next
    case 3
    then have "probe t sid (Suc left) (chain t sid d) tomb = Found w"
      by (simp add: w_def matches_def is_index_def Let_def)
    then show ?thesis using 3 lt by (auto simp: probe_post_def w_def)
  next
    case 4
    then have e: "probe t sid (Suc left) (chain t sid d) tomb = probe t sid left (chain t sid (Suc d)) tomb"
      using next_slot by (auto simp: w_def matches_def is_index_def Let_def)
    show ?thesis
      unfolding e by (rule probe_post_step [OF ih])
        (use 4 in \<open>auto simp: w_def is_index_def scanned_def intro!: place_back split: if_splits\<close>)
  qed
qed

lemma probe_from_start:
  assumes "slots_wf t"
  shows "probe_post t sid 0 None (probe t sid (st_mask t + 1) (probe_start (st_mask t) sid) None)"
  unfolding chain_facts(2) [OF assms] by (rule probe_spec [OF assms]) (use assms in \<open>simp add: slots_wf_def\<close>)

text \<open>On a well-formed table the probe decides liveness, and an insertion goes to a free slot with no
  empty slot before it on the chain.\<close>

lemma probe_live:
  assumes "table_inv t" "view t sid = Some i"
  shows "probe t sid (st_mask t + 1) (probe_start (st_mask t) sid) None = Found (of_nat i)"
proof -
  have wf: "slots_wf t" "st_mask t + 1 = length (st_slots t)" "index_ok t" "st_max t < kTombstone"
    using assms(1) by (auto simp: table_inv_def shape_ok_def slots_wf_def)
  note v = iffD1 [OF view_Some [OF wf(3)] assms(2)]
  have "indexed t i" using v wf(3) by (auto simp: index_ok_def)
  then obtain d where d: "d < length (st_slots t)" "at_chain t sid d = of_nat i"
      "\<And>e. e < d \<Longrightarrow> at_chain t sid e \<noteq> kEmpty"
    using v by (auto simp: indexed_def)
  have lt: "i < 2 ^ 32" using v unat_u32_less [of "st_max t"] by simp
  then have u: "unat (of_nat i :: u32) = i" by (simp add: unat_of_nat_small)
  then have "of_nat i < kTombstone" using v wf(4) by (simp add: word_less_nat_alt)
  then have "is_index (of_nat i)" by (auto simp: is_index_def kEmpty_def kTombstone_def)
  then have m: "matches t sid (of_nat i)" using v by (simp add: matches_def u)
  note post = probe_from_start [OF wf(1), of sid]
  show ?thesis
  proof (cases "probe t sid (st_mask t + 1) (probe_start (st_mask t) sid) None")
    case (Found w)
    then have w: "matches t sid w" "\<exists>e < length (st_slots t). at_chain t sid e = w"
      using post by (auto simp: probe_post_def)
    then have "unat w < unat (st_max t)"
      using wf(3) chain_facts(1) [OF wf(1)] by (auto simp: index_ok_def matches_def)
    then have "unat w = i" using w(1) v wf(3) by (auto simp: index_ok_def matches_def)
    then have "of_nat (unat w) = (of_nat i :: u32)" by simp
    then show ?thesis using Found by simp
  next
    case (Insert_at ins)
    then obtain k where "scanned t sid 0 k" using post by (auto simp: probe_post_def)
    then have k: "k \<le> length (st_slots t)" "k < length (st_slots t) \<Longrightarrow> at_chain t sid k = kEmpty"
        "\<And>e. e < k \<Longrightarrow> \<not> matches t sid (at_chain t sid e)"
      by (auto simp: scanned_def)
    have "\<not> d < k" using k(3) [of d] d(2) m by auto
    then have "k < d \<or> k = d" by auto
    then show ?thesis using k(2) d m by (auto simp: matches_def is_index_def)
  qed
qed

lemma probe_absent:
  assumes "table_inv t" "view t sid = None"
  shows "\<exists>ins m. probe t sid (st_mask t + 1) (probe_start (st_mask t) sid) None = Insert_at ins
    \<and> scanned t sid 0 m \<and> place t sid 0 m ins"
proof -
  have wf: "slots_wf t" "st_mask t + 1 = length (st_slots t)" "index_ok t"
    using assms(1) by (auto simp: table_inv_def shape_ok_def slots_wf_def)
  note post = probe_from_start [OF wf(1), of sid]
  show ?thesis
  proof (cases "probe t sid (st_mask t + 1) (probe_start (st_mask t) sid) None")
    case (Found w)
    then have w: "matches t sid w" "\<exists>e < length (st_slots t). at_chain t sid e = w"
      using post by (auto simp: probe_post_def)
    then have "unat w < unat (st_max t)"
      using wf(3) chain_facts(1) [OF wf(1)] by (auto simp: index_ok_def matches_def)
    then show ?thesis using w(1) iffD1 [OF view_None [OF wf(3)] assms(2)] by (auto simp: matches_def)
  next
    case (Insert_at ins)
    then show ?thesis using post by (auto simp: probe_post_def)
  qed
qed

end
