(* ===== verification/Session_Inv.thy ===== *)
theory Session_Inv
  imports Session_Table
begin

text \<open>
  Every operation of the session table keeps its invariant, and what it does to the view of the
  table as a map from call ids to sessions.
\<close>

section \<open>Indices\<close>

lemma shape_index:
  assumes "shape_ok t" "i < unat (st_max t)"
  shows "unat (of_nat i :: u32) = i" "is_index (of_nat i)" "i < length (st_sessions t)"
proof -
  have "i < 2 ^ 32" using assms(2) unat_u32_less [of "st_max t"] by simp
  then show u: "unat (of_nat i :: u32) = i" by (simp add: unat_of_nat_small)
  have "of_nat i < st_max t" using u assms(2) by (simp add: word_less_nat_alt)
  then have "of_nat i < kTombstone"
    using assms(1) unfolding shape_ok_def by (blast intro: order.strict_trans)
  then show "is_index (of_nat i)" by (auto simp: is_index_def kEmpty_def kTombstone_def)
  show "i < length (st_sessions t)" using assms by (simp add: shape_ok_def)
qed

lemma of_nat_index_inj:
  assumes "shape_ok t" "i < unat (st_max t)" "j < unat (st_max t)"
  shows "(of_nat i :: u32) = of_nat j \<longleftrightarrow> i = j"
  by (metis assms shape_index(1))

lemma indexed_mono:
  assumes "indexed t j" "length (st_slots t') = length (st_slots t)" "st_mask t' = st_mask t"
    "ss_id (sess t' j) = ss_id (sess t j)"
    "\<And>s. s < length (st_slots t) \<Longrightarrow> (st_slots t' ! s = of_nat j) = (st_slots t ! s = of_nat j)"
    "\<And>s. s < length (st_slots t) \<Longrightarrow> st_slots t ! s \<noteq> kEmpty \<Longrightarrow> st_slots t' ! s \<noteq> kEmpty"
    "slots_wf t"
  shows "indexed t' j"
proof -
  have c: "chain t' sid d = chain t sid d" for sid d using assms(2,3) by (simp add: chain_def)
  note lt = chain_facts(1) [OF assms(7)]
  obtain d where d: "d < length (st_slots t)" "st_slots t ! chain t (ss_id (sess t j)) d = of_nat j"
      "\<And>e. e < d \<Longrightarrow> st_slots t ! chain t (ss_id (sess t j)) e \<noteq> kEmpty"
      "\<And>s. s < length (st_slots t) \<Longrightarrow> st_slots t ! s = of_nat j \<Longrightarrow> s = chain t (ss_id (sess t j)) d"
    using assms(1) by (auto simp: indexed_def)
  show ?thesis
    unfolding indexed_def c assms(2,4)
  proof (intro exI [of _ d] conjI allI impI)
    show "st_slots t' ! chain t (ss_id (sess t j)) d = of_nat j" using d(2) assms(5) [OF lt] by blast
    show "st_slots t' ! chain t (ss_id (sess t j)) e \<noteq> kEmpty" if "e < d" for e
      using d(3) [OF that] assms(6) [OF lt] by blast
    show "s = chain t (ss_id (sess t j)) d" if "s < length (st_slots t)" "st_slots t' ! s = of_nat j" for s
      using d(4) [OF that(1)] assms(5) [OF that(1)] that(2) by blast
  qed (rule d(1))
qed

lemma active_slot:
  assumes "table_inv t" "s < length (st_slots t)" "is_index (st_slots t ! s)"
  shows "unat (st_slots t ! s) \<in> live_set t"
  using assms by (auto simp: table_inv_def index_ok_def live_set_def)

text \<open>
  Insertion, release and rebuild all write one slot: a slot that names no session, or session
  \<open>i\<close> itself, gets the index of session \<open>i\<close> or a tombstone. Every other session stays indexed.
\<close>

lemma indexed_put:
  assumes t: "shape_ok t" and ij: "i < unat (st_max t)" "j < unat (st_max t)" "j \<noteq> i" and j: "indexed t j"
    and s: "s < length (st_slots t)" "\<not> is_index (st_slots t ! s) \<or> st_slots t ! s = of_nat i"
    and w: "w \<noteq> kEmpty" "\<not> is_index w \<or> w = of_nat i"
    and t': "st_slots t' = (st_slots t)[s := w]" "st_mask t' = st_mask t" "ss_id (sess t' j) = ss_id (sess t j)"
  shows "indexed t' j"
proof (rule indexed_mono [OF j])
  have "of_nat j \<noteq> (of_nat i :: u32)" "is_index (of_nat j)"
    using of_nat_index_inj [OF t ij(2,1)] ij(3) shape_index(2) [OF t ij(2)] by auto
  then show "(st_slots t' ! r = of_nat j) = (st_slots t ! r = of_nat j)" if "r < length (st_slots t)" for r
    using s(2) w(2) by (auto simp: t'(1) nth_list_update [OF s(1)])
  show "st_slots t' ! r \<noteq> kEmpty" if "r < length (st_slots t)" "st_slots t ! r \<noteq> kEmpty" for r
    using that w(1) by (simp add: t'(1) nth_list_update [OF s(1)])
qed (use t in \<open>simp_all add: t' shape_ok_def\<close>)

lemma index_ok_put:
  assumes t: "table_inv t" and i: "i < unat (st_max t)"
    and s: "s < length (st_slots t)" "\<not> is_index (st_slots t ! s) \<or> st_slots t ! s = of_nat i"
    and w: "w \<noteq> kEmpty" "\<not> is_index w \<or> w = of_nat i"
    and t': "st_slots t' = (st_slots t)[s := w]" "st_mask t' = st_mask t" "st_max t' = st_max t"
      "\<And>j. j < unat (st_max t) \<Longrightarrow> j \<noteq> i \<Longrightarrow> sess t' j = sess t j"
    and new: "ss_active (sess t' i) \<Longrightarrow> indexed t' i"
      "\<And>j. ss_active (sess t' i) \<Longrightarrow> j \<in> live_set t \<Longrightarrow> j \<noteq> i \<Longrightarrow> ss_id (sess t j) \<noteq> ss_id (sess t' i)"
    and gone: "\<And>r. r < length (st_slots t) \<Longrightarrow> st_slots t' ! r = of_nat i \<Longrightarrow> ss_active (sess t' i)"
  shows "index_ok t'"
  unfolding index_ok_def t'(3)
proof (intro conjI allI impI)
  have wf: "shape_ok t" "index_ok t" using t by (auto simp: table_inv_def)
  have ii: "unat (of_nat i :: u32) = i" by (rule shape_index(1) [OF wf(1) i])
  {
    fix r
    assume r: "r < length (st_slots t')" "is_index (st_slots t' ! r)"
    then have rl: "r < length (st_slots t)" by (simp add: t'(1))
    have "st_slots t' ! r = of_nat i \<or> unat (st_slots t' ! r) \<in> live_set t \<and> unat (st_slots t' ! r) \<noteq> i"
    proof (cases "r = s")
      case True
      then show ?thesis using r(2) s(1) w(2) by (simp add: t'(1))
    next
      case False
      then have "st_slots t' ! r = st_slots t ! r" by (simp add: t'(1))
      then show ?thesis using active_slot [OF t rl] r(2) by auto
    qed
    then show "unat (st_slots t' ! r) < unat (st_max t)" "ss_active (sess t' (unat (st_slots t' ! r)))"
      using gone [OF rl] t'(4) i ii by (auto simp: live_set_def)
  next
    fix j
    assume j: "j < unat (st_max t)" "ss_active (sess t' j)"
    show "indexed t' j"
    proof (cases "j = i")
      case False
      then have "indexed t j" "ss_id (sess t' j) = ss_id (sess t j)"
        using j t'(4) wf(2) by (auto simp: index_ok_def)
      then show ?thesis using indexed_put [OF wf(1) i j(1) False _ s w t'(1,2)] by blast
    qed (use j new(1) in blast)
  next
    fix j k
    assume jk: "j < unat (st_max t)" "k < unat (st_max t)"
      "ss_active (sess t' j) \<and> ss_active (sess t' k) \<and> ss_id (sess t' j) = ss_id (sess t' k)"
    have l: "l \<in> live_set t \<and> sess t' l = sess t l" if "l < unat (st_max t)" "ss_active (sess t' l)" "l \<noteq> i" for l
      using t'(4) that by (auto simp: live_set_def)
    show "j = k"
    proof (cases "j = i \<or> k = i")
      case True
      then show ?thesis using l new(2) jk by metis
    next
      case False
      then show ?thesis using l [of j] l [of k] jk wf(2) by (auto simp: index_ok_def)
    qed
  }
qed

lemma indexed_unique:
  assumes "indexed t i" "s < length (st_slots t)" "s' < length (st_slots t)"
    "st_slots t ! s = of_nat i" "st_slots t ! s' = of_nat i"
  shows "s = s'"
  using assms by (auto simp: indexed_def)

text \<open>Each live session takes one slot, so there is an empty slot as long as the tombstones are few.\<close>

lemma count_list_card: "count_list xs x = card {s. s < length xs \<and> xs ! s = x}"
  by (simp add: count_list_eq_length_filter length_filter_conv_card eq_commute)

lemma card_index_slots:
  assumes "table_inv t"
  shows "card {s. s < length (st_slots t) \<and> is_index (st_slots t ! s)} \<le> card (live_set t)"
proof (rule card_inj_on_le [where f = "\<lambda>s. unat (st_slots t ! s)"])
  show "(\<lambda>s. unat (st_slots t ! s)) ` {s. s < length (st_slots t) \<and> is_index (st_slots t ! s)} \<subseteq> live_set t"
    using active_slot [OF assms] by auto
  show "inj_on (\<lambda>s. unat (st_slots t ! s)) {s. s < length (st_slots t) \<and> is_index (st_slots t ! s)}"
  proof (rule inj_onI)
    fix s s'
    assume s: "s \<in> {s. s < length (st_slots t) \<and> is_index (st_slots t ! s)}"
      "s' \<in> {s. s < length (st_slots t) \<and> is_index (st_slots t ! s)}"
      "unat (st_slots t ! s) = unat (st_slots t ! s')"
    define i where "i = unat (st_slots t ! s)"
    have "i \<in> live_set t" using active_slot [OF assms] s(1) by (auto simp: i_def)
    then have "indexed t i" using assms by (auto simp: live_set_def table_inv_def index_ok_def)
    moreover have "st_slots t ! s = of_nat i" by (simp add: i_def)
    moreover have "st_slots t ! s' = of_nat i" unfolding i_def s(3) by simp
    ultimately show "s = s'" using indexed_unique s by blast
  qed
qed simp

lemma exists_empty:
  assumes "table_inv t" "st_tombstones t * 4 \<le> length (st_slots t)"
  shows "\<exists>s < length (st_slots t). st_slots t ! s = kEmpty"
proof (rule ccontr)
  assume no: "\<not> ?thesis"
  define n where "n = length (st_slots t)"
  have "{s. s < n} = {s. s < n \<and> is_index (st_slots t ! s)} \<union> {s. s < n \<and> st_slots t ! s = kTombstone}"
    using no by (auto simp: is_index_def n_def)
  then have "n \<le> card {s. s < n \<and> is_index (st_slots t ! s)} + card {s. s < n \<and> st_slots t ! s = kTombstone}"
    using card_Un_le [of "{s. s < n \<and> is_index (st_slots t ! s)}" "{s. s < n \<and> st_slots t ! s = kTombstone}"]
    by (metis card_Collect_less_nat)
  also have "\<dots> \<le> card (live_set t) + st_tombstones t"
    using card_index_slots [OF assms(1)] assms(1)
    by (auto simp: n_def table_inv_def counts_ok_def count_list_card)
  finally have "n \<le> unat (st_max t) + st_tombstones t" using card_live_set [of t] by linarith
  moreover have "2 * unat (st_max t) \<le> n" "0 < unat (st_max t)"
    using assms(1) by (auto simp: n_def table_inv_def shape_ok_def)
  ultimately show False using assms(2) unfolding n_def [symmetric] by linarith
qed

section \<open>Construction and client updates\<close>

lemma table_ok_new:
  assumes "m < kTombstone"
  shows "table_ok (table_new m c)"
proof -
  define n where "n = (if m = 0 then 1 else m)"
  have n: "0 < unat n" "n < kTombstone" "unat n < 2 ^ 32"
    using assms unat_u32_less [of n] by (auto simp: n_def kTombstone_def unat_gt_0)
  obtain k where k: "next_pow2 (unat n * 2) = 2 ^ k" "unat n * 2 \<le> 2 ^ k" using next_pow2_pow by blast
  define t where "t = table_new m c"
  have p: "2 ^ k - 1 + 1 = (2 :: nat) ^ k" by simp
  have f: "st_max t = n" "st_mask t = 2 ^ k - 1" "st_slots t = replicate (2 ^ k) kEmpty"
    "st_sessions t = replicate (unat n) (session_new c)" "st_free t = map of_nat (rev [0..<unat n])"
    "st_tombstones t = 0" "st_live t = 0" "st_peak_live t = 0"
    unfolding t_def table_new_def Let_def k(1) n_def [symmetric] p by simp_all
  have inact: "\<not> ss_active (sess t i)" if "i < unat n" for i
    using that by (simp add: f session_new_def)
  have lv: "live_set t = {}" using inact by (auto simp: live_set_def f)
  have "shape_ok t" using n k by (auto simp: shape_ok_def slots_wf_def f)
  moreover have "index_ok t" using inact by (auto simp: index_ok_def f is_index_def)
  moreover have "counts_ok t"
  proof -
    have u: "unat (of_nat i :: u32) = i" if "i < unat n" for i
      using that n(3) by (simp add: unat_of_nat_small)
    have "inj_on (of_nat :: nat \<Rightarrow> u32) {0..<unat n}" by (rule inj_onI) (metis atLeastLessThan_iff u)
    then have "distinct (st_free t)" by (simp add: f distinct_map)
    moreover have "unat ` set (st_free t) = {..<unat n}"
      using u by (auto simp: f image_image atLeast0LessThan intro!: image_eqI)
    ultimately show ?thesis
      by (simp add: counts_ok_def lv f count_list_card kEmpty_def kTombstone_def)
  qed
  ultimately show ?thesis using f by (simp add: table_ok_def table_inv_def flip: t_def)
qed

text \<open>What the hot loop does to a session through the pointer it got, keeping id and liveness.\<close>

definition update_session :: "session_table \<Rightarrow> nat \<Rightarrow> (session \<Rightarrow> session) \<Rightarrow> session_table" where
  "update_session t i f = t\<lparr>st_sessions := (st_sessions t)[i := f (sess t i)]\<rparr>"

definition keeps_identity :: "(session \<Rightarrow> session) \<Rightarrow> bool" where
  "keeps_identity f \<longleftrightarrow> (\<forall>s. ss_id (f s) = ss_id s \<and> ss_active (f s) = ss_active s)"

lemma sess_update:
  "sess (update_session t i f) j = (if j = i \<and> i < length (st_sessions t) then f (sess t i) else sess t j)"
  by (auto simp: update_session_def list_update_beyond)

lemma update_session_same [simp]:
  "st_slots (update_session t i f) = st_slots t" "st_mask (update_session t i f) = st_mask t"
  "st_max (update_session t i f) = st_max t" "st_free (update_session t i f) = st_free t"
  "st_tombstones (update_session t i f) = st_tombstones t" "st_live (update_session t i f) = st_live t"
  "st_peak_live (update_session t i f) = st_peak_live t"
  "length (st_sessions (update_session t i f)) = length (st_sessions t)"
  by (simp_all add: update_session_def)

lemma update_session_inv:
  assumes "table_inv t" "keeps_identity f"
  shows "table_inv (update_session t i f)" "view (update_session t i f) = view t"
proof -
  define t' where "t' = update_session t i f"
  have s: "ss_id (sess t' j) = ss_id (sess t j)" "ss_active (sess t' j) = ss_active (sess t j)" for j
    using assms(2) by (auto simp: t'_def sess_update keeps_identity_def)
  have m: "indexed t' j = indexed t j" for j
    by (simp add: indexed_def chain_def s t'_def [symmetric]) (simp add: t'_def)
  have l: "live_set t' = live_set t" by (simp add: live_set_def s) (simp add: t'_def)
  show "table_inv (update_session t i f)"
    using assms(1) l s m unfolding t'_def [symmetric]
    by (simp add: table_inv_def shape_ok_def index_ok_def counts_ok_def slots_wf_def) (simp add: t'_def)
  show "view (update_session t i f) = view t"
    by (rule ext) (simp add: view_def s flip: t'_def, simp add: t'_def)
qed

section \<open>Acquire\<close>

text \<open>A known call: only the time stamp of its session changes.\<close>

lemma acquire_live:
  assumes "table_inv t" "view t sid = Some i"
  shows "acquire t sid now = (update_session t i (\<lambda>s. s\<lparr>ss_last_frame_ns := now\<rparr>), Some i)"
proof -
  have "i < unat (st_max t)"
    using view_Some [of t sid i] assms by (auto simp: table_inv_def)
  then have "unat (of_nat i :: u32) = i"
    using shape_index(1) [of t i] assms(1) by (simp add: table_inv_def)
  then show ?thesis
    unfolding acquire_def probe_live [OF assms] by (simp add: update_session_def Let_def)
qed

text \<open>A new call with no session left.\<close>

lemma free_empty_iff:
  assumes "table_inv t"
  shows "st_free t = [] \<longleftrightarrow> card (live_set t) = unat (st_max t)"
proof -
  have sub: "live_set t \<subseteq> {..<unat (st_max t)}" by (auto simp: live_set_def)
  have "unat ` set (st_free t) = {..<unat (st_max t)} - live_set t"
    using assms by (simp add: table_inv_def counts_ok_def)
  then have "st_free t = [] \<longleftrightarrow> {..<unat (st_max t)} - live_set t = {}" by (metis image_is_empty set_empty)
  also have "\<dots> \<longleftrightarrow> live_set t = {..<unat (st_max t)}" using sub by auto
  also have "\<dots> \<longleftrightarrow> card (live_set t) = unat (st_max t)"
    using sub by (metis card_lessThan card_subset_eq finite_lessThan)
  finally show ?thesis .
qed

lemma acquire_refused:
  assumes "table_inv t" "view t sid = None" "st_free t = []"
  shows "acquire t sid now = (t\<lparr>st_rejected := st_rejected t + 1\<rparr>, None)"
proof -
  obtain ins where "probe t sid (st_mask t + 1) (probe_start (st_mask t) sid) None = Insert_at ins"
    using probe_absent [OF assms(1,2)] by blast
  then show ?thesis unfolding acquire_def by (simp add: assms(3) split: option.split)
qed

lemma table_inv_rejected [simp]:
  "table_inv (t\<lparr>st_rejected := n\<rparr>) = table_inv t" "view (t\<lparr>st_rejected := n\<rparr>) = view t"
proof -
  have "indexed (t\<lparr>st_rejected := n\<rparr>) i = indexed t i" for i by (simp add: indexed_def chain_def)
  moreover have "live_set (t\<lparr>st_rejected := n\<rparr>) = live_set t" by (simp add: live_set_def)
  ultimately show "table_inv (t\<lparr>st_rejected := n\<rparr>) = table_inv t"
    by (simp add: table_inv_def shape_ok_def index_ok_def counts_ok_def slots_wf_def)
  show "view (t\<lparr>st_rejected := n\<rparr>) = view t" by (rule ext) (simp add: view_def)
qed

text \<open>A new call that gets the session on top of the free list.\<close>

definition opened_session :: "session \<Rightarrow> u32 \<Rightarrow> u64 \<Rightarrow> session" where
  "opened_session s sid now = s\<lparr>ss_id := sid, ss_active := True, ss_prev_frame_ns := 0, ss_last_frame_ns := now,
     ss_last_loud_produce_ns := 0, ss_have_last_seq := False, ss_frames := 0\<rparr>"

definition insert_session :: "session_table \<Rightarrow> nat \<Rightarrow> u32 \<Rightarrow> u64 \<Rightarrow> session_table" where
  "insert_session t s sid now =
    (let index = last (st_free t); live = st_live t + 1
     in t\<lparr>st_tombstones := (if st_slots t ! s = kTombstone then st_tombstones t - 1 else st_tombstones t),
          st_free := butlast (st_free t), st_slots := (st_slots t)[s := index],
          st_sessions := (st_sessions t)[unat index := opened_session (sess t (unat index)) sid now],
          st_live := live, st_opened := st_opened t + 1,
          st_peak_live := (if live > st_peak_live t then live else st_peak_live t)\<rparr>)"

lemma acquire_insert:
  assumes "table_inv t" "view t sid = None" "st_free t \<noteq> []" "\<exists>s < length (st_slots t). st_slots t ! s = kEmpty"
  shows "\<exists>m e. acquire t sid now = (insert_session t (chain t sid e) sid now, Some (unat (last (st_free t))))
    \<and> scanned t sid 0 m \<and> e \<le> m \<and> e < length (st_slots t) \<and> \<not> is_index (at_chain t sid e)"
proof -
  have wf: "slots_wf t" using assms(1) by (simp add: table_inv_def shape_ok_def)
  obtain ins m where p: "probe t sid (st_mask t + 1) (probe_start (st_mask t) sid) None = Insert_at ins"
      "scanned t sid 0 m" "place t sid 0 m ins"
    using probe_absent [OF assms(1,2)] by blast
  have "ins \<noteq> None"
  proof
    assume "ins = None"
    then have "\<And>d. d < length (st_slots t) \<Longrightarrow> is_index (at_chain t sid d)" using p(3) by (simp add: place_def)
    then show False using chain_surj [OF wf] assms(4) by (metis is_index_def)
  qed
  then obtain s e where s: "ins = Some s" "e \<le> m" "e < length (st_slots t)" "s = chain t sid e"
      "\<not> is_index (st_slots t ! s)"
    using p(3) by (auto simp: place_def)
  have "acquire t sid now = (insert_session t s sid now, Some (unat (last (st_free t))))"
    unfolding acquire_def p(1) s(1)
    by (simp add: assms(3) insert_session_def opened_session_def Let_def)
  then show ?thesis using p(2) s by auto
qed

lemma insert_session_fields [simp]:
  "st_mask (insert_session t s sid now) = st_mask t" "st_max (insert_session t s sid now) = st_max t"
  "st_slots (insert_session t s sid now) = (st_slots t)[s := last (st_free t)]"
  "st_free (insert_session t s sid now) = butlast (st_free t)"
  "st_live (insert_session t s sid now) = st_live t + 1"
  "st_sessions (insert_session t s sid now) = (st_sessions t)
     [unat (last (st_free t)) := opened_session (sess t (unat (last (st_free t)))) sid now]"
  "chain (insert_session t s sid now) = chain t"
  by (simp_all add: insert_session_def Let_def chain_def fun_eq_iff)

lemma opened_session_fields [simp]:
  "ss_id (opened_session s sid now) = sid" "ss_active (opened_session s sid now)"
  "ss_assembler (opened_session s sid now) = ss_assembler s" "ss_last_frame_ns (opened_session s sid now) = now"
  by (simp_all add: opened_session_def)

text \<open>
  \<open>e\<close> steps along the chain of \<open>sid\<close> is a slot \<open>acquire\<close> may claim: nothing is indexed there
  and no empty slot comes before it.
\<close>

definition insert_point :: "session_table \<Rightarrow> u32 \<Rightarrow> nat \<Rightarrow> bool" where
  "insert_point t sid e \<longleftrightarrow> e < length (st_slots t) \<and> \<not> is_index (at_chain t sid e)
    \<and> (\<forall>f < e. at_chain t sid f \<noteq> kEmpty)"

lemma free_session:
  assumes "table_inv t" "st_free t \<noteq> []"
  shows "unat (last (st_free t)) < unat (st_max t)" "unat (last (st_free t)) \<notin> live_set t"
proof -
  have "unat (last (st_free t)) \<in> unat ` set (st_free t)" using assms(2) by simp
  then show "unat (last (st_free t)) < unat (st_max t)" "unat (last (st_free t)) \<notin> live_set t"
    using assms(1) by (auto simp: table_inv_def counts_ok_def)
qed

lemma insert_sess:
  assumes "table_inv t" "j < unat (st_max t)"
  shows "sess (insert_session t s sid now) j =
    (if j = unat (last (st_free t)) then opened_session (sess t j) sid now else sess t j)"
  using assms by (auto simp: table_inv_def shape_ok_def nth_list_update)

lemma insert_live:
  assumes "table_inv t" "st_free t \<noteq> []"
  shows "live_set (insert_session t s sid now) = insert (unat (last (st_free t))) (live_set t)"
  using free_session(1) [OF assms] insert_sess [OF assms(1), of _ s sid now]
  by (auto simp: live_set_def simp del: insert_session_fields(6) split: if_splits)

lemma insert_index:
  assumes t: "table_inv t" and absent: "view t sid = None" and free: "st_free t \<noteq> []" and e: "insert_point t sid e"
  shows "index_ok (insert_session t (chain t sid e) sid now)"
proof -
  define i s t' where "i = unat (last (st_free t))" "s = chain t sid e" "t' = insert_session t s sid now"
  have wf: "shape_ok t" "index_ok t" "slots_wf t" using t by (auto simp: table_inv_def shape_ok_def)
  note i = free_session [OF t free, folded i_s_t'_def(1)]
  note se = insert_sess [OF t, of _ s sid now, folded i_s_t'_def]
  have ii: "is_index (of_nat i)" "unat (of_nat i :: u32) = i" using shape_index(1,2) [OF wf(1) i(1)] by auto
  have s: "s < length (st_slots t)" "\<not> is_index (st_slots t ! s)"
    using chain_facts(1) [OF wf(3)] e by (auto simp: i_s_t'_def insert_point_def)
  have sl: "st_slots t' = (st_slots t)[s := of_nat i]" "st_mask t' = st_mask t" "st_max t' = st_max t"
    "chain t' = chain t" by (simp_all add: i_s_t'_def)
  have other: "st_slots t ! r \<noteq> of_nat i" if "r < length (st_slots t)" for r
    using active_slot [OF t that] ii i(2) by auto
  have "indexed t' i"
    unfolding indexed_def sl length_list_update
    using se [OF i(1)] e s other ii(1)
    by (intro exI [of _ e]) (auto simp: i_s_t'_def(2) insert_point_def nth_list_update is_index_def)
  moreover have "ss_id (sess t j) \<noteq> sid" if "j \<in> live_set t" for j
    using absent that view_None [OF wf(2)] by (auto simp: live_set_def)
  ultimately show ?thesis
    unfolding i_s_t'_def(2,3) [symmetric]
    by (intro index_ok_put [OF t i(1) s(1) _ _ _ sl(1-3)]) (use s(2) se ii(1) i(1) in \<open>auto simp: is_index_def\<close>)
qed

lemma insert_free:
  assumes t: "table_inv t" and free: "st_free t \<noteq> []"
  shows "distinct (butlast (st_free t))"
    "unat ` set (butlast (st_free t)) = {..<unat (st_max t)} - insert (unat (last (st_free t))) (live_set t)"
proof -
  define xs w where "xs = butlast (st_free t)" "w = last (st_free t)"
  have xs: "st_free t = xs @ [w]" using free by (simp add: xs_w_def)
  have c: "distinct (xs @ [w])" "unat ` set (xs @ [w]) = {..<unat (st_max t)} - live_set t"
    using t by (auto simp: table_inv_def counts_ok_def xs)
  then show "distinct (butlast (st_free t))" by (simp add: xs)
  have "w \<notin> set xs" using c(1) by simp
  then have "unat w \<notin> unat ` set xs" by (metis imageE word_unat_eq_iff)
  from Diff_insert_absorb [OF this]
  have "unat ` set xs = unat ` set (xs @ [w]) - {unat w}"
    by (simp only: set_append image_Un list.set image_insert image_empty Un_insert_right Un_empty_right)
  then have "unat ` set xs = {..<unat (st_max t)} - live_set t - {unat w}" by (simp only: c(2))
  also have "\<dots> = {..<unat (st_max t)} - insert (unat w) (live_set t)" by (rule Diff_insert [symmetric])
  finally show "unat ` set (butlast (st_free t)) = {..<unat (st_max t)} - insert (unat (last (st_free t))) (live_set t)"
    by (simp only: xs_w_def)
qed

lemma insert_tombstones:
  "st_tombstones (insert_session t s sid now)
    = (if st_slots t ! s = kTombstone then st_tombstones t - 1 else st_tombstones t)"
  by (simp add: insert_session_def Let_def)

lemma insert_counts:
  assumes t: "table_inv t" and free: "st_free t \<noteq> []" and s: "s < length (st_slots t)"
  shows "counts_ok (insert_session t s sid now)"
  unfolding counts_ok_def insert_live [OF t free]
proof (intro conjI)
  let ?t = "insert_session t s sid now"
  have c: "unat (st_live t) = card (live_set t)" "st_tombstones t = count_list (st_slots t) kTombstone"
    and sh: "shape_ok t"
    using t by (auto simp: table_inv_def counts_ok_def)
  note i = free_session [OF t free]
  show "distinct (st_free ?t)" using insert_free(1) [OF t free] by simp
  show "unat ` set (st_free ?t) = {..<unat (st_max ?t)} - insert (unat (last (st_free t))) (live_set t)"
    using insert_free(2) [OF t free] by simp
  have "card (live_set t) < unat (st_max t)"
    using free free_empty_iff [OF t] card_live_set [of t] by auto
  then show "unat (st_live ?t) = card (insert (unat (last (st_free t))) (live_set t))"
    using c(1) i(2) unat_u32_less [of "st_max t"] unat_plus_one_if [of "st_live t"] by simp
  show "st_live ?t \<le> st_peak_live ?t" by (auto simp: insert_session_def Let_def)
  have "last (st_free t) \<noteq> kTombstone"
    using shape_index(2) [OF sh i(1)] by (simp add: is_index_def)
  then show "st_tombstones ?t = count_list (st_slots ?t) kTombstone"
    using c(2) count_list_update [OF s, of "last (st_free t)" kTombstone] by (auto simp: insert_tombstones)
qed

lemma insert_view:
  assumes t: "table_inv t" and free: "st_free t \<noteq> []" and ix: "index_ok (insert_session t s sid now)"
  shows "view (insert_session t s sid now) = (view t)(sid \<mapsto> unat (last (st_free t)))"
proof
  fix x
  define i t' where "i = unat (last (st_free t))" "t' = insert_session t s sid now"
  have wf: "index_ok t" using t by (simp add: table_inv_def)
  note i = free_session [OF t free, folded i_t'_def(1)]
  note se = insert_sess [OF t, of _ s sid now, folded i_t'_def]
  have c: "st_max t' = st_max t" by (simp add: i_t'_def)
  note vs = view_Some [OF ix [folded i_t'_def(2)], unfolded c]
  have "view t' x = ((view t)(sid \<mapsto> i)) x"
  proof (cases "x = sid")
    case True
    then show ?thesis using vs [of sid i] se [OF i(1)] i(1) by simp
  next
    case False
    have "view t' x = Some j \<longleftrightarrow> view t x = Some j" for j
      unfolding vs view_Some [OF wf] using se [of j] False i by (cases "j = i") (auto simp: live_set_def)
    then have "view t' x = view t x" by (metis not_Some_eq)
    then show ?thesis using False by simp
  qed
  then show "view (insert_session t s sid now) x = ((view t)(sid \<mapsto> unat (last (st_free t)))) x"
    by (simp only: i_t'_def)
qed

lemma insert_session_inv:
  fixes now :: u64
  assumes t: "table_inv t" and absent: "view t sid = None" and free: "st_free t \<noteq> []"
    and sc: "scanned t sid 0 m" and e: "e \<le> m" "e < length (st_slots t)" "\<not> is_index (at_chain t sid e)"
  defines "i \<equiv> unat (last (st_free t))" and "t' \<equiv> insert_session t (chain t sid e) sid now"
  shows "table_inv t'" "view t' = (view t)(sid \<mapsto> i)" "i < unat (st_max t)" "i \<notin> live_set t"
    "st_tombstones t' \<le> st_tombstones t"
proof -
  have wf: "shape_ok t" "slots_wf t" using t by (auto simp: table_inv_def shape_ok_def)
  have "insert_point t sid e" using sc e by (auto simp: insert_point_def scanned_def)
  from insert_index [OF t absent free this] have ix: "index_ok t'" by (simp only: t'_def)
  have "shape_ok t'" using wf by (simp add: shape_ok_def slots_wf_def t'_def)
  then show "table_inv t'"
    using ix insert_counts [OF t free chain_facts(1) [OF wf(2)]] by (simp add: table_inv_def t'_def)
  show "view t' = (view t)(sid \<mapsto> i)" using insert_view [OF t free] ix by (simp only: t'_def i_def)
  show "i < unat (st_max t)" "i \<notin> live_set t" unfolding i_def by (rule free_session [OF t free])+
  show "st_tombstones t' \<le> st_tombstones t" by (simp add: t'_def insert_tombstones)
qed

section \<open>Release\<close>

lemma find_slot_chain:
  assumes "slots_wf t" "k + left = length (st_slots t)" "k \<le> d" "d < length (st_slots t)"
    "at_chain t sid d = w" "\<And>e. k \<le> e \<Longrightarrow> e < d \<Longrightarrow> at_chain t sid e \<noteq> kEmpty"
    "\<And>s. s < length (st_slots t) \<Longrightarrow> st_slots t ! s = w \<Longrightarrow> s = chain t sid d"
  shows "find_slot t w left (chain t sid k) = Some (chain t sid d)"
  using assms(2,3,6)
proof (induction left arbitrary: k)
  case 0
  then show ?case using assms(4) by simp
next
  case (Suc left)
  show ?case
  proof (cases "at_chain t sid k = w")
    case True
    then show ?thesis using assms(7) chain_facts(1) [OF assms(1)] by simp
  next
    case False
    then have "k \<noteq> d" using assms(5) by auto
    then have "find_slot t w left (chain t sid (Suc k)) = Some (chain t sid d)" "at_chain t sid k \<noteq> kEmpty"
      using Suc.IH [of "Suc k"] Suc.prems by auto
    then show ?thesis using False chain_facts(3) [OF assms(1), of sid k] by simp
  qed
qed

lemma release_fields:
  "st_mask (release t i) = st_mask t" "st_max (release t i) = st_max t"
  "st_free (release t i) = st_free t @ [of_nat i]" "st_peak_live (release t i) = st_peak_live t"
  "st_sessions (release t i) = (st_sessions t)[i := (sess t i)\<lparr>ss_active := False\<rparr>]"
  by (simp_all add: release_def Let_def split: option.split)

lemma release_slot:
  assumes t: "table_inv t" and i: "i \<in> live_set t"
  shows "\<exists>s < length (st_slots t). st_slots t ! s = of_nat i
    \<and> st_slots (release t i) = (st_slots t)[s := kTombstone] \<and> st_tombstones (release t i) = st_tombstones t + 1
    \<and> (\<forall>r < length (st_slots t). st_slots t ! r = of_nat i \<longrightarrow> r = s)"
proof -
  have wf: "slots_wf t" "indexed t i"
    using t i by (auto simp: table_inv_def shape_ok_def index_ok_def live_set_def)
  then obtain d where d: "d < length (st_slots t)" "at_chain t (ss_id (sess t i)) d = of_nat i"
      "\<And>e. e < d \<Longrightarrow> at_chain t (ss_id (sess t i)) e \<noteq> kEmpty"
      "\<And>s. s < length (st_slots t) \<Longrightarrow> st_slots t ! s = of_nat i \<Longrightarrow> s = chain t (ss_id (sess t i)) d"
    by (auto simp: indexed_def)
  have len: "0 + (st_mask t + 1) = length (st_slots t)" using wf(1) by (simp add: slots_wf_def)
  have "find_slot t (of_nat i) (st_mask t + 1) (chain t (ss_id (sess t i)) 0) = Some (chain t (ss_id (sess t i)) d)"
    by (rule find_slot_chain [OF wf(1) len le0 d(1,2) _ d(4)]) (rule d(3))
  then have "find_slot t (of_nat i) (st_mask t + 1) (probe_start (st_mask t) (ss_id (sess t i)))
      = Some (chain t (ss_id (sess t i)) d)"
    by (simp only: chain_facts(2) [OF wf(1)])
  then have "st_slots (release t i) = (st_slots t)[chain t (ss_id (sess t i)) d := kTombstone]"
    "st_tombstones (release t i) = st_tombstones t + 1"
    unfolding release_def Let_def by simp_all
  then show ?thesis using d chain_facts(1) [OF wf(1), of "ss_id (sess t i)" d] by blast
qed

lemma release_sess:
  assumes "table_inv t" "j < unat (st_max t)"
  shows "sess (release t i) j = (if j = i then (sess t i)\<lparr>ss_active := False\<rparr> else sess t j)"
  using assms by (auto simp: table_inv_def shape_ok_def release_fields nth_list_update)

lemma release_live:
  assumes "table_inv t"
  shows "live_set (release t i) = live_set t - {i}"
  using release_sess [OF assms, of _ i] by (auto simp: live_set_def release_fields(2) split: if_splits)

lemma release_index:
  assumes t: "table_inv t" and i: "i \<in> live_set t"
  shows "index_ok (release t i)"
proof -
  have im: "i < unat (st_max t)" using i by (simp add: live_set_def)
  obtain s where s: "s < length (st_slots t)" "st_slots t ! s = of_nat i"
      "st_slots (release t i) = (st_slots t)[s := kTombstone]"
      "\<And>r. r < length (st_slots t) \<Longrightarrow> st_slots t ! r = of_nat i \<Longrightarrow> r = s"
    using release_slot [OF t i] by blast
  have ii: "is_index (of_nat i)"
    using t shape_index(2) im by (auto simp: table_inv_def)
  have "st_slots (release t i) ! r \<noteq> of_nat i" if "r < length (st_slots t)" for r
    using s(4) [OF that] ii by (auto simp: s(3) nth_list_update [OF s(1)] is_index_def)
  then show ?thesis
    by (intro index_ok_put [OF t im s(1) disjI2 [OF s(2)] _ _ s(3) release_fields(1,2)])
      (auto simp: release_sess [OF t] im is_index_def kEmpty_def kTombstone_def)
qed

lemma release_free:
  assumes t: "table_inv t" and i: "i \<in> live_set t"
  shows "distinct (st_free (release t i))"
    "unat ` set (st_free (release t i)) = {..<unat (st_max t)} - (live_set t - {i})"
proof -
  have f: "distinct (st_free t)" "unat ` set (st_free t) = {..<unat (st_max t)} - live_set t"
    and im: "i < unat (st_max t)" and sh: "shape_ok t"
    using t i by (auto simp: table_inv_def counts_ok_def live_set_def)
  have ii: "unat (of_nat i :: u32) = i" by (rule shape_index(1) [OF sh im])
  have "i \<notin> unat ` set (st_free t)" using i f(2) by blast
  then have "of_nat i \<notin> set (st_free t)" using ii by (metis image_eqI)
  then show "distinct (st_free (release t i))" using f(1) by (simp add: release_fields)
  have "unat ` set (st_free (release t i)) = insert i ({..<unat (st_max t)} - live_set t)"
    by (simp add: release_fields ii f(2))
  then show "unat ` set (st_free (release t i)) = {..<unat (st_max t)} - (live_set t - {i})"
    using im by auto
qed

lemma release_counts:
  assumes t: "table_inv t" and i: "i \<in> live_set t"
  shows "counts_ok (release t i)"
  unfolding counts_ok_def release_live [OF t] release_fields(2,4)
proof (intro conjI release_free [OF t i])
  have c: "unat (st_live t) = card (live_set t)" "st_live t \<le> st_peak_live t"
      "st_tombstones t = count_list (st_slots t) kTombstone" and sh: "shape_ok t" "i < unat (st_max t)"
    using t i by (auto simp: table_inv_def counts_ok_def live_set_def)
  have "0 < card (live_set t)" using i by (auto simp: card_gt_0_iff)
  then have pos: "1 \<le> st_live t" "st_live t > 0" using c(1) by (simp_all add: word_le_nat_alt word_less_nat_alt)
  have l: "st_live (release t i) = st_live t - 1"
    using pos(2) by (simp add: release_def Let_def split: option.split)
  show "unat (st_live (release t i)) = card (live_set t - {i})"
    using unat_minus_le [OF pos(1)] c(1) i by (simp add: l)
  have "st_live (release t i) \<le> st_live t" using unat_minus_le [OF pos(1)] by (simp add: l word_le_nat_alt)
  then show "st_live (release t i) \<le> st_peak_live t" using c(2) by simp
  obtain s where s: "s < length (st_slots t)" "st_slots t ! s = of_nat i"
      "st_slots (release t i) = (st_slots t)[s := kTombstone]" "st_tombstones (release t i) = st_tombstones t + 1"
    using release_slot [OF t i] by blast
  have "of_nat i \<noteq> kTombstone" using shape_index(2) [OF sh] by (simp add: is_index_def)
  then show "st_tombstones (release t i) = count_list (st_slots (release t i)) kTombstone"
    using count_list_update [OF s(1), of kTombstone kTombstone] by (simp add: s c(3))
qed

lemma release_inv:
  assumes t: "table_inv t" and i: "i \<in> live_set t"
  shows "table_inv (release t i)" "live_set (release t i) = live_set t - {i}"
proof -
  obtain s where "st_slots (release t i) = (st_slots t)[s := kTombstone]" using release_slot [OF t i] by blast
  then have "shape_ok (release t i)"
    using t by (simp add: table_inv_def shape_ok_def slots_wf_def release_fields)
  then show "table_inv (release t i)"
    using release_index [OF t i] release_counts [OF t i] by (simp add: table_inv_def)
  show "live_set (release t i) = live_set t - {i}" by (rule release_live [OF t])
qed

section \<open>Sweeps\<close>

definition closed_session :: "u64 \<Rightarrow> session \<Rightarrow> session" where
  "closed_session now s = s\<lparr>ss_assembler := fst (flush (ss_assembler s) now), ss_active := False\<rparr>"

definition tail_events :: "u64 \<Rightarrow> session \<Rightarrow> chunk_event list" where
  "tail_events now s =
    (case snd (flush (ss_assembler s) now) of None \<Rightarrow> [] | Some ev \<Rightarrow> [ev\<lparr>ce_session_id := ss_id s\<rparr>])"

lemma close_session_eq:
  "close_session t now i =
    (release (update_session t i (\<lambda>s. s\<lparr>ss_assembler := fst (flush (ss_assembler s) now)\<rparr>)) i,
     tail_events now (sess t i))"
  by (simp add: close_session_def tail_events_def update_session_def Let_def case_prod_beta split: option.split)

lemma close_session_inv:
  assumes "table_inv t" "i \<in> live_set t"
  shows "table_inv (fst (close_session t now i))" "live_set (fst (close_session t now i)) = live_set t - {i}"
    "st_sessions (fst (close_session t now i)) = (st_sessions t)[i := closed_session now (sess t i)]"
    "st_max (fst (close_session t now i)) = st_max t"
proof -
  define u where "u = update_session t i (\<lambda>s. s\<lparr>ss_assembler := fst (flush (ss_assembler s) now)\<rparr>)"
  have k: "keeps_identity (\<lambda>s. s\<lparr>ss_assembler := fst (flush (ss_assembler s) now)\<rparr>)"
    by (simp add: keeps_identity_def)
  have u: "table_inv u" unfolding u_def by (rule update_session_inv [OF assms(1) k])
  have i: "i < length (st_sessions t)"
    using assms by (auto simp: live_set_def table_inv_def shape_ok_def)
  have "ss_active (sess u j) = ss_active (sess t j)" for j by (simp add: u_def sess_update)
  then have l: "live_set u = live_set t" by (simp add: live_set_def) (simp add: u_def)
  show "table_inv (fst (close_session t now i))" "live_set (fst (close_session t now i)) = live_set t - {i}"
    using release_inv [OF u, of i] assms(2) l by (simp_all add: close_session_eq u_def)
  have "sess u i = (sess t i)\<lparr>ss_assembler := fst (flush (ss_assembler (sess t i)) now)\<rparr>"
    using i by (simp add: u_def sess_update)
  then show "st_sessions (fst (close_session t now i)) = (st_sessions t)[i := closed_session now (sess t i)]"
    by (simp add: close_session_eq release_fields flip: u_def) (simp add: u_def update_session_def closed_session_def)
  show "st_max (fst (close_session t now i)) = st_max t" by (simp add: close_session_eq release_fields)
qed

lemma sweep_inv:
  assumes "\<And>s. p s \<Longrightarrow> ss_active s" "table_inv t" "distinct is" "\<forall>i \<in> set is. i < unat (st_max t)"
  shows "table_inv (fst (sweep p now t is))
    \<and> st_max (fst (sweep p now t is)) = st_max t
    \<and> (\<forall>j. sess (fst (sweep p now t is)) j =
          (if j \<in> set is \<and> p (sess t j) then closed_session now (sess t j) else sess t j))
    \<and> snd (sweep p now t is) = concat (map (\<lambda>i. if p (sess t i) then tail_events now (sess t i) else []) is)"
  using assms(2-4)
proof (induction "is" arbitrary: t)
  case Nil
  then show ?case by simp
next
  case (Cons i "is")
  show ?case
  proof (cases "p (sess t i)")
    case False
    then show ?thesis using Cons by auto
  next
    case True
    define u where "u = fst (close_session t now i)"
    have i: "i \<in> live_set t" "i < length (st_sessions t)"
      using assms(1) [OF True] Cons.prems by (auto simp: live_set_def table_inv_def shape_ok_def)
    note c = close_session_inv [OF Cons.prems(1) i(1), of now, folded u_def]
    have su: "sess u j = (if j = i then closed_session now (sess t i) else sess t j)" for j
      using i(2) by (simp add: c(3) nth_list_update)
    have cl: "close_session t now i = (u, tail_events now (sess t i))"
      by (simp add: u_def close_session_eq)
    have "\<forall>j \<in> set is. j < unat (st_max u)" using Cons.prems(3) c(4) by simp
    from Cons.IH [OF c(1) _ this] Cons.prems(2)
    have ih: "table_inv (fst (sweep p now u is))" "st_max (fst (sweep p now u is)) = st_max u"
        "\<And>j. sess (fst (sweep p now u is)) j =
          (if j \<in> set is \<and> p (sess u j) then closed_session now (sess u j) else sess u j)"
        "snd (sweep p now u is) = concat (map (\<lambda>i. if p (sess u i) then tail_events now (sess u i) else []) is)"
      by auto
    have st: "sweep p now t (i # is) = (fst (sweep p now u is), tail_events now (sess t i) @ snd (sweep p now u is))"
      using True cl by (simp add: case_prod_beta)
    have ni: "i \<notin> set is" using Cons.prems(2) by simp
    have "map (\<lambda>j. if p (sess u j) then tail_events now (sess u j) else []) is
        = map (\<lambda>j. if p (sess t j) then tail_events now (sess t j) else []) is"
      using ni su by (intro map_cong) auto
    then have ev: "snd (sweep p now u is) = concat (map (\<lambda>j. if p (sess t j) then tail_events now (sess t j) else []) is)"
      using ih(4) by metis
    have "sess (fst (sweep p now u is)) j =
        (if j \<in> set (i # is) \<and> p (sess t j) then closed_session now (sess t j) else sess t j)" for j
      unfolding ih(3) using True ni su by auto
    then show ?thesis unfolding st using ih(1,2) c(4) True by (simp add: ev)
  qed
qed

section \<open>Rebuild\<close>

lemma first_empty_chain:
  assumes "slots_wf t" "k + left = length (st_slots t)" "k \<le> d" "d < length (st_slots t)"
    "at_chain t sid d = kEmpty"
  shows "\<exists>m. first_empty (st_slots t) (st_mask t) left (chain t sid k) = Some (chain t sid m) \<and> k \<le> m
    \<and> m < length (st_slots t) \<and> at_chain t sid m = kEmpty \<and> (\<forall>e. k \<le> e \<and> e < m \<longrightarrow> at_chain t sid e \<noteq> kEmpty)"
  using assms(2,3)
proof (induction left arbitrary: k)
  case 0
  then show ?case using assms(4) by simp
next
  case (Suc left)
  show ?case
  proof (cases "at_chain t sid k = kEmpty")
    case True
    then show ?thesis using Suc.prems assms(4) by (intro exI [of _ k]) auto
  next
    case False
    then have "k \<noteq> d" using assms(5) by auto
    then obtain m where m: "first_empty (st_slots t) (st_mask t) left (chain t sid (Suc k)) = Some (chain t sid m)"
        "Suc k \<le> m" "m < length (st_slots t)" "at_chain t sid m = kEmpty"
        "\<forall>e. Suc k \<le> e \<and> e < m \<longrightarrow> at_chain t sid e \<noteq> kEmpty"
      using Suc.IH [of "Suc k"] Suc.prems by auto
    have "\<forall>e. k \<le> e \<and> e < m \<longrightarrow> at_chain t sid e \<noteq> kEmpty"
      using all_from [of k m "\<lambda>e. at_chain t sid e \<noteq> kEmpty"] m(2,5) False by simp
    then show ?thesis
      using False m chain_facts(3) [OF assms(1), of sid k] by (intro exI [of _ m]) simp
  qed
qed

text \<open>A partly rebuilt index: the sessions of \<open>D\<close> are indexed and nothing else is in the slots.\<close>

definition rebuilt :: "session_table \<Rightarrow> nat set \<Rightarrow> bool" where
  "rebuilt t D \<longleftrightarrow> slots_wf t \<and> (\<forall>i \<in> D. indexed t i)
    \<and> (\<forall>s < length (st_slots t). st_slots t ! s \<noteq> kEmpty \<longrightarrow> (\<exists>i \<in> D. st_slots t ! s = of_nat i))"

lemma rebuilt_empty_slot:
  assumes "rebuilt t D" "finite D" "card D < length (st_slots t)"
  shows "\<exists>s < length (st_slots t). st_slots t ! s = kEmpty"
proof (rule ccontr)
  assume no: "\<not> ?thesis"
  have "\<forall>s \<in> {..<length (st_slots t)}. \<exists>i. i \<in> D \<and> st_slots t ! s = of_nat i"
    using assms(1) no unfolding rebuilt_def by blast
  from bchoice [OF this] obtain g where
    g: "\<And>s. s < length (st_slots t) \<Longrightarrow> g s \<in> D \<and> st_slots t ! s = of_nat (g s)"
    by blast
  have "inj_on g {..<length (st_slots t)}"
  proof (rule inj_onI)
    fix s s'
    assume s: "s \<in> {..<length (st_slots t)}" "s' \<in> {..<length (st_slots t)}" "g s = g s'"
    then have "g s \<in> D" "st_slots t ! s = of_nat (g s)" "st_slots t ! s' = of_nat (g s')"
      using g [of s] g [of s'] by auto
    moreover have "indexed t (g s)" using assms(1) \<open>g s \<in> D\<close> by (simp add: rebuilt_def)
    ultimately show "s = s'" using indexed_unique [of t "g s" s s'] s by simp
  qed
  then have "card {..<length (st_slots t)} \<le> card D"
    by (rule card_inj_on_le) (use g assms(2) in auto)
  then show False using assms(3) by simp
qed

lemma rebuilt_insert:
  assumes t: "rebuilt t D" and D: "D \<subseteq> {..<unat (st_max t)}" "i < unat (st_max t)" "i \<notin> D" "shape_ok t"
    and m: "m < length (st_slots t)" "at_chain t (ss_id (sess t i)) m = kEmpty"
    "\<forall>e < m. at_chain t (ss_id (sess t i)) e \<noteq> kEmpty"
  shows "rebuilt (t\<lparr>st_slots := (st_slots t)[chain t (ss_id (sess t i)) m := of_nat i]\<rparr>) (insert i D)"
proof -
  define s where "s = chain t (ss_id (sess t i)) m"
  define t' where "t' = t\<lparr>st_slots := (st_slots t)[s := of_nat i]\<rparr>"
  have wf: "slots_wf t" using t by (simp add: rebuilt_def)
  have s: "s < length (st_slots t)" "st_slots t ! s = kEmpty"
    using chain_facts(1) [OF wf] m(2) by (simp_all add: s_def)
  have f: "st_slots t' = (st_slots t)[s := of_nat i]" "st_mask t' = st_mask t" "st_sessions t' = st_sessions t"
      "length (st_slots t') = length (st_slots t)" "chain t' = chain t"
    by (simp_all add: t'_def chain_def fun_eq_iff)
  have ii: "of_nat i \<noteq> kEmpty" using shape_index(2) [OF D(4,2)] by (simp add: is_index_def)
  have none: "st_slots t ! r \<noteq> of_nat i" if r: "r < length (st_slots t)" for r
  proof
    assume e: "st_slots t ! r = of_nat i"
    then obtain j where j: "j \<in> D" "of_nat i = (of_nat j :: u32)" using t r ii by (auto simp: rebuilt_def)
    then show False using of_nat_index_inj [OF D(4,2), of j] D(1,3) by auto
  qed
  have new: "indexed t' i"
    unfolding indexed_def f length_list_update
  proof (intro exI [of _ m] conjI allI impI)
    show "(st_slots t)[s := of_nat i] ! chain t (ss_id (sess t i)) m = of_nat i" using s(1) by (simp add: s_def)
    show "(st_slots t)[s := of_nat i] ! chain t (ss_id (sess t i)) e \<noteq> kEmpty" if "e < m" for e
      using m(3) that ii by (simp add: nth_list_update [OF s(1)])
    show "r = chain t (ss_id (sess t i)) m" if "r < length (st_slots t)" "(st_slots t)[s := of_nat i] ! r = of_nat i" for r
      using that none [OF that(1)] by (cases "r = s") (simp_all add: s_def [symmetric])
  qed (rule m(1))
  have old: "indexed t' j" if j: "j \<in> D" for j
    by (rule indexed_put [OF D(4,2) _ _ _ s(1) _ ii _ f(1,2)])
      (use t j D(1,3) in \<open>auto simp: rebuilt_def f s(2) is_index_def\<close>)
  have "\<exists>j \<in> insert i D. st_slots t' ! r = of_nat j" if "r < length (st_slots t)" "st_slots t' ! r \<noteq> kEmpty" for r
    using that t by (auto simp: f nth_list_update [OF s(1)] rebuilt_def split: if_splits)
  moreover have "slots_wf t'" using wf by (simp add: slots_wf_def f)
  ultimately show ?thesis unfolding s_def [symmetric] t'_def [symmetric]
    using new old by (simp add: rebuilt_def f(4))
qed

lemma rebuild_room:
  assumes r: "rebuilt t D" and D: "D \<subset> live_set t" and sh: "shape_ok t"
  shows "\<exists>m. first_empty (st_slots t) (st_mask t) (st_mask t + 1) (probe_start (st_mask t) sid) = Some (chain t sid m)
    \<and> m < length (st_slots t) \<and> at_chain t sid m = kEmpty \<and> (\<forall>e < m. at_chain t sid e \<noteq> kEmpty)"
proof -
  have wf: "slots_wf t" using r by (simp add: rebuilt_def)
  have fin: "finite D" using D finite_subset [OF _ finite_live_set] by blast
  have "card D < card (live_set t)" by (rule psubset_card_mono [OF finite_live_set D])
  moreover have "2 * unat (st_max t) \<le> length (st_slots t)" using sh by (simp add: shape_ok_def)
  ultimately have "card D < length (st_slots t)" using card_live_set [of t] by linarith
  then obtain s where s: "s < length (st_slots t)" "st_slots t ! s = kEmpty"
    using rebuilt_empty_slot [OF r fin] by blast
  then obtain d where d: "d < length (st_slots t)" "at_chain t sid d = kEmpty"
    using chain_surj [OF wf s(1), of sid] by auto
  have len: "0 + (st_mask t + 1) = length (st_slots t)" using wf by (simp add: slots_wf_def)
  show ?thesis
    using first_empty_chain [OF wf len le0 d] unfolding chain_facts(2) [OF wf] by auto
qed

lemma rebuild_total:
  assumes "rebuilt t D" "D \<subseteq> live_set t" "shape_ok t" "distinct is" "set is \<inter> D = {}"
    "\<forall>i \<in> set is. i < unat (st_max t)"
  shows "\<exists>slots. rebuild (st_sessions t) (st_mask t) (st_slots t) is = Some slots
    \<and> length slots = length (st_slots t)
    \<and> rebuilt (t\<lparr>st_slots := slots\<rparr>) (D \<union> (set is \<inter> live_set t))"
  using assms
proof (induction "is" arbitrary: t D)
  case Nil
  then show ?case by simp
next
  case (Cons i "is")
  have i: "i < unat (st_max t)" "i \<notin> D" using Cons.prems by auto
  show ?case
  proof (cases "ss_active (sess t i)")
    case False
    then have "i \<notin> live_set t" by (simp add: live_set_def)
    then have e: "set (i # is) \<inter> live_set t = set is \<inter> live_set t" by auto
    have "distinct is" "set is \<inter> D = {}" "\<forall>i \<in> set is. i < unat (st_max t)" using Cons.prems by auto
    note ih = Cons.IH [OF Cons.prems(1-3) this]
    have "rebuild (st_sessions t) (st_mask t) (st_slots t) (i # is) = rebuild (st_sessions t) (st_mask t) (st_slots t) is"
      using False by simp
    then show ?thesis using ih unfolding e by metis
  next
    case True
    then have il: "i \<in> live_set t" using i by (simp add: live_set_def)
    have wf: "slots_wf t" using Cons.prems by (simp add: rebuilt_def)
    define sid where "sid = ss_id (sess t i)"
    have "D \<subset> live_set t" using Cons.prems(2) il i(2) by blast
    from rebuild_room [OF Cons.prems(1) this Cons.prems(3), of sid]
    obtain m where m: "first_empty (st_slots t) (st_mask t) (st_mask t + 1) (probe_start (st_mask t) sid) = Some (chain t sid m)"
        "m < length (st_slots t)" "at_chain t sid m = kEmpty" "\<forall>e < m. at_chain t sid e \<noteq> kEmpty"
      by blast
    define t' where "t' = t\<lparr>st_slots := (st_slots t)[chain t sid m := of_nat i]\<rparr>"
    have D': "D \<subseteq> {..<unat (st_max t)}" using Cons.prems(2) by (auto simp: live_set_def)
    have r': "rebuilt t' (insert i D)"
      unfolding t'_def sid_def
      by (rule rebuilt_insert [OF Cons.prems(1) D' i Cons.prems(3)]) (use m in \<open>simp_all add: sid_def\<close>)
    have f: "live_set t' = live_set t" "shape_ok t'" "st_sessions t' = st_sessions t" "st_mask t' = st_mask t"
        "st_max t' = st_max t" "length (st_slots t') = length (st_slots t)" "\<And>x. t'\<lparr>st_slots := x\<rparr> = t\<lparr>st_slots := x\<rparr>"
      using Cons.prems(3) by (simp_all add: t'_def live_set_def shape_ok_def slots_wf_def)
    have "insert i D \<subseteq> live_set t'" "distinct is" "set is \<inter> insert i D = {}" "\<forall>i \<in> set is. i < unat (st_max t')"
      using Cons.prems il f by auto
    from Cons.IH [OF r' this(1) f(2) this(2-4)]
    obtain slots where sl: "rebuild (st_sessions t) (st_mask t) (st_slots t') is = Some slots"
        "length slots = length (st_slots t)"
        "rebuilt (t\<lparr>st_slots := slots\<rparr>) (insert i D \<union> (set is \<inter> live_set t))"
      unfolding f by blast
    have "rebuild (st_sessions t) (st_mask t) (st_slots t) (i # is) = Some slots"
      using True m(1) sl(1) by (simp add: sid_def t'_def)
    moreover have "insert i D \<union> (set is \<inter> live_set t) = D \<union> (set (i # is) \<inter> live_set t)" using il by auto
    ultimately show ?thesis using sl(2,3) by auto
  qed
qed

lemma rebuilt_inv:
  assumes t: "table_inv t" and r: "rebuilt t' (live_set t)"
    and f: "t' = t\<lparr>st_slots := slots, st_tombstones := 0\<rparr>" "length slots = length (st_slots t)"
  shows "table_ok t'"
proof -
  have wf: "shape_ok t" "index_ok t" "counts_ok t" using t by (auto simp: table_inv_def)
  have g: "st_sessions t' = st_sessions t" "st_max t' = st_max t" "st_mask t' = st_mask t" "st_slots t' = slots"
      "st_tombstones t' = 0" "st_free t' = st_free t" "st_live t' = st_live t" "st_peak_live t' = st_peak_live t"
    by (simp_all add: f(1))
  have lv: "live_set t' = live_set t" by (simp add: live_set_def g)
  have shape: "shape_ok t'" using wf(1) by (simp add: shape_ok_def slots_wf_def g f(2))
  have slot: "slots ! s = kEmpty \<or> (\<exists>i \<in> live_set t. slots ! s = of_nat i \<and> is_index (slots ! s) \<and> unat (slots ! s) = i)"
    if s: "s < length slots" for s
  proof (cases "slots ! s = kEmpty")
    case False
    then obtain i where i: "i \<in> live_set t" "slots ! s = of_nat i"
      using r s unfolding rebuilt_def g by blast
    then have "i < unat (st_max t)" by (simp add: live_set_def)
    then show ?thesis using shape_index(1,2) [OF wf(1), of i] i by auto
  qed simp
  have ix: "index_ok t'"
    unfolding index_ok_def g(1,2)
  proof (intro conjI allI impI)
    fix s
    assume "s < length (st_slots t')" "is_index (st_slots t' ! s)"
    then have "unat (slots ! s) \<in> live_set t" using slot [of s] by (auto simp: g is_index_def)
    then show "unat (st_slots t' ! s) < unat (st_max t)" "ss_active (sess t (unat (st_slots t' ! s)))"
      by (simp_all add: live_set_def g)
  next
    fix i
    assume "i < unat (st_max t)" "ss_active (sess t i)"
    then show "indexed t' i" using r by (simp add: rebuilt_def live_set_def)
  next
    fix i j
    assume "i < unat (st_max t)" "j < unat (st_max t)"
      "ss_active (sess t i) \<and> ss_active (sess t j) \<and> ss_id (sess t i) = ss_id (sess t j)"
    then show "i = j" using wf(2) by (simp add: index_ok_def)
  qed
  have "kTombstone \<notin> set slots"
    using slot by (fastforce simp: in_set_conv_nth is_index_def kEmpty_def kTombstone_def)
  then have "counts_ok t'" using wf(3) unfolding counts_ok_def lv g by (simp add: count_notin)
  then show ?thesis using shape ix by (simp add: table_ok_def table_inv_def g(5))
qed

lemma maybe_rebuild_ok:
  assumes t: "table_inv t"
  shows "\<exists>t'. maybe_rebuild t = Some t' \<and> table_ok t' \<and> st_sessions t' = st_sessions t \<and> st_max t' = st_max t"
proof (cases "st_tombstones t * 4 \<le> length (st_slots t)")
  case True
  then show ?thesis using t by (simp add: maybe_rebuild_def table_ok_def)
next
  case False
  have shape: "shape_ok t" using t by (simp add: table_inv_def)
  define t0 where "t0 = t\<lparr>st_slots := replicate (length (st_slots t)) kEmpty\<rparr>"
  have f: "st_sessions t0 = st_sessions t" "st_mask t0 = st_mask t" "st_max t0 = st_max t" "live_set t0 = live_set t"
      "st_slots t0 = replicate (length (st_slots t)) kEmpty" "\<And>x. t0\<lparr>st_slots := x\<rparr> = t\<lparr>st_slots := x\<rparr>"
    by (simp_all add: t0_def live_set_def)
  have s0: "shape_ok t0" "rebuilt t0 {}"
    using shape by (simp_all add: shape_ok_def slots_wf_def rebuilt_def f)
  have "set [0..<unat (st_max t)] \<inter> live_set t = live_set t" by (auto simp: live_set_def)
  then obtain slots where sl: "rebuild (st_sessions t) (st_mask t) (st_slots t0) [0..<unat (st_max t)] = Some slots"
      "length slots = length (st_slots t)" "rebuilt (t\<lparr>st_slots := slots\<rparr>) (live_set t)"
    using rebuild_total [OF s0(2) _ s0(1), of "[0..<unat (st_max t)]"] unfolding f by auto
  define t' where "t' = t\<lparr>st_slots := slots, st_tombstones := 0\<rparr>"
  have "maybe_rebuild t = Some t'"
    using False sl(1) by (simp add: maybe_rebuild_def t'_def f)
  moreover have "indexed t' i = indexed (t\<lparr>st_slots := slots\<rparr>) i" for i
    by (simp add: indexed_def chain_def t'_def)
  then have "rebuilt t' (live_set t)" using sl(3) by (simp add: rebuilt_def slots_wf_def) (simp add: t'_def)
  then have "table_ok t'" by (rule rebuilt_inv [OF t _ t'_def sl(2)])
  ultimately show ?thesis by (simp add: t'_def)
qed

text \<open>A whole sweep: it always ends, the sessions it selects are closed and released and their open
  chunks emitted, and the others are as they were.\<close>

definition swept :: "(session \<Rightarrow> bool) \<Rightarrow> u64 \<Rightarrow> session_table \<Rightarrow> session_table \<Rightarrow> chunk_event list \<Rightarrow> bool" where
  "swept p now t t' evs \<longleftrightarrow> table_ok t' \<and> st_max t' = st_max t
    \<and> (\<forall>j < unat (st_max t). sess t' j = (if p (sess t j) then closed_session now (sess t j) else sess t j))
    \<and> evs = concat (map (tail_events now) (filter p (st_sessions t)))"

lemma concat_map_if: "concat (map (\<lambda>i. if P i then g i else []) xs) = concat (map g (filter P xs))"
  by (induction xs) auto

lemma sweep_rebuild_ok:
  assumes "\<And>s. p s \<Longrightarrow> ss_active s" "table_inv t"
  shows "\<exists>t'. map_option (\<lambda>t'. (t', snd (sweep p now t [0..<unat (st_max t)])))
      (maybe_rebuild (fst (sweep p now t [0..<unat (st_max t)])))
      = Some (t', snd (sweep p now t [0..<unat (st_max t)]))
    \<and> swept p now t t' (snd (sweep p now t [0..<unat (st_max t)]))"
proof -
  define u where "u = fst (sweep p now t [0..<unat (st_max t)])"
  have "distinct [0..<unat (st_max t)]" "\<forall>i \<in> set [0..<unat (st_max t)]. i < unat (st_max t)" by auto
  from sweep_inv [OF assms this, where now = now]
  have u: "table_inv u" "st_max u = st_max t"
      "\<And>j. sess u j = (if j \<in> set [0..<unat (st_max t)] \<and> p (sess t j) then closed_session now (sess t j) else sess t j)"
      "snd (sweep p now t [0..<unat (st_max t)])
        = concat (map (\<lambda>i. if p (sess t i) then tail_events now (sess t i) else []) [0..<unat (st_max t)])"
    unfolding u_def by blast+
  obtain t' where t': "maybe_rebuild u = Some t'" "table_ok t'" "st_sessions t' = st_sessions u" "st_max t' = st_max u"
    using maybe_rebuild_ok [OF u(1)] by blast
  have len: "length (st_sessions t) = unat (st_max t)" using assms(2) by (simp add: table_inv_def shape_ok_def)
  have "map (sess t) [0..<unat (st_max t)] = st_sessions t" unfolding len [symmetric] by (rule map_nth)
  then have "filter p (st_sessions t) = filter p (map (sess t) [0..<unat (st_max t)])" by simp
  also have "\<dots> = map (sess t) (filter (\<lambda>i. p (sess t i)) [0..<unat (st_max t)])"
    by (simp add: filter_map comp_def)
  finally have "snd (sweep p now t [0..<unat (st_max t)]) = concat (map (tail_events now) (filter p (st_sessions t)))"
    by (simp add: u(4) concat_map_if comp_def)
  then have "swept p now t t' (snd (sweep p now t [0..<unat (st_max t)]))"
    using t'(2-4) u(2,3) by (simp add: swept_def)
  then show ?thesis using t'(1) unfolding u_def [symmetric] by (intro exI [of _ t']) simp
qed

lemma expire_idle_ok:
  assumes "table_inv t"
  shows "\<exists>t' evs. expire_idle t now idle = Some (t', evs) \<and> swept (is_idle now idle) now t t' evs"
proof -
  have "\<And>s. is_idle now idle s \<Longrightarrow> ss_active s" by (simp add: is_idle_def)
  from sweep_rebuild_ok [OF this assms, where now = now] show ?thesis
    unfolding expire_idle_def case_prod_beta by blast
qed

lemma flush_all_ok:
  assumes "table_inv t"
  shows "\<exists>t' evs. flush_all t now = Some (t', evs) \<and> swept ss_active now t t' evs"
  using sweep_rebuild_ok [OF _ assms, of ss_active now] unfolding flush_all_def case_prod_beta by blast

end
