(* ===== verification/Session_Props.thy ===== *)
theory Session_Props
  imports Session_Inv
begin

text \<open>
  The contract of the session table as a map from call ids to sessions, stated as a locale and
  discharged on the model, and the properties of every table the program can reach: lookups,
  admission and sweeps.
\<close>

section \<open>Reachable tables\<close>

text \<open>From the constructor by the public operations and by what the hot loop writes through the
  pointer it got from \<open>acquire\<close>.\<close>

inductive table_reach :: "u32 \<Rightarrow> chunker_config \<Rightarrow> session_table \<Rightarrow> bool" for m c where
  reach_new: "table_reach m c (table_new m c)"
| reach_acquire: "table_reach m c t \<Longrightarrow> table_reach m c (fst (acquire t sid now))"
| reach_update: "table_reach m c t \<Longrightarrow> keeps_identity f \<Longrightarrow> table_reach m c (update_session t i f)"
| reach_expire: "table_reach m c t \<Longrightarrow> expire_idle t now idle = Some (t', evs) \<Longrightarrow> table_reach m c t'"
| reach_flush: "table_reach m c t \<Longrightarrow> flush_all t now = Some (t', evs) \<Longrightarrow> table_reach m c t'"

definition capacity_of :: "u32 \<Rightarrow> nat" where
  "capacity_of m = unat (if m = 0 then 1 else m)"

section \<open>The contract\<close>

fun acquire_run :: "('t \<Rightarrow> u32 \<Rightarrow> u64 \<Rightarrow> 't \<times> nat option) \<Rightarrow> 't \<Rightarrow> (u32 \<times> u64) list \<Rightarrow> 't \<times> nat option list" where
  "acquire_run acq t [] = (t, [])"
| "acquire_run acq t ((sid, now) # xs) =
    (case acq t sid now of (t, r) \<Rightarrow> case acquire_run acq t xs of (t, rs) \<Rightarrow> (t, r # rs))"

locale id_table =
  fixes acq :: "'t \<Rightarrow> u32 \<Rightarrow> u64 \<Rightarrow> 't \<times> nat option" and lookup :: "'t \<Rightarrow> u32 \<Rightarrow> nat option"
    and room :: "'t \<Rightarrow> nat" and ok :: "'t \<Rightarrow> bool"
  assumes acq_ok: "ok t \<Longrightarrow> ok (fst (acq t sid now)) \<and> room (fst (acq t sid now)) = room t"
    and acq_hit: "ok t \<Longrightarrow> lookup t sid = Some i \<Longrightarrow>
      snd (acq t sid now) = Some i \<and> lookup (fst (acq t sid now)) = lookup t"
    and acq_full: "ok t \<Longrightarrow> lookup t sid = None \<Longrightarrow> card (dom (lookup t)) = room t \<Longrightarrow>
      snd (acq t sid now) = None \<and> lookup (fst (acq t sid now)) = lookup t"
    and acq_new: "ok t \<Longrightarrow> lookup t sid = None \<Longrightarrow> card (dom (lookup t)) \<noteq> room t \<Longrightarrow>
      \<exists>i. snd (acq t sid now) = Some i \<and> i \<notin> ran (lookup t) \<and> lookup (fst (acq t sid now)) = (lookup t)(sid \<mapsto> i)"
    and lookup_inj: "ok t \<Longrightarrow> inj_on (lookup t) (dom (lookup t))"
    and lookup_room: "ok t \<Longrightarrow> card (dom (lookup t)) \<le> room t"
begin

lemma acq_result:
  assumes "ok t"
  shows "(case snd (acq t sid now) of
      None \<Rightarrow> lookup (fst (acq t sid now)) = lookup t \<and> card (dom (lookup t)) = room t \<and> lookup t sid = None
    | Some i \<Rightarrow> lookup (fst (acq t sid now)) = (lookup t)(sid \<mapsto> i))"
proof (cases "lookup t sid")
  case None
  then show ?thesis using acq_full [OF assms None, of now] acq_new [OF assms None, of now]
    by (cases "card (dom (lookup t)) = room t") auto
next
  case (Some i)
  then show ?thesis using acq_hit [OF assms Some, of now] by (simp add: map_upd_triv)
qed

lemma acq_grows: "ok t \<Longrightarrow> lookup t \<subseteq>\<^sub>m lookup (fst (acq t sid now))"
proof (cases "lookup t sid")
  case None
  assume "ok t"
  then show ?thesis using acq_result [of t sid now] None
    by (cases "snd (acq t sid now)") (auto simp: map_le_def)
next
  case (Some i)
  assume "ok t"
  then show ?thesis using acq_hit [of t sid i now] Some by simp
qed

lemma run_results:
  "ok t \<Longrightarrow> ok (fst (acquire_run acq t xs)) \<and> room (fst (acquire_run acq t xs)) = room t
    \<and> lookup t \<subseteq>\<^sub>m lookup (fst (acquire_run acq t xs))
    \<and> list_all2 (\<lambda>x r. r \<noteq> None \<longrightarrow> lookup (fst (acquire_run acq t xs)) (fst x) = r) xs (snd (acquire_run acq t xs))"
proof (induction xs arbitrary: t)
  case (Cons x xs)
  obtain sid now where x: "x = (sid, now)" by force
  obtain t' r where a: "acq t sid now = (t', r)" by force
  have ok: "ok t'" "room t' = room t" using acq_ok [OF Cons.prems, of sid now] a by auto
  note ih = Cons.IH [OF ok(1)]
  have g: "lookup t \<subseteq>\<^sub>m lookup t'" using acq_grows [OF Cons.prems, of sid now] a by simp
  have "r \<noteq> None \<Longrightarrow> lookup t' sid = r" using acq_result [OF Cons.prems, of sid now] a by auto
  then have "r \<noteq> None \<Longrightarrow> lookup (fst (acquire_run acq t' xs)) sid = r"
    using ih by (auto simp: map_le_def dom_def)
  then show ?case using ih ok(2) map_le_trans [OF g] by (simp add: x a case_prod_beta)
qed simp

text \<open>Two admitted calls of a run share a session exactly when their ids are equal.\<close>

lemma run_consistent:
  assumes "ok t" "i < length xs" "j < length xs"
    "snd (acquire_run acq t xs) ! i = Some a" "snd (acquire_run acq t xs) ! j = Some b"
  shows "a = b \<longleftrightarrow> fst (xs ! i) = fst (xs ! j)"
proof -
  define t' where "t' = fst (acquire_run acq t xs)"
  note r = run_results [OF assms(1), of xs]
  have l: "lookup t' (fst (xs ! i)) = Some a" "lookup t' (fst (xs ! j)) = Some b"
    using r assms(2-5) by (auto simp: list_all2_conv_all_nth t'_def)
  have "inj_on (lookup t') (dom (lookup t'))" using r lookup_inj by (simp add: t'_def)
  then show ?thesis using l by (metis domI inj_on_eq_iff option.inject)
qed

text \<open>No capacity is stranded: as long as the ids in play fit, every call is admitted.\<close>

lemma run_admits:
  assumes "ok t" "card (dom (lookup t) \<union> fst ` set xs) \<le> room t"
  shows "None \<notin> set (snd (acquire_run acq t xs))"
  using assms
proof (induction xs arbitrary: t)
  case (Cons x xs)
  obtain sid now where x: "x = (sid, now)" by force
  obtain t' r where a: "acq t sid now = (t', r)" by force
  have ok: "ok t'" "room t' = room t" using acq_ok [OF Cons.prems(1), of sid now] a by auto
  have fin: "finite (dom (lookup t) \<union> fst ` set (x # xs))"
    by simp
  have "r \<noteq> None"
  proof
    assume "r = None"
    then have n: "card (dom (lookup t)) = room t" "sid \<notin> dom (lookup t)"
      using acq_result [OF Cons.prems(1), of sid now] a by auto
    then have "card (insert sid (dom (lookup t))) = Suc (room t)" by simp
    moreover have "card (insert sid (dom (lookup t))) \<le> card (dom (lookup t) \<union> fst ` set (x # xs))"
      by (rule card_mono [OF fin]) (auto simp: x)
    ultimately show False using Cons.prems(2) by simp
  qed
  then obtain i where "lookup t' = (lookup t)(sid \<mapsto> i)" "r = Some i"
    using acq_result [OF Cons.prems(1), of sid now] a by auto
  then have "dom (lookup t') \<union> fst ` set xs = dom (lookup t) \<union> fst ` set (x # xs)" by (auto simp: x)
  then show ?case using Cons.IH [OF ok(1)] Cons.prems(2) ok(2) \<open>r \<noteq> None\<close> by (auto simp: x a case_prod_beta)
qed simp

end

section \<open>The table provides it\<close>

lemma finite_dom_view [simp]: "finite (dom (view t))"
  by (rule finite_subset [OF subset_UNIV]) simp

lemma card_view_room:
  assumes "table_inv t"
  shows "card (dom (view t)) = card (live_set t)" "card (dom (view t)) \<le> unat (st_max t)"
    "card (dom (view t)) = unat (st_max t) \<longleftrightarrow> st_free t = []"
  using card_dom_view [of t] card_live_set [of t] free_empty_iff [OF assms] assms
  by (simp_all add: table_inv_def)

lemma acquire_new:
  assumes "table_ok t" "view t sid = None" "st_free t \<noteq> []"
  shows "\<exists>i t'. acquire t sid now = (t', Some i) \<and> table_ok t' \<and> st_max t' = st_max t
    \<and> view t' = (view t)(sid \<mapsto> i) \<and> i \<notin> live_set t \<and> i < unat (st_max t)
    \<and> (\<forall>j. sess t' j = (if j = i then opened_session (sess t i) sid now else sess t j))"
proof -
  have t: "table_inv t" "st_tombstones t * 4 \<le> length (st_slots t)" using assms(1) by (auto simp: table_ok_def)
  obtain m e where a: "acquire t sid now = (insert_session t (chain t sid e) sid now, Some (unat (last (st_free t))))"
      "scanned t sid 0 m" "e \<le> m" "e < length (st_slots t)" "\<not> is_index (at_chain t sid e)"
    using acquire_insert [OF t(1) assms(2,3) exists_empty [OF t]] by blast
  note i = insert_session_inv(1,2,5) [OF t(1) assms(2,3) a(2-5), where now = now]
    and j = insert_session_inv(3,4) [OF t(1) assms(2,3) a(2-5)]
  define t' where "t' = insert_session t (chain t sid e) sid now"
  have "table_ok t'" using i(1,3) t(2) by (simp add: table_ok_def t'_def)
  moreover have "unat (last (st_free t)) < length (st_sessions t)"
    using j(1) t(1) by (simp add: table_inv_def shape_ok_def)
  then have "sess t' j = (if j = unat (last (st_free t)) then opened_session (sess t (unat (last (st_free t)))) sid now
      else sess t j)" for j
    by (simp add: t'_def nth_list_update)
  ultimately show ?thesis using a(1) i(2) j by (intro exI) (auto simp: t'_def)
qed

lemma acquire_ok:
  assumes "table_ok t"
  shows "table_ok (fst (acquire t sid now)) \<and> st_max (fst (acquire t sid now)) = st_max t"
proof -
  have t: "table_inv t" using assms by (simp add: table_ok_def)
  show ?thesis
  proof (cases "view t sid")
    case (Some i)
    have "keeps_identity (\<lambda>s. s\<lparr>ss_last_frame_ns := now\<rparr>)" by (simp add: keeps_identity_def)
    then show ?thesis
      using update_session_inv [OF t] assms by (simp add: acquire_live [OF t Some] table_ok_def)
  next
    case None
    show ?thesis
    proof (cases "st_free t = []")
      case True
      then show ?thesis using acquire_refused [OF t None True] assms by (simp add: table_ok_def)
    next
      case False
      then show ?thesis using acquire_new [OF assms None False, of now] by auto
    qed
  qed
qed

interpretation sessions: id_table acquire view "\<lambda>t. unat (st_max t)" table_ok
proof (unfold_locales, goal_cases)
  case (1 t sid now)
  then show ?case using acquire_ok by simp
next
  case (2 t sid i now)
  then have "table_inv t" by (simp add: table_ok_def)
  moreover have "keeps_identity (\<lambda>s. s\<lparr>ss_last_frame_ns := now\<rparr>)" by (simp add: keeps_identity_def)
  ultimately show ?case using acquire_live update_session_inv(2) 2 by simp
next
  case (3 t sid now)
  then have "table_inv t" by (simp add: table_ok_def)
  then show ?case using acquire_refused [of t sid now] card_view_room [of t] 3 by simp
next
  case (4 t sid now)
  then have t: "table_inv t" by (simp add: table_ok_def)
  then obtain i t' where "acquire t sid now = (t', Some i)" "view t' = (view t)(sid \<mapsto> i)" "i \<notin> live_set t"
    using acquire_new [OF 4(1,2), of now] card_view_room [OF t] 4(3) by auto
  moreover have "ran (view t) = live_set t" using ran_view t by (simp add: table_inv_def)
  ultimately show ?case by auto
next
  case (5 t)
  then show ?case using view_inj by (simp add: table_ok_def table_inv_def)
next
  case (6 t)
  then show ?case using card_view_room(2) by (simp add: table_ok_def)
qed

lemma reach_ok:
  assumes "m < kTombstone" "table_reach m c t"
  shows "table_ok t \<and> unat (st_max t) = capacity_of m"
  using assms(2)
proof (induction rule: table_reach.induct)
  case reach_new
  then show ?case using table_ok_new [OF assms(1), of c] by (simp add: table_new_def capacity_of_def Let_def)
next
  case (reach_acquire t sid now)
  then show ?case using acquire_ok [of t sid now] by simp
next
  case (reach_update t f i)
  then show ?case using update_session_inv(1) [of t f i] by (simp add: table_ok_def)
next
  case (reach_expire t now idle t' evs)
  then show ?case using expire_idle_ok [of t now idle] by (auto simp: table_ok_def swept_def)
next
  case (reach_flush t now t' evs)
  then show ?case using flush_all_ok [of t now] by (auto simp: table_ok_def swept_def)
qed

lemma swept_view:
  assumes "table_inv t" "swept p now t t' evs" "\<And>s. p s \<Longrightarrow> ss_active s"
  shows "view t' sid = (case view t sid of None \<Rightarrow> None | Some i \<Rightarrow> if p (sess t i) then None else Some i)"
    "view t' sid = Some i \<Longrightarrow> sess t' i = sess t i"
proof -
  have ix: "index_ok t" "index_ok t'" and m: "st_max t' = st_max t"
    and s: "\<And>j. j < unat (st_max t) \<Longrightarrow> sess t' j = (if p (sess t j) then closed_session now (sess t j) else sess t j)"
    using assms(1,2) by (auto simp: swept_def table_ok_def table_inv_def)
  have c: "\<not> ss_active (closed_session now x)" for x by (simp add: closed_session_def)
  have "view t' sid = Some j \<longleftrightarrow> view t sid = Some j \<and> \<not> p (sess t j)" for j
    unfolding view_Some [OF ix(1)] view_Some [OF ix(2)] m using s [of j] c assms(3)
    by (cases "p (sess t j)") auto
  note iff = this
  show "view t' sid = (case view t sid of None \<Rightarrow> None | Some i \<Rightarrow> if p (sess t i) then None else Some i)"
  proof (cases "view t sid")
    case None
    then have "view t' sid \<noteq> Some j" for j using iff [of j] by simp
    then have "view t' sid = None" by (metis not_Some_eq)
    then show ?thesis using None by simp
  next
    case (Some i)
    show ?thesis
    proof (cases "p (sess t i)")
      case True
      then have "view t' sid \<noteq> Some j" for j using iff [of j] Some by auto
      then have "view t' sid = None" by (metis not_Some_eq)
      then show ?thesis using Some True by simp
    next
      case False
      then show ?thesis using iff [of i] Some by simp
    qed
  qed
  show "sess t' i = sess t i" if "view t' sid = Some i"
    using that s [of i] c unfolding view_Some [OF ix(2)] m by (auto split: if_splits)
qed

lemma view_new: "m < kTombstone \<Longrightarrow> view (table_new m c) = Map.empty"
proof -
  assume "m < kTombstone"
  then have ix: "index_ok (table_new m c)" using table_ok_new by (simp add: table_ok_def table_inv_def)
  have "\<not> ss_active (sess (table_new m c) i)" if "i < unat (st_max (table_new m c))" for i
    using that by (simp add: table_new_def Let_def session_new_def)
  then show ?thesis using view_None [OF ix] by (intro ext) auto
qed

section \<open>Properties\<close>

text \<open>C21: On every reachable table \<open>acquire\<close> is a lookup-or-insert in a map from call ids to sessions:
  the live session of a known id, a fresh session for a new id as long as fewer sessions than the
  capacity are live, and otherwise, and only then, a counted refusal. Tombstones and collisions
  never hide a session and never open a second one for the same call.\<close>

theorem acquire_refines_map:
  assumes "m < kTombstone" and "table_reach m c t"
  shows "(case view t sid of
      Some i \<Rightarrow> snd (acquire t sid now) = Some i \<and> view (fst (acquire t sid now)) = view t
    | None \<Rightarrow>
        if card (dom (view t)) = capacity_of m
        then snd (acquire t sid now) = None \<and> view (fst (acquire t sid now)) = view t
             \<and> st_rejected (fst (acquire t sid now)) = st_rejected t + 1
        else \<exists>i < capacity_of m. snd (acquire t sid now) = Some i \<and> i \<notin> ran (view t)
             \<and> view (fst (acquire t sid now)) = (view t)(sid \<mapsto> i))"
proof -
  have ok: "table_ok t" and cap: "unat (st_max t) = capacity_of m" using reach_ok [OF assms] by auto
  have inv: "table_inv t" using ok by (simp add: table_ok_def)
  show ?thesis
  proof (cases "view t sid")
    case (Some i)
    then show ?thesis using sessions.acq_hit [OF ok Some, of now] by simp
  next
    case None
    show ?thesis
    proof (cases "card (dom (view t)) = capacity_of m")
      case True
      then have "st_free t = []" using card_view_room(3) [OF inv] cap by simp
      then show ?thesis using None True acquire_refused [OF inv None] by simp
    next
      case False
      then have "st_free t \<noteq> []" using card_view_room(3) [OF inv] cap by simp
      then show ?thesis
        using None False acquire_new [OF ok None, of now] ran_view [of t] inv cap by (auto simp: table_inv_def)
    qed
  qed
qed

lemma acquire_refines_map_witness:
  "\<exists>i < 2. snd (acquire (table_new 2 (sample_config 100)) 77 5) = Some i
    \<and> view (fst (acquire (table_new 2 (sample_config 100)) 77 5)) = [77 \<mapsto> i]"
proof -
  have m: "(2 :: u32) < kTombstone" by (simp add: kTombstone_def)
  show ?thesis
    using acquire_refines_map [OF m reach_new, where c = "sample_config 100" and sid = 77 and now = 5] view_new [OF m, of "sample_config 100"]
    by (simp add: capacity_of_def)
qed

text \<open>Frames are routed consistently: whatever the interleaving of calls, two frames that were
  admitted reach the same session exactly when they carry the same call id.\<close>

theorem routing_consistent:
  assumes "m < kTombstone" and "table_reach m c t" and "i < length xs" and "j < length xs"
    and "snd (acquire_run acquire t xs) ! i = Some a" and "snd (acquire_run acquire t xs) ! j = Some b"
  shows "a = b \<longleftrightarrow> fst (xs ! i) = fst (xs ! j)"
  using sessions.run_consistent [OF conjunct1 [OF reach_ok [OF assms(1,2)]] assms(3-6)] .

text \<open>No capacity is stranded: when the calls already live and the calls of a stretch of frames
  together do not exceed the capacity, every frame of the stretch is admitted.\<close>

theorem calls_that_fit_are_admitted:
  assumes "m < kTombstone" and "table_reach m c t"
    and "card (dom (view t) \<union> fst ` set xs) \<le> capacity_of m"
  shows "None \<notin> set (snd (acquire_run acquire t xs))"
  using sessions.run_admits [of t xs] reach_ok [OF assms(1,2)] assms(3) by simp

lemma calls_that_fit_are_admitted_witness:
  "None \<notin> set (snd (acquire_run acquire (table_new 2 (sample_config 100)) [(7, 1), (8, 2), (7, 3)]))"
proof -
  have m: "(2 :: u32) < kTombstone" by (simp add: kTombstone_def)
  have "dom (view (table_new 2 (sample_config 100))) \<union> fst ` set [(7 :: u32, 1 :: u64), (8, 2), (7, 3)] = {7, 8}"
    using view_new [OF m, of "sample_config 100"] by auto
  then show ?thesis
    by (intro calls_that_fit_are_admitted [OF m reach_new]) (simp add: capacity_of_def)
qed

lemma routing_consistent_witness:
  "\<exists>a b. snd (acquire_run acquire (table_new 2 (sample_config 100)) [(7, 1), (8, 2)]) = [Some a, Some b] \<and> a \<noteq> b"
proof -
  have m: "(2 :: u32) < kTombstone" by (simp add: kTombstone_def)
  define r where "r = snd (acquire_run acquire (table_new 2 (sample_config 100)) [(7, 1), (8, 2)])"
  have "dom (view (table_new 2 (sample_config 100))) \<union> fst ` set [(7 :: u32, 1 :: u64), (8, 2)] = {7, 8}"
    using view_new [OF m, of "sample_config 100"] by auto
  then have n: "None \<notin> set r" unfolding r_def
    using sessions.run_admits [of "table_new 2 (sample_config 100)" "[(7, 1), (8, 2)]"]
      reach_ok [OF m reach_new, of "sample_config 100"] by (simp add: capacity_of_def)
  have "length r = 2" by (simp add: r_def case_prod_beta)
  then obtain a b where r: "r = [a, b]" by (auto simp: numeral_2_eq_2 length_Suc_conv)
  then obtain x y where "a = Some x" "b = Some y" using n by (cases a; cases b) auto
  then show ?thesis
    using routing_consistent [OF m reach_new, of 0 "[(7, 1), (8, 2)]" 1 "sample_config 100" x y] r
    unfolding r_def by simp
qed

text \<open>C30: The idle sweep always finishes, rebuild included, and closes exactly the sessions without
  a frame for the idle time: their open chunks are handed out, in session order, with their call
  ids and reason stream-end, their ids are forgotten, and every other live call keeps its session
  unchanged and is still found.\<close>

theorem expire_idle_closes_exactly_the_idle:
  assumes "m < kTombstone" and "table_reach m c t"
  shows "\<exists>t'. expire_idle t now idle
        = Some (t', concat (map (tail_events now) (filter (is_idle now idle) (st_sessions t))))
    \<and> (\<forall>sid. view t' sid =
          (case view t sid of None \<Rightarrow> None | Some i \<Rightarrow> if is_idle now idle (sess t i) then None else Some i))
    \<and> (\<forall>sid i. view t' sid = Some i \<longrightarrow> sess t' i = sess t i)"
proof -
  have inv: "table_inv t" using reach_ok [OF assms] by (simp add: table_ok_def)
  obtain t' evs where e: "expire_idle t now idle = Some (t', evs)" "swept (is_idle now idle) now t t' evs"
    using expire_idle_ok [OF inv] by blast
  have p: "\<And>s. is_idle now idle s \<Longrightarrow> ss_active s" by (simp add: is_idle_def)
  show ?thesis
    using e swept_view [OF inv e(2) p] by (intro exI [of _ t']) (auto simp: swept_def)
qed

lemma expire_idle_closes_exactly_the_idle_witness:
  "\<exists>t'. expire_idle (fst (acquire (table_new 2 (sample_config 100)) 77 5)) 50 20 = Some (t', []) \<and> view t' 77 = None"
proof -
  have m: "(2 :: u32) < kTombstone" by (simp add: kTombstone_def)
  define t where "t = fst (acquire (table_new 2 (sample_config 100)) 77 5)"
  have new: "table_ok (table_new 2 (sample_config 100))" "view (table_new 2 (sample_config 100)) 77 = None"
    using table_ok_new [OF m] view_new [OF m] by simp_all
  have free: "st_free (table_new 2 (sample_config 100)) \<noteq> []" by (simp add: table_new_def Let_def)
  have two: "unat (st_max (table_new 2 (sample_config 100))) = 2" by (simp add: table_new_def Let_def)
  obtain i t1 where a: "acquire (table_new 2 (sample_config 100)) 77 5 = (t1, Some i)" "table_ok t1"
      "view t1 = (view (table_new 2 (sample_config 100)))(77 \<mapsto> i)" "i < 2"
      "\<And>j. sess t1 j = (if j = i then opened_session (sess (table_new 2 (sample_config 100)) i) 77 5
        else sess (table_new 2 (sample_config 100)) j)"
    using acquire_new [OF new free, of 5] unfolding two by blast
  have "t1 = t" by (simp add: t_def a(1))
  then have i: "view t 77 = Some i" "i < 2" "table_ok t"
      "\<And>j. sess t j = (if j = i then opened_session (sess (table_new 2 (sample_config 100)) i) 77 5
        else sess (table_new 2 (sample_config 100)) j)"
    using a(2-5) by simp_all
  have "st_max t = st_max (table_new 2 (sample_config 100))"
    unfolding t_def by (rule conjunct2 [OF acquire_ok [OF new(1)]])
  then have "st_max t = 2" by (simp add: table_new_def Let_def)
  then have l: "length (st_sessions t) = 2" using i(3) by (simp add: table_ok_def table_inv_def shape_ok_def)
  have "tail_events 50 s = []" if mem: "s \<in> set (st_sessions t)" for s
  proof -
    obtain j where j: "j < length (st_sessions t)" "sess t j = s"
      using mem unfolding in_set_conv_nth by blast
    have "sess (table_new 2 (sample_config 100)) k = session_new (sample_config 100)" if "k < 2" for k
      using that by (simp add: table_new_def Let_def)
    then have "ss_assembler s = asm_new (sample_config 100)"
      using i(2,4) j l by (cases "j = i") (simp_all add: session_new_def flip: j(2))
    then show ?thesis by (simp add: tail_events_def flush_def asm_new_def)
  qed
  then have ev: "concat (map (tail_events 50) (filter (is_idle 50 20) (st_sessions t))) = []" by simp
  have idle: "is_idle 50 20 (sess t i)" by (simp add: i(4) is_idle_def word_less_nat_alt)
  have r: "table_reach 2 (sample_config 100) t" unfolding t_def by (intro reach_acquire reach_new)
  show ?thesis
    using expire_idle_closes_exactly_the_idle [OF m r, of 50 20] i(1) idle
    unfolding t_def [symmetric] ev by fastforce
qed

text \<open>Shutting down flushes every live call: \<open>flush_all\<close> always finishes, hands out the open chunk
  of every live session, in session order, and leaves no call live.\<close>

theorem flush_all_closes_everything:
  assumes "m < kTombstone" and "table_reach m c t"
  shows "\<exists>t'. flush_all t now = Some (t', concat (map (tail_events now) (filter ss_active (st_sessions t))))
    \<and> view t' = Map.empty \<and> unat (st_live t') = 0"
proof -
  have inv: "table_inv t" using reach_ok [OF assms] by (simp add: table_ok_def)
  obtain t' evs where e: "flush_all t now = Some (t', evs)" "swept ss_active now t t' evs"
    using flush_all_ok [OF inv] by blast
  have ix: "index_ok t" using inv by (simp add: table_inv_def)
  have "view t' sid = None" for sid
    using swept_view(1) [OF inv e(2), of sid] view_Some [OF ix, of sid] by (auto split: option.splits)
  then have v: "view t' = Map.empty" by auto
  have inv': "table_inv t'" using e(2) by (simp add: swept_def table_ok_def)
  then have "unat (st_live t') = 0"
    using card_view_room(1) [OF inv'] v by (simp add: table_inv_def counts_ok_def)
  then show ?thesis using e v by (auto simp: swept_def)
qed

lemma flush_all_closes_everything_witness:
  "\<exists>t'. flush_all (fst (acquire (table_new 2 (sample_config 100)) 77 5)) 50 = Some (t',
      concat (map (tail_events 50) (filter ss_active (st_sessions (fst (acquire (table_new 2 (sample_config 100)) 77 5))))))
    \<and> view t' 77 = None"
proof -
  have m: "(2 :: u32) < kTombstone" by (simp add: kTombstone_def)
  have r: "table_reach 2 (sample_config 100) (fst (acquire (table_new 2 (sample_config 100)) 77 5))"
    by (intro reach_acquire reach_new)
  show ?thesis using flush_all_closes_everything [OF m r, of 50] by auto
qed

end
