(* ===== verification/Spsc_Ring.thy ===== *)
theory Spsc_Ring
  imports Prelude
begin

text \<open>
  The single-producer single-consumer ring of \<open>include/vhp/spsc_ring.hpp\<close>: 64-bit indices that
  are never reset, a slot mask, and a cached copy of the other side's index on each side. This
  theory holds the operations as sequential functions, the contract of a bounded queue as a
  locale, and the proof that the ring provides it for every value of the indices, the
  wrap-around of \<open>2 ^ 64\<close> included. \<open>Spsc_Concurrent\<close> runs the two sides concurrently.
\<close>

section \<open>State and operations\<close>

datatype push_result = KOk | KFull

record 'a ring =
  rg_head :: u64
  rg_tail_cache :: u64
  rg_tail :: u64
  rg_head_cache :: u64
  rg_slots :: "'a list"

text \<open>The static assertions on \<open>Capacity\<close>; it is a \<open>std::size_t\<close>, so below \<open>2 ^ 64\<close>.\<close>

definition valid_capacity :: "nat \<Rightarrow> bool" where
  "valid_capacity c \<longleftrightarrow> 2 \<le> c \<and> c AND (c - 1) = 0 \<and> c < 2 ^ 64"

definition capacity :: "'a ring \<Rightarrow> u64" where
  "capacity r = of_nat (length (rg_slots r))"

definition ring_new :: "nat \<Rightarrow> 'a \<Rightarrow> 'a ring" where
  "ring_new c z = \<lparr>rg_head = 0, rg_tail_cache = 0, rg_tail = 0, rg_head_cache = 0, rg_slots = replicate c z\<rparr>"

text \<open>\<open>index & kMask\<close>.\<close>

definition slot_of :: "'a ring \<Rightarrow> u64 \<Rightarrow> nat" where
  "slot_of r i = unat (i AND (capacity r - 1))"

definition put_slot :: "'a ring \<Rightarrow> u64 \<Rightarrow> 'a \<Rightarrow> 'a ring" where
  "put_slot r head v = r\<lparr>rg_slots := (rg_slots r)[slot_of r head := v], rg_head := head + 1\<rparr>"

definition try_push :: "'a ring \<Rightarrow> 'a \<Rightarrow> 'a ring \<times> push_result" where
  "try_push r v =
    (let head = rg_head r
     in if head - rg_tail_cache r \<ge> capacity r then
          (let r = r\<lparr>rg_tail_cache := rg_tail r\<rparr>
           in if head - rg_tail_cache r \<ge> capacity r then (r, KFull)
              else (put_slot r head v, KOk))
        else (put_slot r head v, KOk))"

text \<open>The returned option stands for the boolean result and the written out-parameter.\<close>

definition try_pop :: "'a ring \<Rightarrow> 'a ring \<times> 'a option" where
  "try_pop r =
    (let tail = rg_tail r;
         take_slot = (\<lambda>r. (r\<lparr>rg_tail := tail + 1\<rparr>, Some (rg_slots r ! slot_of r tail)))
     in if tail = rg_head_cache r then
          (let r = r\<lparr>rg_head_cache := rg_head r\<rparr>
           in if tail = rg_head_cache r then (r, None) else take_slot r)
        else take_slot r)"

definition produced :: "'a ring \<Rightarrow> u64" where
  "produced r = rg_head r"

definition consumed :: "'a ring \<Rightarrow> u64" where
  "consumed r = rg_tail r"

definition ring_size :: "'a ring \<Rightarrow> nat" where
  "ring_size r = unat (produced r - consumed r)"

definition ring_empty :: "'a ring \<Rightarrow> bool" where
  "ring_empty r \<longleftrightarrow> ring_size r = 0"

section \<open>Capacities and slots\<close>

lemma and_pred_pow2:
  assumes "0 < n" "n AND (n - 1) = 0"
  shows "\<exists>k. n = (2 :: nat) ^ k"
  using assms
proof (induction n rule: less_induct)
  case (less n)
  show ?case
  proof (cases "even n")
    case True
    then obtain m where m: "n = 2 * m" "0 < m" using less.prems by auto
    have "odd (n - 1)" "(n - 1) div 2 = m - 1" using m by auto
    then have "n AND (n - 1) = 2 * (m AND (m - 1))"
      using m by (subst and_rec) simp
    then have "m AND (m - 1) = 0" using less.prems by simp
    then obtain k where "m = 2 ^ k" using less.IH [of m] m by auto
    then show ?thesis using m by (intro exI [of _ "Suc k"]) simp
  next
    case False
    then obtain m where m: "n = 2 * m + 1" by (auto elim: oddE)
    then have "n AND (n - 1) = 2 * (m AND m)" by (subst and_rec) simp
    then have "m = 0" using less.prems by simp
    then show ?thesis using m by (intro exI [of _ 0]) simp
  qed
qed

lemma valid_capacity_pow2: "valid_capacity c \<Longrightarrow> \<exists>k. c = 2 ^ k \<and> 0 < k \<and> k < 64"
proof -
  assume v: "valid_capacity c"
  then obtain k where k: "c = 2 ^ k" using and_pred_pow2 [of c] by (auto simp: valid_capacity_def)
  have "k < 64" using v power_less_imp_less_exp [of "2 :: nat" k 64] by (simp add: valid_capacity_def k)
  moreover have "k \<noteq> 0" using v by (auto simp: valid_capacity_def k intro!: Nat.gr0I)
  ultimately show ?thesis using k by auto
qed

lemma valid_capacity_pow2_iff: "valid_capacity (2 ^ k) \<longleftrightarrow> 0 < k \<and> k < 64"
proof
  assume "valid_capacity (2 ^ k)"
  then show "0 < k \<and> k < 64" using valid_capacity_pow2 by force
next
  assume k: "0 < k \<and> k < 64"
  then have "(2 :: nat) \<le> 2 ^ k" using power_increasing [of 1 k "2 :: nat"] by simp
  moreover have "(2 :: nat) ^ k AND (2 ^ k - 1) = 0" using nat_and_mask [of "2 ^ k" k] by simp
  ultimately show "valid_capacity (2 ^ k)"
    using k power_strict_increasing [of k 64 "2 :: nat"] by (simp add: valid_capacity_def)
qed

lemma unat_and_mask: "k < 64 \<Longrightarrow> unat ((i :: u64) AND (2 ^ k - 1)) = unat i mod 2 ^ k"
proof -
  assume "k < 64"
  have "i AND (2 ^ k - 1) = take_bit k i" by (simp add: take_bit_eq_mask mask_eq_exp_minus_1)
  then show ?thesis by (simp only: unsigned_take_bit_eq take_bit_eq_mod [of k "unat i"])
qed

lemma unat_of_nat_mod_capacity:
  assumes "valid_capacity c"
  shows "unat (of_nat n AND (of_nat c - 1 :: u64)) = n mod c"
proof -
  obtain k where k: "c = 2 ^ k" "k < 64" using valid_capacity_pow2 [OF assms] by auto
  have "(2 :: nat) ^ k dvd 2 ^ 64" by (rule le_imp_power_dvd) (use k(2) in simp)
  then have "n mod 2 ^ 64 mod 2 ^ k = n mod 2 ^ k" by (rule mod_mod_cancel)
  then show ?thesis
    using unat_and_mask [OF k(2), of "of_nat n"] by (simp add: k(1) unat_of_nat take_bit_eq_mod)
qed

lemma unat_capacity: "valid_capacity (length (rg_slots r)) \<Longrightarrow> unat (capacity r) = length (rg_slots r)"
  unfolding capacity_def by (rule unat_of_nat_small) (simp add: valid_capacity_def)

section \<open>The invariant\<close>

text \<open>
  \<open>ring_at r T h tc hc\<close>: the indices of \<open>r\<close> stand for the numbers of pops \<open>T\<close> and pushes \<open>h\<close>, and the
  cached indices for earlier values \<open>tc\<close> and \<open>hc\<close> of them.
\<close>

definition ring_at :: "'a ring \<Rightarrow> nat \<Rightarrow> nat \<Rightarrow> nat \<Rightarrow> nat \<Rightarrow> bool" where
  "ring_at r T h tc hc \<longleftrightarrow> valid_capacity (length (rg_slots r))
    \<and> rg_head r = of_nat h \<and> rg_tail r = of_nat T \<and> rg_tail_cache r = of_nat tc \<and> rg_head_cache r = of_nat hc
    \<and> tc \<le> T \<and> T \<le> hc \<and> hc \<le> h \<and> h \<le> tc + length (rg_slots r)"

definition ring_wf :: "'a ring \<Rightarrow> bool" where
  "ring_wf r \<longleftrightarrow> (\<exists>T h tc hc. ring_at r T h tc hc)"

text \<open>The queued values, oldest first, as the indices describe them.\<close>

definition ring_items :: "'a ring \<Rightarrow> 'a list" where
  "ring_items r = map (\<lambda>i. rg_slots r ! slot_of r (rg_tail r + of_nat i)) [0..<ring_size r]"

lemma ring_at_new: "valid_capacity c \<Longrightarrow> ring_at (ring_new c z) 0 0 0 0"
  by (simp add: ring_at_def ring_new_def)

lemma ring_at_facts:
  assumes "ring_at r T h tc hc"
  shows "slot_of r (of_nat n) = n mod length (rg_slots r)"
    "ring_size r = h - T"
    "(of_nat h - of_nat tc \<ge> capacity r) = (h - tc = length (rg_slots r))"
    "(of_nat h - of_nat T \<ge> capacity r) = (h - T = length (rg_slots r))"
    "(of_nat T = rg_head_cache r) = (T = hc)"
    "(of_nat T = rg_head r) = (T = h)"
proof -
  define c where "c = length (rg_slots r)"
  have v: "valid_capacity c" and c: "c < 2 ^ 64" "unat (capacity r) = c"
    using assms unat_capacity [of r] by (auto simp: ring_at_def c_def valid_capacity_def)
  have d: "unat (of_nat a - of_nat b :: u64) = a - b" if "b \<le> a" "a - b \<le> c" for a b
    using that c(1) by (intro unat_of_nat_diff) auto
  have e: "(of_nat a = (of_nat b :: u64)) = (a = b)" if "b \<le> a" "a - b \<le> c" for a b
    using d [OF that] that by (metis diff_is_0_eq' diff_self le_antisym le_refl unsigned_0 diff_is_0_eq)
  show "slot_of r (of_nat n) = n mod length (rg_slots r)"
    using unat_of_nat_mod_capacity [OF v, of n] by (simp add: slot_of_def capacity_def c_def)
  have o: "tc \<le> T" "T \<le> hc" "hc \<le> h" "h - tc \<le> c" using assms by (auto simp: ring_at_def c_def)
  show "ring_size r = h - T"
    using d [of T h] o assms by (simp add: ring_size_def produced_def consumed_def ring_at_def)
  show "(of_nat h - of_nat tc \<ge> capacity r) = (h - tc = length (rg_slots r))"
    using d [of tc h] o c(2) by (auto simp: word_le_nat_alt c_def)
  show "(of_nat h - of_nat T \<ge> capacity r) = (h - T = length (rg_slots r))"
    using d [of T h] o c(2) by (auto simp: word_le_nat_alt c_def)
  show "(of_nat T = rg_head_cache r) = (T = hc)" "(of_nat T = rg_head r) = (T = h)"
    using e [of T hc] e [of T h] o assms by (simp_all add: ring_at_def eq_commute)
qed

lemma ring_items_at:
  assumes "ring_at r T h tc hc"
  shows "ring_items r = map (\<lambda>i. rg_slots r ! (i mod length (rg_slots r))) [T..<h]"
proof -
  have t: "rg_tail r + of_nat i = of_nat (T + i)" for i using assms by (simp add: ring_at_def)
  have le: "T \<le> h" using assms by (simp add: ring_at_def)
  show ?thesis
    unfolding ring_items_def t ring_at_facts(1,2) [OF assms]
    by (rule nth_equalityI) (use le in \<open>auto simp: nth_append\<close>)
qed

lemma length_ring_items: "ring_wf r \<Longrightarrow> length (ring_items r) = ring_size r"
  by (simp add: ring_items_def)

lemma slots_update_other:
  assumes "T \<le> i" "i < h" "h < T + c" "0 < (c :: nat)" "length xs = c"
  shows "xs[h mod c := v] ! (i mod c) = xs ! (i mod c)"
proof -
  have "i mod c \<noteq> h mod c"
  proof
    assume "i mod c = h mod c"
    then have "c dvd h - i" using assms(2) by (metis less_imp_le_nat mod_eq_dvd_iff_nat)
    then show False using assms by (auto dest: dvd_imp_le)
  qed
  then show ?thesis by simp
qed

section \<open>The operations on the invariant\<close>

lemma put_slot_at:
  assumes "ring_at r T h tc hc" "h - tc < length (rg_slots r)"
  shows "ring_at (put_slot r (of_nat h) v) T (h + 1) tc hc"
    "ring_items (put_slot r (of_nat h) v) = ring_items r @ [v]"
proof -
  show w: "ring_at (put_slot r (of_nat h) v) T (h + 1) tc hc"
    using assms by (auto simp: ring_at_def put_slot_def)
  have o: "tc \<le> T" "T \<le> h" "h < T + length (rg_slots r)" "0 < length (rg_slots r)"
    using assms by (auto simp: ring_at_def)
  have s: "rg_slots (put_slot r (of_nat h) v) = (rg_slots r)[h mod length (rg_slots r) := v]"
    by (simp add: put_slot_def ring_at_facts(1) [OF assms(1)])
  show "ring_items (put_slot r (of_nat h) v) = ring_items r @ [v]"
    unfolding ring_items_at [OF w] ring_items_at [OF assms(1)] s
    using o slots_update_other [of T _ h "length (rg_slots r)" "rg_slots r" v] by auto
qed

lemma ring_at_refresh_tail:
  "ring_at r T h tc hc \<Longrightarrow> ring_at (r\<lparr>rg_tail_cache := rg_tail r\<rparr>) T h T hc"
  by (auto simp: ring_at_def)

lemma ring_at_refresh_head:
  "ring_at r T h tc hc \<Longrightarrow> ring_at (r\<lparr>rg_head_cache := rg_head r\<rparr>) T h tc h"
  by (auto simp: ring_at_def)

lemma ring_items_refresh [simp]:
  "ring_items (r\<lparr>rg_tail_cache := x\<rparr>) = ring_items r" "ring_items (r\<lparr>rg_head_cache := x\<rparr>) = ring_items r"
  "capacity (r\<lparr>rg_tail_cache := x\<rparr>) = capacity r"
  by (simp_all add: ring_items_def ring_size_def produced_def consumed_def slot_of_def capacity_def)

lemma put_slot_wf:
  assumes "ring_at r T h tc hc" "h - tc < length (rg_slots r)"
  shows "ring_wf (put_slot r (of_nat h) v) \<and> length (rg_slots (put_slot r (of_nat h) v)) = length (rg_slots r)
    \<and> ring_items (put_slot r (of_nat h) v) = ring_items r @ [v]"
  using put_slot_at [OF assms, of v] by (auto simp: ring_wf_def put_slot_def)

lemma try_push_at:
  assumes at: "ring_at r T h tc hc"
  shows "ring_wf (fst (try_push r v)) \<and> length (rg_slots (fst (try_push r v))) = length (rg_slots r)
    \<and> (if length (ring_items r) < length (rg_slots r)
       then snd (try_push r v) = KOk \<and> ring_items (fst (try_push r v)) = ring_items r @ [v]
       else snd (try_push r v) = KFull \<and> ring_items (fst (try_push r v)) = ring_items r)"
proof -
  define r' where "r' = r\<lparr>rg_tail_cache := rg_tail r\<rparr>"
  have at': "ring_at r' T h T hc" unfolding r'_def by (rule ring_at_refresh_tail [OF at])
  have i: "ring_items r' = ring_items r" "rg_slots r' = rg_slots r" "capacity r' = capacity r"
      "rg_head r = of_nat h"
    using at by (simp_all add: r'_def ring_at_def)
  have c: "(rg_head r - rg_tail_cache r \<ge> capacity r) = (h - tc = length (rg_slots r))"
      "(rg_head r - rg_tail_cache r' \<ge> capacity r') = (h - T = length (rg_slots r))"
    using ring_at_facts(3) [OF at] ring_at_facts(3) [OF at'] at at' i(2) by (simp_all add: ring_at_def)
  have n: "length (ring_items r) = h - T" using ring_items_at [OF at] by simp
  have le: "h - tc \<le> length (rg_slots r)" "tc \<le> T" using at by (auto simp: ring_at_def)
  show ?thesis
  proof (cases "h - tc = length (rg_slots r)")
    case False
    then have "h - tc < length (rg_slots r)" using le by simp
    moreover have "try_push r v = (put_slot r (of_nat h) v, KOk)"
      unfolding try_push_def Let_def r'_def [symmetric] c using False i(4) by simp
    ultimately show ?thesis using put_slot_wf [OF at, of v] n le by simp
  next
    case True
    have u: "try_push r v = (if h - T = length (rg_slots r) then (r', KFull) else (put_slot r' (of_nat h) v, KOk))"
      unfolding try_push_def Let_def r'_def [symmetric] c using True i(4) by simp
    show ?thesis
    proof (cases "h - T = length (rg_slots r)")
      case True
      then show ?thesis using at' n i by (auto simp: u ring_wf_def)
    next
      case False
      then have "h - T < length (rg_slots r')" using le i(2) by simp
      then show ?thesis using put_slot_wf [OF at', of v] False n i by (simp add: u)
    qed
  qed
qed

lemma take_slot_at:
  assumes at: "ring_at r T h tc hc" and lt: "T < hc"
  shows "ring_wf (r\<lparr>rg_tail := of_nat T + 1\<rparr>)
    \<and> ring_items r = rg_slots r ! slot_of r (of_nat T) # ring_items (r\<lparr>rg_tail := of_nat T + 1\<rparr>)"
proof -
  have at': "ring_at (r\<lparr>rg_tail := of_nat T + 1\<rparr>) (T + 1) h tc hc"
    using at lt by (auto simp: ring_at_def)
  have "T < h" using at lt by (auto simp: ring_at_def)
  then have "[T..<h] = T # [T + 1..<h]" by (simp add: upt_conv_Cons)
  then show ?thesis
    using at' by (auto simp: ring_items_at [OF at] ring_items_at [OF at'] ring_at_facts(1) [OF at] ring_wf_def)
qed

lemma try_pop_at:
  assumes at: "ring_at r T h tc hc"
  shows "ring_wf (fst (try_pop r)) \<and> rg_slots (fst (try_pop r)) = rg_slots r
    \<and> (case ring_items r of
         [] \<Rightarrow> snd (try_pop r) = None \<and> ring_items (fst (try_pop r)) = []
       | v # vs \<Rightarrow> snd (try_pop r) = Some v \<and> ring_items (fst (try_pop r)) = vs)"
proof -
  define r' where "r' = r\<lparr>rg_head_cache := rg_head r\<rparr>"
  have at': "ring_at r' T h tc h" unfolding r'_def by (rule ring_at_refresh_head [OF at])
  have i: "ring_items r' = ring_items r" "rg_slots r' = rg_slots r" "rg_head_cache r' = rg_head r"
      "rg_tail r = of_nat T"
    using at by (simp_all add: r'_def ring_at_def)
  have c: "(rg_tail r = rg_head_cache r) = (T = hc)" "(rg_tail r = rg_head_cache r') = (T = h)"
    using ring_at_facts(5) [OF at] ring_at_facts(5) [OF at'] i(4) by simp_all
  have le: "T \<le> hc" "hc \<le> h" using at by (auto simp: ring_at_def)
  show ?thesis
  proof (cases "T = hc")
    case False
    moreover have "try_pop r = (r\<lparr>rg_tail := of_nat T + 1\<rparr>, Some (rg_slots r ! slot_of r (of_nat T)))"
      unfolding try_pop_def Let_def r'_def [symmetric] c using False i(4) by simp
    ultimately show ?thesis using take_slot_at [OF at] le by simp
  next
    case True
    have u: "try_pop r = (if T = h then (r', None)
        else (r'\<lparr>rg_tail := of_nat T + 1\<rparr>, Some (rg_slots r' ! slot_of r' (of_nat T))))"
      unfolding try_pop_def Let_def r'_def [symmetric] c using True i(4) by simp
    show ?thesis
    proof (cases "T = h")
      case True
      then show ?thesis using at' ring_items_at [OF at] i by (auto simp: u ring_wf_def)
    next
      case False
      then have "T < h" using le by simp
      then show ?thesis using take_slot_at [OF at'] False i by (simp add: u)
    qed
  qed
qed

section \<open>The contract of a bounded queue\<close>

text \<open>The calls a client makes and what they return; the abstract queue is a list.\<close>

datatype 'a q_op = Enq 'a | Deq | Count

datatype 'a q_out = Accepted bool | Got "'a option" | Counted nat

fun q_run :: "('q \<Rightarrow> 'a \<Rightarrow> 'q \<times> bool) \<Rightarrow> ('q \<Rightarrow> 'q \<times> 'a option) \<Rightarrow> ('q \<Rightarrow> nat)
    \<Rightarrow> 'q \<Rightarrow> 'a q_op list \<Rightarrow> 'q \<times> 'a q_out list" where
  "q_run enq deq count q [] = (q, [])"
| "q_run enq deq count q (Enq v # ops) =
    (case enq q v of (q, b) \<Rightarrow> map_prod id ((#) (Accepted b)) (q_run enq deq count q ops))"
| "q_run enq deq count q (Deq # ops) =
    (case deq q of (q, x) \<Rightarrow> map_prod id ((#) (Got x)) (q_run enq deq count q ops))"
| "q_run enq deq count q (Count # ops) =
    map_prod id ((#) (Counted (count q))) (q_run enq deq count q ops)"

definition list_enq :: "nat \<Rightarrow> 'a list \<Rightarrow> 'a \<Rightarrow> 'a list \<times> bool" where
  "list_enq c xs v = (if length xs < c then (xs @ [v], True) else (xs, False))"

definition list_deq :: "'a list \<Rightarrow> 'a list \<times> 'a option" where
  "list_deq xs = (case xs of [] \<Rightarrow> ([], None) | v # vs \<Rightarrow> (vs, Some v))"

text \<open>The values the accepted calls put in, and the values taken out.\<close>

fun accepted :: "'a q_op list \<Rightarrow> 'a q_out list \<Rightarrow> 'a list" where
  "accepted (Enq v # ops) (Accepted b # outs) = (if b then [v] else []) @ accepted ops outs"
| "accepted (_ # ops) (_ # outs) = accepted ops outs"
| "accepted _ _ = []"

fun taken :: "'a q_out list \<Rightarrow> 'a list" where
  "taken (Got (Some v) # outs) = v # taken outs"
| "taken (_ # outs) = taken outs"
| "taken [] = []"

locale bounded_queue =
  fixes enq :: "'q \<Rightarrow> 'a \<Rightarrow> 'q \<times> bool" and deq :: "'q \<Rightarrow> 'q \<times> 'a option" and count :: "'q \<Rightarrow> nat"
    and items :: "'q \<Rightarrow> 'a list" and room :: "'q \<Rightarrow> nat" and ok :: "'q \<Rightarrow> bool"
  assumes enq_ok: "ok q \<Longrightarrow> ok (fst (enq q v)) \<and> room (fst (enq q v)) = room q"
    and enq_items: "ok q \<Longrightarrow> (items (fst (enq q v)), snd (enq q v)) = list_enq (room q) (items q) v"
    and deq_ok: "ok q \<Longrightarrow> ok (fst (deq q)) \<and> room (fst (deq q)) = room q"
    and deq_items: "ok q \<Longrightarrow> (items (fst (deq q)), snd (deq q)) = list_deq (items q)"
    and count_items: "ok q \<Longrightarrow> count q = length (items q)"
    and items_room: "ok q \<Longrightarrow> length (items q) \<le> room q"
begin

lemma run_refines:
  "ok q \<Longrightarrow> map_prod items id (q_run enq deq count q ops)
    = q_run (list_enq (room q)) list_deq length (items q) ops \<and> ok (fst (q_run enq deq count q ops))
      \<and> room (fst (q_run enq deq count q ops)) = room q"
proof (induction ops arbitrary: q)
  case (Cons a ops)
  show ?case
  proof (cases a)
    case (Enq v)
    obtain q' b where e: "enq q v = (q', b)" by (cases "enq q v")
    have l: "list_enq (room q) (items q) v = (items q', b)" using enq_items [OF Cons.prems, of v] e by simp
    have k: "ok q'" "room q' = room q" using enq_ok [OF Cons.prems, of v] e by auto
    show ?thesis using Cons.IH [OF k(1)] k(2) by (simp add: Enq e l prod.map_comp flip: prod.map_comp) (auto simp: map_prod_def split: prod.splits)
  next
    case Deq
    obtain q' x where e: "deq q = (q', x)" by (cases "deq q")
    have l: "list_deq (items q) = (items q', x)" using deq_items [OF Cons.prems] e by simp
    have k: "ok q'" "room q' = room q" using deq_ok [OF Cons.prems] e by auto
    show ?thesis using Cons.IH [OF k(1)] k(2) by (simp add: Deq e l) (auto simp: map_prod_def split: prod.splits)
  next
    case Count
    show ?thesis using Cons.IH [OF Cons.prems] count_items [OF Cons.prems]
      by (simp add: Count) (auto simp: map_prod_def split: prod.splits)
  qed
qed simp

lemma run_fifo:
  "ok q \<Longrightarrow> items q @ accepted ops (snd (q_run enq deq count q ops))
    = taken (snd (q_run enq deq count q ops)) @ items (fst (q_run enq deq count q ops))"
proof (induction ops arbitrary: q)
  case (Cons a ops)
  show ?case
  proof (cases a)
    case (Enq v)
    obtain q' b where e: "enq q v = (q', b)" by (cases "enq q v")
    have "items q' = items q @ (if b then [v] else [])" "ok q'"
      using enq_items [OF Cons.prems, of v] enq_ok [OF Cons.prems, of v] e
      by (auto simp: list_enq_def split: if_splits)
    then show ?thesis using Cons.IH [of q'] by (simp add: Enq e)
  next
    case Deq
    obtain q' x where e: "deq q = (q', x)" by (cases "deq q")
    have "(items q = [] \<and> items q' = [] \<and> x = None) \<or> (\<exists>v. items q = v # items q' \<and> x = Some v)" "ok q'"
      using deq_items [OF Cons.prems] deq_ok [OF Cons.prems] e
      by (auto simp: list_deq_def split: list.splits)
    then show ?thesis using Cons.IH [of q'] by (auto simp: Deq e)
  next
    case Count
    show ?thesis using Cons.IH [OF Cons.prems] by (simp add: Count)
  qed
qed simp

end

section \<open>The ring provides it\<close>

definition ring_enq :: "'a ring \<Rightarrow> 'a \<Rightarrow> 'a ring \<times> bool" where
  "ring_enq r v = (case try_push r v of (r, x) \<Rightarrow> (r, x = KOk))"

lemma ring_items_room: "ring_wf r \<Longrightarrow> length (ring_items r) \<le> length (rg_slots r)"
  by (auto simp: ring_wf_def ring_items_at ring_at_def)

interpretation ring_queue: bounded_queue ring_enq try_pop ring_size ring_items "\<lambda>r. length (rg_slots r)" ring_wf
proof (unfold_locales, goal_cases)
  case (1 q v)
  then obtain T h tc hc where "ring_at q T h tc hc" by (auto simp: ring_wf_def)
  from try_push_at [OF this, of v] show ?case by (auto simp: ring_enq_def split: prod.splits)
next
  case (2 q v)
  then obtain T h tc hc where "ring_at q T h tc hc" by (auto simp: ring_wf_def)
  from try_push_at [OF this, of v] show ?case
    by (auto simp: ring_enq_def list_enq_def split: prod.splits if_splits)
next
  case (3 q)
  then obtain T h tc hc where "ring_at q T h tc hc" by (auto simp: ring_wf_def)
  from try_pop_at [OF this] show ?case by simp
next
  case (4 q)
  then obtain T h tc hc where "ring_at q T h tc hc" by (auto simp: ring_wf_def)
  from try_pop_at [OF this] show ?case by (auto simp: list_deq_def split: list.splits)
next
  case (5 q)
  then show ?case by (simp add: length_ring_items)
next
  case (6 q)
  then show ?case by (rule ring_items_room)
qed

lemma ring_wf_new [op_simps, inv_intros]: "valid_capacity c \<Longrightarrow> ring_wf (ring_new c z)"
  unfolding ring_wf_def by (intro exI) (rule ring_at_new)

lemma length_ring_new [op_simps]: "length (rg_slots (ring_new c z)) = c"
  by (simp add: ring_new_def)

lemma valid_capacity_2 [op_simps]: "valid_capacity 2"
  using valid_capacity_pow2_iff [of 1] by simp

lemma ring_items_new [op_simps]: "valid_capacity c \<Longrightarrow> ring_items (ring_new c z) = []"
  using ring_items_at [OF ring_at_new] by simp

section \<open>Properties\<close>

text \<open>C27: Every sequence of pushes, pops and size queries on a ring in any consistent state,
  whatever the 64-bit indices have reached, returns what the same sequence returns on a list
  bounded by the capacity: a push is refused exactly when all the slots are full (none is
  wasted), a pop finds nothing exactly when the queue is empty and otherwise the oldest value.\<close>

theorem ring_refines_bounded_queue:
  assumes "ring_wf r"
  shows "snd (q_run ring_enq try_pop ring_size r ops)
      = snd (q_run (list_enq (length (rg_slots r))) list_deq length (ring_items r) ops)
    \<and> ring_items (fst (q_run ring_enq try_pop ring_size r ops))
      = fst (q_run (list_enq (length (rg_slots r))) list_deq length (ring_items r) ops)"
  using conjunct1 [OF ring_queue.run_refines [OF assms, of ops]]
  by (metis fst_map_prod snd_map_prod id_apply)

text \<open>Two values queued across the wrap-around of the indices.\<close>

lemma ring_refines_bounded_queue_witness:
  "let r = \<lparr>rg_head = 0, rg_tail_cache = - 2, rg_tail = - 2, rg_head_cache = - 2, rg_slots = [10, 11, 12, 13]\<rparr> :: nat ring
   in ring_items r = [12, 13]
      \<and> snd (q_run ring_enq try_pop ring_size r [Enq 5, Enq 6, Enq 7, Deq, Count])
        = [Accepted True, Accepted True, Accepted False, Got (Some 12), Counted 3]"
proof -
  define r where "r = (\<lparr>rg_head = 0, rg_tail_cache = - 2, rg_tail = - 2, rg_head_cache = - 2,
    rg_slots = [10, 11, 12, 13]\<rparr> :: nat ring)"
  have "valid_capacity 4" using valid_capacity_pow2_iff [of 2] by simp
  moreover have "length (rg_slots r) = 4" by (simp add: r_def)
  ultimately have "ring_at r (2 ^ 64 - 2) (2 ^ 64) (2 ^ 64 - 2) (2 ^ 64 - 2)"
    by (simp add: ring_at_def) (simp add: r_def)
  then have "ring_wf r" by (auto simp: ring_wf_def)
  moreover have "ring_items r = [12, 13]" unfolding r_def by code_simp
  ultimately show ?thesis
    using ring_refines_bounded_queue [of r "[Enq 5, Enq 6, Enq 7, Deq, Count]"]
    unfolding Let_def r_def [symmetric] by (simp add: list_enq_def list_deq_def) (simp add: r_def)
qed

text \<open>Nothing is lost, duplicated or reordered: for any sequence of calls on a fresh ring, the
  values of the accepted pushes, in order, are the values popped, in order, followed by those
  still queued.\<close>

theorem ring_fifo_lossless:
  assumes "valid_capacity c"
  shows "accepted ops (snd (q_run ring_enq try_pop ring_size (ring_new c z) ops))
    = taken (snd (q_run ring_enq try_pop ring_size (ring_new c z) ops))
      @ ring_items (fst (q_run ring_enq try_pop ring_size (ring_new c z) ops))"
  using ring_queue.run_fifo [OF ring_wf_new [OF assms]] ring_items_new [OF assms] by (metis append_Nil)

lemma ring_fifo_lossless_witness:
  "valid_capacity 2 \<and> accepted [Enq 5, Enq 6, Enq 7, Deq]
      (snd (q_run ring_enq try_pop ring_size (ring_new 2 (0 :: nat)) [Enq 5, Enq 6, Enq 7, Deq]))
    = taken (snd (q_run ring_enq try_pop ring_size (ring_new 2 0) [Enq 5, Enq 6, Enq 7, Deq]))
      @ ring_items (fst (q_run ring_enq try_pop ring_size (ring_new 2 0) [Enq 5, Enq 6, Enq 7, Deq]))"
proof -
  have "valid_capacity 2" using valid_capacity_pow2_iff [of 1] by simp
  then show ?thesis by (intro conjI ring_fifo_lossless)
qed

end
