(* ===== verification/Hot_Loop.thy ===== *)
theory Hot_Loop
  imports Metrics Options Session_Props Spsc_Ring
begin

text \<open>
  The pinned thread, \<open>hot_loop\<close> of \<open>src/vhp_consumer.cpp\<close>: frames from the ring go through admission,
  per-call cadence and loss accounting and the chunk assembler, closed chunks to the event ring.

  The two rings are shared with other threads, so they enter as an interface over two state types:
  whatever the ingest thread and the publisher do between two calls is part of the state behind
  \<open>io_pop\<close>, \<open>io_size\<close> and \<open>io_push\<close>. The clock enters as the readings each turn takes (\<open>tick\<close>); the end
  of the list of ticks is \<open>g_running\<close> turning false. Thread placement is not modelled.
  \<^const>\<open>None\<close> is a read outside a payload or a rebuild that never ends.
\<close>

record ('q, 'e) hot_io =
  io_pop :: "'q \<Rightarrow> 'q \<times> audio_frame option"
  io_size :: "'q \<Rightarrow> 'q \<times> nat"
  io_push :: "'e \<Rightarrow> chunk_event \<Rightarrow> 'e \<times> push_result"

record hot_config =
  hc_nominal_ns :: u64
  hc_idle_ns :: u64
  hc_deadline_ns :: u64

record tick =
  tk_loop_ns :: u64
  tk_dequeue_ns :: u64
  tk_done_ns :: u64

record ('q, 'e) hot =
  hl_frames :: 'q
  hl_events :: 'e
  hl_metrics :: hot_metrics
  hl_sessions :: session_table
  hl_prev_observation_ns :: u64
  hl_observed_depth :: u64
  hl_next_sweep_ns :: u64

abbreviation on_metrics :: "(hot_metrics \<Rightarrow> hot_metrics) \<Rightarrow> ('q, 'e) hot \<Rightarrow> ('q, 'e) hot" where
  "on_metrics g s \<equiv> s\<lparr>hl_metrics := g (hl_metrics s)\<rparr>"

abbreviation at_session :: "('q, 'e) hot \<Rightarrow> nat \<Rightarrow> session" where
  "at_session s i \<equiv> st_sessions (hl_sessions s) ! i"

abbreviation on_session :: "nat \<Rightarrow> (session \<Rightarrow> session) \<Rightarrow> ('q, 'e) hot \<Rightarrow> ('q, 'e) hot" where
  "on_session i g s \<equiv> s\<lparr>hl_sessions := update_session (hl_sessions s) i g\<rparr>"

section \<open>Starting up\<close>

definition chunk_bytes_of :: "consumer_options \<Rightarrow> nat" where
  "chunk_bytes_of opt =
    unat (u64_of_f (fmul (fmul (fmul (fdiv (cc_max_chunk_ms (co_chunker opt)) 1000) 24000) 2) (rnd (11 / 10))))"

definition hot_chunker :: "consumer_options \<Rightarrow> chunker_config" where
  "hot_chunker opt = (co_chunker opt)\<lparr>cc_max_chunk_bytes := chunk_bytes_of opt\<rparr>"

definition kSweepIntervalNs :: u64 where
  "kSweepIntervalNs = 250000000"

definition hot_configure :: "consumer_options \<Rightarrow> u64 \<Rightarrow> hot_config" where
  "hot_configure opt now_ns =
    \<lparr>hc_nominal_ns = u64_of_f (fmul (co_frame_ms opt) 1000000),
     hc_idle_ns = u64_of_f (fmul (co_session_idle_ms opt) 1000000),
     hc_deadline_ns = (if co_seconds opt > 0 then now_ns + u64_of_f (fmul (co_seconds opt) 1000000000) else 0)\<rparr>"

definition hot_start :: "consumer_options \<Rightarrow> 'q \<Rightarrow> 'e \<Rightarrow> hot_metrics \<Rightarrow> u64 \<Rightarrow> ('q, 'e) hot" where
  "hot_start opt frames events m now_ns =
    \<lparr>hl_frames = frames, hl_events = events, hl_metrics = m,
     hl_sessions = table_new (co_max_sessions opt) (hot_chunker opt),
     hl_prev_observation_ns = 0, hl_observed_depth = 0, hl_next_sweep_ns = now_ns + kSweepIntervalNs\<rparr>"

section \<open>One turn of the loop\<close>

text \<open>The \<open>emit\<close> closure.\<close>

definition emit_event :: "('q, 'e) hot_io \<Rightarrow> ('q, 'e) hot \<Rightarrow> chunk_event \<Rightarrow> ('q, 'e) hot" where
  "emit_event io s event =
    (let s = on_metrics (\<lambda>m. m\<lparr>m_chunks := m_chunks m + 1\<rparr>) s;
         (q, r) = io_push io (hl_events s) event;
         s = s\<lparr>hl_events := q\<rparr>
     in if r = KFull then on_metrics (\<lambda>m. m\<lparr>m_event_drops := m_event_drops m + 1\<rparr>) s else s)"

text \<open>Integrating the depth over time.\<close>

definition observe_depth :: "u64 \<Rightarrow> ('q, 'e) hot \<Rightarrow> ('q, 'e) hot" where
  "observe_depth loop_ns s =
    (let s = (if hl_prev_observation_ns s \<noteq> 0
              then (let dt = loop_ns - hl_prev_observation_ns s
                    in on_metrics (\<lambda>m. m\<lparr>m_depth_area_ns := m_depth_area_ns m + hl_observed_depth s * dt,
                         m_depth_time_ns := m_depth_time_ns m + dt\<rparr>) s)
              else s)
     in s\<lparr>hl_prev_observation_ns := loop_ns\<rparr>)"

definition hot_sweep :: "('q, 'e) hot_io \<Rightarrow> hot_config \<Rightarrow> u64 \<Rightarrow> ('q, 'e) hot \<Rightarrow> ('q, 'e) hot option" where
  "hot_sweep io cfg loop_ns s =
    (if loop_ns \<ge> hl_next_sweep_ns s then do {
       (t, evs) \<leftarrow> expire_idle (hl_sessions s) loop_ns (hc_idle_ns cfg);
       Some ((foldl (emit_event io) (s\<lparr>hl_sessions := t\<rparr>) evs)\<lparr>hl_next_sweep_ns := loop_ns + kSweepIntervalNs\<rparr>)
     } else Some s)"

definition note_transport :: "u64 \<Rightarrow> audio_frame \<Rightarrow> hot_metrics \<Rightarrow> hot_metrics" where
  "note_transport t_dequeue f m =
    (if fh_t_produce_ns (hdr f) \<noteq> 0 \<and> t_dequeue \<ge> fh_t_produce_ns (hdr f)
     then m\<lparr>m_transport := hist_record (m_transport m) (t_dequeue - fh_t_produce_ns (hdr f))\<rparr> else m)"

definition note_depth :: "('q, 'e) hot_io \<Rightarrow> ('q, 'e) hot \<Rightarrow> ('q, 'e) hot" where
  "note_depth io s =
    (let (q, n) = io_size io (hl_frames s);
         s = s\<lparr>hl_frames := q, hl_observed_depth := of_nat n\<rparr>
     in on_metrics (\<lambda>m. m\<lparr>m_depth := hist_record (m_depth m) (hl_observed_depth s)\<rparr>) s)"

definition note_cadence :: "hot_config \<Rightarrow> u64 \<Rightarrow> nat \<Rightarrow> ('q, 'e) hot \<Rightarrow> ('q, 'e) hot" where
  "note_cadence cfg t_dequeue i s =
    (let prev = ss_prev_frame_ns (at_session s i);
         nominal = hc_nominal_ns cfg;
         s = (if prev \<noteq> 0
              then (let delta = t_dequeue - prev;
                        deviation = (if delta > nominal then delta - nominal else nominal - delta)
                    in on_metrics (\<lambda>m. m\<lparr>m_jitter := record_with_expected_interval (m_jitter m) deviation nominal\<rparr>) s)
              else s)
     in on_session i (\<lambda>ss. ss\<lparr>ss_prev_frame_ns := t_dequeue\<rparr>) s)"

definition note_sequence :: "u64 \<Rightarrow> nat \<Rightarrow> ('q, 'e) hot \<Rightarrow> ('q, 'e) hot" where
  "note_sequence seq i s =
    (let ss = at_session s i;
         s = (if ss_have_last_seq ss \<and> seq > ss_last_seq ss + 1
              then on_metrics (\<lambda>m. m\<lparr>m_seq_gaps := m_seq_gaps m + (seq - ss_last_seq ss - 1)\<rparr>) s else s)
     in on_session i (\<lambda>ss. ss\<lparr>ss_last_seq := seq, ss_have_last_seq := True, ss_frames := ss_frames ss + 1\<rparr>) s)"

text \<open>The assembler call and what follows it.\<close>

definition note_loud :: "u64 \<Rightarrow> session \<Rightarrow> session" where
  "note_loud t_produce ss =
    (let g = as_gate (ss_assembler ss)
     in if g_speaking g \<and> g_quiet_frames g = 0 then ss\<lparr>ss_last_loud_produce_ns := t_produce\<rparr> else ss)"

definition note_endpoint :: "session \<Rightarrow> chunk_event \<Rightarrow> hot_metrics \<Rightarrow> hot_metrics" where
  "note_endpoint ss event m =
    (if ss_last_loud_produce_ns ss \<noteq> 0 \<and> ce_t_endpoint_ns event > ss_last_loud_produce_ns ss
     then m\<lparr>m_endpoint_lag := hist_record (m_endpoint_lag m) (ce_t_endpoint_ns event - ss_last_loud_produce_ns ss)\<rparr>
     else m)"

definition assemble_frame :: "('q, 'e) hot_io \<Rightarrow> tick \<Rightarrow> audio_frame \<Rightarrow> nat \<Rightarrow> ('q, 'e) hot \<Rightarrow> ('q, 'e) hot option" where
  "assemble_frame io tk f i s = do {
     (a, maybe_event) \<leftarrow> on_frame (ss_assembler (at_session s i)) f (tk_dequeue_ns tk);
     let s = on_session i (\<lambda>ss. note_loud (fh_t_produce_ns (hdr f)) (ss\<lparr>ss_assembler := a\<rparr>)) s;
     let s = on_metrics (\<lambda>m. m\<lparr>m_service := hist_record (m_service m) (tk_done_ns tk - tk_dequeue_ns tk),
                               m_frames := m_frames m + 1\<rparr>) s;
     Some (case maybe_event of
             None \<Rightarrow> s
           | Some ev \<Rightarrow>
               (let ss = at_session s i;
                    ev = ev\<lparr>ce_session_id := ss_id ss\<rparr>
                in emit_event io (on_metrics (note_endpoint ss ev) s) ev))
   }"

text \<open>A dequeued frame, from the transport histogram to the event.\<close>

definition hot_frame :: "('q, 'e) hot_io \<Rightarrow> hot_config \<Rightarrow> tick \<Rightarrow> audio_frame \<Rightarrow> ('q, 'e) hot \<Rightarrow> ('q, 'e) hot option" where
  "hot_frame io cfg tk f s =
    (let t_dequeue = tk_dequeue_ns tk;
         s = on_metrics (note_transport t_dequeue f) s;
         s = note_depth io s;
         (t, session) = acquire (hl_sessions s) (fh_session_id (hdr f)) t_dequeue;
         s = s\<lparr>hl_sessions := t\<rparr>
     in case session of
          None \<Rightarrow> Some (on_metrics (\<lambda>m. m\<lparr>m_frames_refused := m_frames_refused m + 1\<rparr>) s)
        | Some i \<Rightarrow> assemble_frame io tk f i (note_sequence (f_seq f) i (note_cadence cfg t_dequeue i s)))"

text \<open>One turn; the boolean is false when the deadline ends the loop.\<close>

definition hot_turn :: "('q, 'e) hot_io \<Rightarrow> hot_config \<Rightarrow> tick \<Rightarrow> ('q, 'e) hot \<Rightarrow> (('q, 'e) hot \<times> bool) option" where
  "hot_turn io cfg tk s =
    (let s = observe_depth (tk_loop_ns tk) s
     in if hc_deadline_ns cfg \<noteq> 0 \<and> tk_loop_ns tk > hc_deadline_ns cfg then Some (s, False)
        else do {
          s \<leftarrow> hot_sweep io cfg (tk_loop_ns tk) s;
          let (q, popped) = io_pop io (hl_frames s);
          let s = s\<lparr>hl_frames := q\<rparr>;
          case popped of
            None \<Rightarrow> Some (s\<lparr>hl_observed_depth := 0\<rparr>, True)
          | Some f \<Rightarrow> map_option (\<lambda>s. (s, True)) (hot_frame io cfg tk f s)
        })"

fun hot_turns :: "('q, 'e) hot_io \<Rightarrow> hot_config \<Rightarrow> tick list \<Rightarrow> ('q, 'e) hot \<Rightarrow> ('q, 'e) hot option" where
  "hot_turns io cfg [] s = Some s"
| "hot_turns io cfg (tk # tks) s = do {
     (s, go) \<leftarrow> hot_turn io cfg tk s;
     if go then hot_turns io cfg tks s else Some s
   }"

text \<open>After the loop: flush what is open, copy the table's counters.\<close>

definition hot_finish :: "('q, 'e) hot_io \<Rightarrow> u64 \<Rightarrow> ('q, 'e) hot \<Rightarrow> ('q, 'e) hot option" where
  "hot_finish io now_ns s = do {
     (t, evs) \<leftarrow> flush_all (hl_sessions s) now_ns;
     let s = foldl (emit_event io) (s\<lparr>hl_sessions := t\<rparr>) evs;
     Some (on_metrics (\<lambda>m. m\<lparr>m_sessions_peak := st_peak_live t, m_sessions_opened := st_opened t,
             m_sessions_rejected := st_rejected t, m_sessions_capacity := st_max t\<rparr>) s)
   }"

definition hot_loop :: "('q, 'e) hot_io \<Rightarrow> consumer_options \<Rightarrow> u64 \<Rightarrow> u64 \<Rightarrow> tick list \<Rightarrow> u64 \<Rightarrow> 'q \<Rightarrow> 'e \<Rightarrow> hot_metrics
    \<Rightarrow> ('q, 'e) hot option" where
  "hot_loop io opt t_config t_start tks t_end frames events m = do {
     s \<leftarrow> hot_turns io (hot_configure opt t_config) tks (hot_start opt frames events m t_start);
     hot_finish io t_end s
   }"

end
