(* ===== verification/Hot_Inv.thy ===== *)
theory Hot_Inv
  imports Hot_Loop
begin

text \<open>
  The contract the hot loop needs of its two queues, and what one turn keeps: the session table and
  the pre-roll of every session are well formed, so no read leaves a payload and no rebuild
  diverges; every frame popped is processed or refused, every chunk queued or dropped.
\<close>

section \<open>Assemblers that only hold well-formed frames\<close>

definition pre_ok :: "assembler \<Rightarrow> bool" where
  "pre_ok a \<longleftrightarrow> pr_wf (as_pre_roll a) \<and> (\<forall>f \<in> set (pr_frames (as_pre_roll a)). frame_ok f)"

lemma pre_ok_list: "pre_ok a \<Longrightarrow> \<forall>f \<in> set (pr_list (as_pre_roll a)). frame_ok f"
proof
  fix f
  assume p: "pre_ok a" and f: "f \<in> set (pr_list (as_pre_roll a))"
  then obtain i where i: "i < pr_size (as_pre_roll a)" "f = pr_at (as_pre_roll a) i" by (auto simp: pr_list_def)
  then have "0 < pr_cap (as_pre_roll a)" by (cases "pr_cap (as_pre_roll a)") (simp_all add: pr_size_def)
  then show "frame_ok f" using p i(2) by (simp add: pre_ok_def pr_wf_def pr_at_def Let_def)
qed

lemma frame_ok_zero: "frame_ok zero_frame"
  by (simp add: frame_ok_def zero_frame_def zero_header_def)

lemma pre_ok_new [inv_intros]: "pre_ok (asm_new c)"
  by (simp add: pre_ok_def asm_new_def pr_new_def pr_wf_def frame_ok_zero)

lemma pre_ok_push:
  "pr_wf p \<Longrightarrow> \<forall>g \<in> set (pr_frames p). frame_ok g \<Longrightarrow> frame_ok f \<Longrightarrow> \<forall>g \<in> set (pr_frames (pr_push p f)). frame_ok g"
  using set_update_subset_insert [of "pr_frames p" "unat (pr_head p) mod pr_cap p" f] by (auto simp: pr_push_def)

lemma finish_frame_pre_roll: "as_pre_roll (fst (finish_frame a t)) = as_pre_roll a"
  by (simp add: finish_frame_def close_chunk_def open_chunk_def)

lemma flush_pre_ok: "pre_ok (fst (flush a t)) = pre_ok a"
  by (simp add: flush_def close_chunk_def pre_ok_def)

lemma on_frame_pre_ok:
  assumes "frame_ok f" "pre_ok a"
  shows "\<exists>a' ev. on_frame a f t = Some (a', ev) \<and> pre_ok a'"
proof -
  have p: "pr_wf (as_pre_roll a)" "\<forall>f \<in> set (pr_frames (as_pre_roll a)). frame_ok f" using assms(2) by (simp_all add: pre_ok_def)
  define a1 where "a1 = (note_seq a f)\<lparr>as_gate := fst (gated a f t)\<rparr>"
  have a1: "as_pre_roll a1 = as_pre_roll a" by (simp add: a1_def)
  have o: "as_pre_roll (opened a1 t) = pr_clear (as_pre_roll a)" by (simp add: opened_def a1)
  note c = on_frame_cases [OF assms(1) pre_ok_list [OF assms(2)], of t, folded a1_def, unfolded Let_def]
  consider "as_active a" | "\<not> as_active a" "snd (gated a f t)" | "\<not> as_active a" "\<not> snd (gated a f t)" by blast
  then show ?thesis
  proof cases
    case 1
    have "pre_ok (fst (finish_frame (appended a1 f) t))"
      using p by (simp add: pre_ok_def finish_frame_pre_roll a1)
    then show ?thesis using 1 unfolding c by (cases "finish_frame (appended a1 f) t") simp
  next
    case 2
    have "pre_ok (fst (finish_frame (appended (opened a1 t) f) t))"
      using p by (simp add: pre_ok_def finish_frame_pre_roll o pr_clear_def pr_wf_def)
    then show ?thesis using 2 unfolding c by (cases "finish_frame (appended (opened a1 t) f) t") simp
  next
    case 3
    have "pre_ok (a1\<lparr>as_pre_roll := pr_push (as_pre_roll a) f\<rparr>)"
      using pr_wf_push [OF p(1)] pre_ok_push [OF p assms(1)] by (simp add: pre_ok_def)
    then show ?thesis using 3 unfolding c by simp
  qed
qed

section \<open>Tables\<close>

definition table_safe :: "session_table \<Rightarrow> bool" where
  "table_safe t \<longleftrightarrow> table_ok t \<and> (\<forall>i < unat (st_max t). pre_ok (ss_assembler (sess t i)))"

lemma table_safe_shape: "table_safe t \<Longrightarrow> length (st_sessions t) = unat (st_max t)"
  by (simp add: table_safe_def table_ok_def table_inv_def shape_ok_def)

lemma table_safe_new [inv_intros]:
  assumes "m < kTombstone"
  shows "table_safe (table_new m c)"
proof -
  have "ss_assembler (sess (table_new m c) i) = asm_new c" if "i < unat (st_max (table_new m c))" for i
    using that by (simp add: table_new_def Let_def session_new_def)
  then show ?thesis using table_ok_new [OF assms] by (simp add: table_safe_def inv_intros)
qed

lemma acquire_assemblers:
  assumes "table_ok t"
  shows "ss_assembler (sess (fst (acquire t sid now)) j) = ss_assembler (sess t j)"
    "snd (acquire t sid now) = Some i \<Longrightarrow> i < unat (st_max t)"
proof -
  have inv: "table_inv t" using assms by (simp add: table_ok_def)
  have "ss_assembler (sess (fst (acquire t sid now)) j) = ss_assembler (sess t j)
    \<and> (snd (acquire t sid now) = Some i \<longrightarrow> i < unat (st_max t))"
  proof (cases "view t sid")
    case (Some k)
    then have "k < unat (st_max t)" using view_Some [of t sid k] inv by (auto simp: table_inv_def)
    then show ?thesis by (auto simp: acquire_live [OF inv Some] sess_update)
  next
    case None
    show ?thesis
    proof (cases "st_free t = []")
      case True
      then show ?thesis by (simp add: acquire_refused [OF inv None])
    next
      case False
      then show ?thesis using acquire_new [OF assms None False, of now] by auto
    qed
  qed
  then show "ss_assembler (sess (fst (acquire t sid now)) j) = ss_assembler (sess t j)"
    "snd (acquire t sid now) = Some i \<Longrightarrow> i < unat (st_max t)" by blast+
qed

lemma acquire_safe [inv_intros]: "table_safe t \<Longrightarrow> table_safe (fst (acquire t sid now))"
  using acquire_ok [of t sid now] by (simp add: table_safe_def acquire_assemblers)

lemma update_safe [inv_intros]:
  assumes "table_safe t" "keeps_identity g" "\<And>s. pre_ok (ss_assembler s) \<Longrightarrow> pre_ok (ss_assembler (g s))"
  shows "table_safe (update_session t i g)"
  using assms update_session_inv(1) [of t g i] by (auto simp: table_safe_def table_ok_def sess_update)

lemma swept_safe:
  assumes "table_safe t" "swept p now t t' evs"
  shows "table_safe t'"
  using assms by (auto simp: table_safe_def swept_def closed_session_def flush_pre_ok)

section \<open>The contract of the queues\<close>

locale hot_queues =
  fixes io :: "('q, 'e) hot_io" and ok :: "'q \<Rightarrow> bool" and pops :: "'q \<Rightarrow> u64" and sent :: "'e \<Rightarrow> u64" and room :: nat
  assumes pop_ok: "ok q \<Longrightarrow> ok (fst (io_pop io q))
      \<and> pops (fst (io_pop io q)) = pops q + (if snd (io_pop io q) = None then 0 else 1)"
    and pop_frame: "ok q \<Longrightarrow> snd (io_pop io q) = Some f \<Longrightarrow> frame_ok f"
    and size_ok: "ok q \<Longrightarrow> ok (fst (io_size io q)) \<and> pops (fst (io_size io q)) = pops q \<and> snd (io_size io q) \<le> room"
    and push_counts: "sent (fst (io_push io e v)) = sent e + (if snd (io_push io e v) = KOk then 1 else 0)"

section \<open>The frame of each step\<close>

definition frame_balance :: "('q \<Rightarrow> u64) \<Rightarrow> ('q, 'e) hot \<Rightarrow> u64" where
  "frame_balance pops s = m_frames (hl_metrics s) + m_frames_refused (hl_metrics s) - pops (hl_frames s)"

definition event_balance :: "('e \<Rightarrow> u64) \<Rightarrow> ('q, 'e) hot \<Rightarrow> u64" where
  "event_balance sent s = m_chunks (hl_metrics s) - m_event_drops (hl_metrics s) - sent (hl_events s)"

lemma emit_event_same [simp]:
  "hl_frames (emit_event io s ev) = hl_frames s" "hl_sessions (emit_event io s ev) = hl_sessions s"
  "m_frames (hl_metrics (emit_event io s ev)) = m_frames (hl_metrics s)"
  "m_frames_refused (hl_metrics (emit_event io s ev)) = m_frames_refused (hl_metrics s)"
  by (simp_all add: emit_event_def Let_def split: prod.split)

lemma emit_events_same [simp]:
  "hl_frames (foldl (emit_event io) s evs) = hl_frames s" "hl_sessions (foldl (emit_event io) s evs) = hl_sessions s"
  "m_frames (hl_metrics (foldl (emit_event io) s evs)) = m_frames (hl_metrics s)"
  "m_frames_refused (hl_metrics (foldl (emit_event io) s evs)) = m_frames_refused (hl_metrics s)"
  by (induction evs arbitrary: s) simp_all

lemma note_sequence_same [simp]:
  "hl_frames (note_sequence q i s) = hl_frames s" "hl_events (note_sequence q i s) = hl_events s"
  "hl_sessions (note_sequence q i s) = update_session (hl_sessions s) i
     (\<lambda>ss. ss\<lparr>ss_last_seq := q, ss_have_last_seq := True, ss_frames := ss_frames ss + 1\<rparr>)"
  "m_frames (hl_metrics (note_sequence q i s)) = m_frames (hl_metrics s)"
  "m_frames_refused (hl_metrics (note_sequence q i s)) = m_frames_refused (hl_metrics s)"
  "m_chunks (hl_metrics (note_sequence q i s)) = m_chunks (hl_metrics s)"
  "m_event_drops (hl_metrics (note_sequence q i s)) = m_event_drops (hl_metrics s)"
  by (simp_all add: note_sequence_def Let_def)

lemma note_cadence_same [simp]:
  "hl_frames (note_cadence cfg t i s) = hl_frames s" "hl_events (note_cadence cfg t i s) = hl_events s"
  "hl_sessions (note_cadence cfg t i s) = update_session (hl_sessions s) i (\<lambda>ss. ss\<lparr>ss_prev_frame_ns := t\<rparr>)"
  "m_frames (hl_metrics (note_cadence cfg t i s)) = m_frames (hl_metrics s)"
  "m_frames_refused (hl_metrics (note_cadence cfg t i s)) = m_frames_refused (hl_metrics s)"
  "m_chunks (hl_metrics (note_cadence cfg t i s)) = m_chunks (hl_metrics s)"
  "m_event_drops (hl_metrics (note_cadence cfg t i s)) = m_event_drops (hl_metrics s)"
  by (simp_all add: note_cadence_def Let_def)

lemma note_transport_same [simp]:
  "m_frames (note_transport t f m) = m_frames m" "m_frames_refused (note_transport t f m) = m_frames_refused m"
  "m_chunks (note_transport t f m) = m_chunks m" "m_event_drops (note_transport t f m) = m_event_drops m"
  by (simp_all add: note_transport_def)

lemma note_endpoint_same [simp]:
  "m_frames (note_endpoint ss ev m) = m_frames m" "m_frames_refused (note_endpoint ss ev m) = m_frames_refused m"
  "m_chunks (note_endpoint ss ev m) = m_chunks m" "m_event_drops (note_endpoint ss ev m) = m_event_drops m"
  by (simp_all add: note_endpoint_def)

lemma note_depth_same [simp]:
  "hl_frames (note_depth io s) = fst (io_size io (hl_frames s))" "hl_events (note_depth io s) = hl_events s"
  "hl_sessions (note_depth io s) = hl_sessions s"
  "hl_observed_depth (note_depth io s) = of_nat (snd (io_size io (hl_frames s)))"
  "m_frames (hl_metrics (note_depth io s)) = m_frames (hl_metrics s)"
  "m_frames_refused (hl_metrics (note_depth io s)) = m_frames_refused (hl_metrics s)"
  "m_chunks (hl_metrics (note_depth io s)) = m_chunks (hl_metrics s)"
  "m_event_drops (hl_metrics (note_depth io s)) = m_event_drops (hl_metrics s)"
  by (simp_all add: note_depth_def Let_def split: prod.split)

lemma observe_depth_same [simp]:
  "hl_frames (observe_depth t s) = hl_frames s" "hl_events (observe_depth t s) = hl_events s"
  "hl_sessions (observe_depth t s) = hl_sessions s"
  "m_frames (hl_metrics (observe_depth t s)) = m_frames (hl_metrics s)"
  "m_frames_refused (hl_metrics (observe_depth t s)) = m_frames_refused (hl_metrics s)"
  "m_chunks (hl_metrics (observe_depth t s)) = m_chunks (hl_metrics s)"
  "m_event_drops (hl_metrics (observe_depth t s)) = m_event_drops (hl_metrics s)"
  by (simp_all add: observe_depth_def Let_def)

lemma note_loud_identity: "keeps_identity (\<lambda>ss. note_loud t (ss\<lparr>ss_assembler := a\<rparr>))"
  "ss_assembler (note_loud t ss) = ss_assembler ss"
  by (simp_all add: keeps_identity_def note_loud_def Let_def)

section \<open>One turn keeps the invariant\<close>

definition hot_inv :: "('q \<Rightarrow> bool) \<Rightarrow> ('q \<Rightarrow> u64) \<Rightarrow> ('e \<Rightarrow> u64) \<Rightarrow> u64 \<Rightarrow> u64 \<Rightarrow> ('q, 'e) hot \<Rightarrow> bool" where
  "hot_inv ok pops sent n k s \<longleftrightarrow> ok (hl_frames s) \<and> table_safe (hl_sessions s)
    \<and> frame_balance pops s = n \<and> event_balance sent s = k"

context hot_queues begin

abbreviation inv :: "u64 \<Rightarrow> u64 \<Rightarrow> ('q, 'e) hot \<Rightarrow> bool" where
  "inv \<equiv> hot_inv ok pops sent"

lemma emit_event_balance: "event_balance sent (emit_event io s ev) = event_balance sent s"
proof -
  obtain q r where p: "io_push io (hl_events s) ev = (q, r)" by (cases "io_push io (hl_events s) ev")
  then have "sent q = sent (hl_events s) + (if r = KOk then 1 else 0)" using push_counts [of "hl_events s" ev] by simp
  then show ?thesis by (cases r) (simp_all add: emit_event_def event_balance_def p Let_def)
qed

lemma emit_events_balance: "event_balance sent (foldl (emit_event io) s evs) = event_balance sent s"
  by (induction evs arbitrary: s) (simp_all add: emit_event_balance)

lemma assemble_frame_inv:
  assumes "inv n k s" "frame_ok f" "i < unat (st_max (hl_sessions s))"
  shows "\<exists>s'. assemble_frame io tk f i s = Some s' \<and> inv (n + 1) k s'"
proof -
  have safe: "table_safe (hl_sessions s)" using assms(1) by (simp add: hot_inv_def)
  then have "pre_ok (ss_assembler (at_session s i))" using assms(3) by (simp add: table_safe_def)
  from on_frame_pre_ok [OF assms(2) this] obtain a ev
    where of: "on_frame (ss_assembler (at_session s i)) f (tk_dequeue_ns tk) = Some (a, ev)" "pre_ok a" by blast
  define s1 where "s1 = on_session i (\<lambda>ss. note_loud (fh_t_produce_ns (hdr f)) (ss\<lparr>ss_assembler := a\<rparr>)) s"
  define s2 where "s2 = on_metrics (\<lambda>m. m\<lparr>m_service := hist_record (m_service m) (tk_done_ns tk - tk_dequeue_ns tk),
    m_frames := m_frames m + 1\<rparr>) s1"
  have "table_safe (hl_sessions s2)"
    unfolding s2_def s1_def using update_safe [OF safe note_loud_identity(1)] of(2) by (simp add: note_loud_identity(2))
  then have inv2: "inv (n + 1) k s2"
    using assms(1) by (simp add: hot_inv_def s2_def s1_def frame_balance_def event_balance_def) (simp add: algebra_simps)
  have af: "assemble_frame io tk f i s = Some (case ev of None \<Rightarrow> s2
      | Some e \<Rightarrow> emit_event io (on_metrics (note_endpoint (at_session s2 i) (e\<lparr>ce_session_id := ss_id (at_session s2 i)\<rparr>)) s2)
          (e\<lparr>ce_session_id := ss_id (at_session s2 i)\<rparr>))"
    by (simp add: assemble_frame_def of(1) s2_def s1_def Let_def split: option.split)
  show ?thesis
  proof (cases ev)
    case None
    then show ?thesis using inv2 af by simp
  next
    case (Some e)
    have "inv (n + 1) k (emit_event io (on_metrics (note_endpoint ss e') s2) e')" for ss e'
      using inv2 by (simp add: hot_inv_def emit_event_balance frame_balance_def) (simp add: event_balance_def)
    then show ?thesis using af Some by simp
  qed
qed

lemma hot_frame_inv:
  assumes "inv n k s" "frame_ok f"
  shows "\<exists>s'. hot_frame io cfg tk f s = Some s' \<and> inv (n + 1) k s'"
proof -
  define s1 where "s1 = note_depth io (on_metrics (note_transport (tk_dequeue_ns tk) f) s)"
  have s1: "inv n k s1" "hl_sessions s1 = hl_sessions s"
    using assms(1) size_ok [of "hl_frames s"]
    by (simp_all add: s1_def hot_inv_def frame_balance_def event_balance_def)
  obtain t r where a: "acquire (hl_sessions s1) (fh_session_id (hdr f)) (tk_dequeue_ns tk) = (t, r)"
    by (cases "acquire (hl_sessions s1) (fh_session_id (hdr f)) (tk_dequeue_ns tk)")
  have ts: "table_safe (hl_sessions s1)" using s1(1) by (simp add: hot_inv_def)
  then have ok: "table_ok (hl_sessions s1)" by (simp add: table_safe_def)
  have t: "table_safe t" "st_max t = st_max (hl_sessions s1)"
    using acquire_safe [OF ts, of "fh_session_id (hdr f)" "tk_dequeue_ns tk"] acquire_ok [OF ok] a by (metis fst_conv)+
  define s2 where "s2 = s1\<lparr>hl_sessions := t\<rparr>"
  have s2: "inv n k s2"
    using s1(1) t(1) by (simp add: s2_def hot_inv_def frame_balance_def event_balance_def)
  have hf: "hot_frame io cfg tk f s = (case r of
      None \<Rightarrow> Some (on_metrics (\<lambda>m. m\<lparr>m_frames_refused := m_frames_refused m + 1\<rparr>) s2)
    | Some i \<Rightarrow> assemble_frame io tk f i (note_sequence (f_seq f) i (note_cadence cfg (tk_dequeue_ns tk) i s2)))"
    unfolding hot_frame_def Let_def s1_def [symmetric] a s2_def by (simp split: option.split)
  show ?thesis
  proof (cases r)
    case None
    have "inv (n + 1) k (on_metrics (\<lambda>m. m\<lparr>m_frames_refused := m_frames_refused m + 1\<rparr>) s2)"
      using s2 by (simp add: hot_inv_def frame_balance_def event_balance_def) (simp add: algebra_simps)
    then show ?thesis using None hf by simp
  next
    case (Some i)
    define s3 where "s3 = note_sequence (f_seq f) i (note_cadence cfg (tk_dequeue_ns tk) i s2)"
    have k: "keeps_identity (\<lambda>ss. ss\<lparr>ss_prev_frame_ns := x\<rparr>)"
      "keeps_identity (\<lambda>ss. ss\<lparr>ss_last_seq := y, ss_have_last_seq := True, ss_frames := ss_frames ss + 1\<rparr>)" for x y
      by (simp_all add: keeps_identity_def)
    have "table_safe (hl_sessions s3)"
      unfolding s3_def s2_def by (simp add: update_safe t(1) k)
    then have "inv n k s3"
      using s2 by (simp add: s3_def hot_inv_def frame_balance_def event_balance_def)
    moreover have "i < unat (st_max (hl_sessions s3))"
      using acquire_assemblers(2) [OF ok, of "fh_session_id (hdr f)" "tk_dequeue_ns tk" i] a Some t(2)
      by (simp add: s3_def s2_def)
    ultimately show ?thesis using assemble_frame_inv [OF _ assms(2)] hf Some by (simp add: s3_def)
  qed
qed

lemma hot_sweep_inv:
  assumes "inv n k s"
  shows "\<exists>s'. hot_sweep io cfg now s = Some s' \<and> inv n k s'"
proof -
  have safe: "table_safe (hl_sessions s)" using assms by (simp add: hot_inv_def)
  then obtain t evs where e: "expire_idle (hl_sessions s) now (hc_idle_ns cfg) = Some (t, evs)"
      "swept (is_idle now (hc_idle_ns cfg)) now (hl_sessions s) t evs"
    using expire_idle_ok [of "hl_sessions s" now "hc_idle_ns cfg"] by (auto simp: table_safe_def table_ok_def)
  have "inv n k ((foldl (emit_event io) (s\<lparr>hl_sessions := t\<rparr>) evs)\<lparr>hl_next_sweep_ns := x\<rparr>)" for x
  proof -
    have "event_balance sent (foldl (emit_event io) (s\<lparr>hl_sessions := t\<rparr>) evs) = k"
      unfolding emit_events_balance using assms by (simp add: hot_inv_def event_balance_def)
    then show ?thesis
      using assms swept_safe [OF safe e(2)] by (simp add: hot_inv_def frame_balance_def) (simp add: event_balance_def)
  qed
  then show ?thesis using assms by (simp add: hot_sweep_def e(1))
qed

lemma hot_turn_inv:
  assumes "inv n k s"
  shows "\<exists>s' go. hot_turn io cfg tk s = Some (s', go) \<and> inv n k s'"
proof -
  define s1 where "s1 = observe_depth (tk_loop_ns tk) s"
  have s1: "inv n k s1" using assms by (simp add: s1_def hot_inv_def frame_balance_def event_balance_def)
  obtain s2 where s2: "hot_sweep io cfg (tk_loop_ns tk) s1 = Some s2" "inv n k s2" using hot_sweep_inv [OF s1] by blast
  obtain q p where pop: "io_pop io (hl_frames s2) = (q, p)" by (cases "io_pop io (hl_frames s2)")
  have ok: "ok (hl_frames s2)" using s2(2) by (simp add: hot_inv_def)
  have q: "ok q" "pops q = pops (hl_frames s2) + (if p = None then 0 else 1)" using pop_ok [OF ok] pop by simp_all
  have turn: "hot_turn io cfg tk s = (if hc_deadline_ns cfg \<noteq> 0 \<and> tk_loop_ns tk > hc_deadline_ns cfg then Some (s1, False)
      else case p of None \<Rightarrow> Some (s2\<lparr>hl_frames := q, hl_observed_depth := 0\<rparr>, True)
           | Some f \<Rightarrow> map_option (\<lambda>s. (s, True)) (hot_frame io cfg tk f (s2\<lparr>hl_frames := q\<rparr>)))"
    unfolding hot_turn_def Let_def s1_def [symmetric] by (simp add: s2(1) pop split: option.split)
  show ?thesis
  proof (cases p)
    case None
    have "inv n k (s2\<lparr>hl_frames := q, hl_observed_depth := 0\<rparr>)"
      using s2(2) q None by (simp add: hot_inv_def frame_balance_def event_balance_def)
    then show ?thesis unfolding turn using s1 None
      by (cases "hc_deadline_ns cfg \<noteq> 0 \<and> tk_loop_ns tk > hc_deadline_ns cfg") auto
  next
    case (Some f)
    have "inv (n - 1) k (s2\<lparr>hl_frames := q\<rparr>)"
      using s2(2) q Some by (simp add: hot_inv_def frame_balance_def event_balance_def) (simp add: algebra_simps)
    moreover have "frame_ok f" using pop_frame [OF ok] pop Some by simp
    ultimately obtain s' where "hot_frame io cfg tk f (s2\<lparr>hl_frames := q\<rparr>) = Some s'" "inv (n - 1 + 1) k s'"
      using hot_frame_inv by blast
    then show ?thesis unfolding turn using s1 Some
      by (cases "hc_deadline_ns cfg \<noteq> 0 \<and> tk_loop_ns tk > hc_deadline_ns cfg") auto
  qed
qed

lemma hot_turns_inv: "inv n k s \<Longrightarrow> \<exists>s'. hot_turns io cfg tks s = Some s' \<and> inv n k s'"
proof (induction tks arbitrary: s)
  case (Cons tk tks)
  obtain s1 go where "hot_turn io cfg tk s = Some (s1, go)" "inv n k s1" using hot_turn_inv [OF Cons.prems] by blast
  then show ?case using Cons.IH [of s1] by simp
qed simp

lemma hot_finish_inv:
  assumes "inv n k s"
  shows "\<exists>s'. hot_finish io now s = Some s' \<and> inv n k s' \<and> view (hl_sessions s') = Map.empty"
proof -
  have safe: "table_safe (hl_sessions s)" using assms by (simp add: hot_inv_def)
  then have ti: "table_inv (hl_sessions s)" by (simp add: table_safe_def table_ok_def)
  obtain t evs where e: "flush_all (hl_sessions s) now = Some (t, evs)" "swept ss_active now (hl_sessions s) t evs"
    using flush_all_ok [OF ti] by blast
  have "view t sid = None" for sid
  proof (rule ccontr)
    assume "view t sid \<noteq> None"
    then obtain i where i: "view (hl_sessions s) sid = Some i" "\<not> ss_active (sess (hl_sessions s) i)"
      using swept_view(1) [OF ti e(2), of sid] by (auto split: option.splits if_splits)
    then show False using view_Some [of "hl_sessions s" sid i] ti by (auto simp: table_inv_def)
  qed
  then have "view t = Map.empty" by (intro ext) simp
  moreover have "event_balance sent (foldl (emit_event io) (s\<lparr>hl_sessions := t\<rparr>) evs) = k"
    unfolding emit_events_balance using assms by (simp add: hot_inv_def event_balance_def)
  ultimately show ?thesis
    using assms swept_safe [OF safe e(2)]
    by (simp add: hot_finish_def e(1) hot_inv_def frame_balance_def Let_def) (simp add: event_balance_def)
qed

text \<open>The whole run, from empty metrics.\<close>

lemma hot_loop_inv:
  assumes "ok frames" "co_max_sessions opt < kTombstone"
    "m_frames m = 0" "m_frames_refused m = 0" "m_chunks m = 0" "m_event_drops m = 0"
  shows "\<exists>s. hot_loop io opt t0 t1 tks t2 frames events m = Some s
    \<and> m_frames (hl_metrics s) + m_frames_refused (hl_metrics s) = pops (hl_frames s) - pops frames
    \<and> m_chunks (hl_metrics s) = (sent (hl_events s) - sent events) + m_event_drops (hl_metrics s)
    \<and> view (hl_sessions s) = Map.empty \<and> table_safe (hl_sessions s)"
proof -
  have "inv (- pops frames) (- sent events) (hot_start opt frames events m t1)"
    using assms table_safe_new [OF assms(2)]
    by (simp add: hot_inv_def hot_start_def frame_balance_def event_balance_def)
  then obtain s1 where s1: "hot_turns io (hot_configure opt t0) tks (hot_start opt frames events m t1) = Some s1"
      "inv (- pops frames) (- sent events) s1" using hot_turns_inv by blast
  obtain s where s: "hot_finish io t2 s1 = Some s" "inv (- pops frames) (- sent events) s" "view (hl_sessions s) = Map.empty"
    using hot_finish_inv [OF s1(2)] by blast
  have "m_frames (hl_metrics s) + m_frames_refused (hl_metrics s) = pops (hl_frames s) - pops frames"
    "m_chunks (hl_metrics s) = (sent (hl_events s) - sent events) + m_event_drops (hl_metrics s)"
    using s(2) by (simp_all add: hot_inv_def frame_balance_def event_balance_def algebra_simps)
  then show ?thesis using s s1(1) by (simp add: hot_loop_def hot_inv_def)
qed

end

end
