(* ===== verification/Hot_Props.thy ===== *)
theory Hot_Props
  imports Hot_Inv
begin

text \<open>
  The hot loop on the two rings, with the ingest thread and the publisher acting between its calls,
  and what it guarantees: it never faults, and it loses no frame and no chunk without counting it.
\<close>

section \<open>One event\<close>

lemma emit_event_queues:
  "hl_events (emit_event io s ev) = fst (io_push io (hl_events s) ev)"
  "hl_next_sweep_ns (emit_event io s ev) = hl_next_sweep_ns s"
  by (simp_all add: emit_event_def Let_def split: prod.split)

section \<open>The rings, shared\<close>

text \<open>The frame ring with the frames that arrive before each access, the event ring with the number of
  events the publisher takes before each push.\<close>

fun arrive :: "audio_frame ring \<times> audio_frame list list \<Rightarrow> audio_frame ring \<times> audio_frame list list" where
  "arrive (r, []) = (r, [])"
| "arrive (r, fs # later) = (foldl (\<lambda>r f. fst (try_push r f)) r fs, later)"

fun publish_some :: "chunk_event ring \<times> nat list \<Rightarrow> chunk_event ring \<times> nat list" where
  "publish_some (e, []) = (e, [])"
| "publish_some (e, n # later) = (((\<lambda>e. fst (try_pop e)) ^^ n) e, later)"

definition shared_io :: "(audio_frame ring \<times> audio_frame list list, chunk_event ring \<times> nat list) hot_io" where
  "shared_io =
    \<lparr>io_pop = (\<lambda>q. case arrive q of (r, later) \<Rightarrow> case try_pop r of (r, x) \<Rightarrow> ((r, later), x)),
     io_size = (\<lambda>q. case arrive q of (r, later) \<Rightarrow> ((r, later), ring_size r)),
     io_push = (\<lambda>e v. case publish_some e of (e, later) \<Rightarrow> case try_push e v of (e, x) \<Rightarrow> ((e, later), x))\<rparr>"

definition frames_ok :: "nat \<Rightarrow> audio_frame ring \<times> audio_frame list list \<Rightarrow> bool" where
  "frames_ok c q \<longleftrightarrow> ring_wf (fst q) \<and> length (rg_slots (fst q)) = c \<and> (\<forall>f \<in> set (ring_items (fst q)). frame_ok f)
    \<and> (\<forall>fs \<in> set (snd q). \<forall>f \<in> set fs. frame_ok f)"

lemma consumed_push [simp]: "consumed (fst (try_push r v)) = consumed r"
  by (simp add: consumed_def try_push_def put_slot_def Let_def)

lemma produced_push: "produced (fst (try_push r v)) = produced r + (if snd (try_push r v) = KOk then 1 else 0)"
  by (simp add: produced_def try_push_def put_slot_def Let_def)

lemma consumed_pop: "consumed (fst (try_pop r)) = consumed r + (if snd (try_pop r) = None then 0 else 1)"
  by (simp add: consumed_def try_pop_def Let_def)

lemma produced_pop [simp]: "produced (fst (try_pop r)) = produced r"
  by (simp add: produced_def try_pop_def Let_def)

lemma produced_pops [simp]: "produced (((\<lambda>e. fst (try_pop e)) ^^ n) r) = produced r"
  by (induction n) simp_all

lemma arrivals_ok:
  assumes "ring_wf r" "\<forall>f \<in> set (ring_items r). frame_ok f" "\<forall>f \<in> set fs. frame_ok f"
  defines "r' \<equiv> foldl (\<lambda>r f. fst (try_push r f)) r fs"
  shows "ring_wf r' \<and> length (rg_slots r') = length (rg_slots r) \<and> (\<forall>f \<in> set (ring_items r'). frame_ok f)
    \<and> consumed r' = consumed r"
  using assms(1-3) unfolding r'_def
proof (induction fs arbitrary: r)
  case (Cons f fs)
  obtain T h tc hc where "ring_at r T h tc hc" using Cons.prems(1) by (auto simp: ring_wf_def)
  note p = try_push_at [OF this, of f]
  then have "\<forall>g \<in> set (ring_items (fst (try_push r f))). frame_ok g" using Cons.prems(2,3) by (auto split: if_splits)
  then show ?case using Cons.IH [of "fst (try_push r f)"] p Cons.prems(3) by simp
qed simp

lemma arrive_ok:
  assumes "frames_ok c q"
  shows "frames_ok c (arrive q)" "consumed (fst (arrive q)) = consumed (fst q)"
proof -
  have "frames_ok c (arrive q) \<and> consumed (fst (arrive q)) = consumed (fst q)"
    using assms arrivals_ok by (cases q rule: arrive.cases) (auto simp: frames_ok_def)
  then show "frames_ok c (arrive q)" "consumed (fst (arrive q)) = consumed (fst q)" by blast+
qed

lemma pop_ring:
  assumes "frames_ok c (r, later)"
  shows "frames_ok c (fst (try_pop r), later)" "snd (try_pop r) = Some f \<Longrightarrow> frame_ok f" "ring_size r \<le> c"
proof -
  have wf: "ring_wf r" using assms by (simp add: frames_ok_def)
  then obtain T h tc hc where "ring_at r T h tc hc" by (auto simp: ring_wf_def)
  note p = try_pop_at [OF this]
  show "frames_ok c (fst (try_pop r), later)"
    using assms p by (cases "ring_items r") (auto simp: frames_ok_def)
  show "frame_ok f" if "snd (try_pop r) = Some f"
    using that assms p by (cases "ring_items r") (auto simp: frames_ok_def)
  show "ring_size r \<le> c" using assms ring_items_room [OF wf] length_ring_items [OF wf] by (simp add: frames_ok_def)
qed

interpretation shared: hot_queues shared_io "frames_ok c" "\<lambda>q. consumed (fst q)" "\<lambda>e. produced (fst e)" c for c
proof (unfold_locales, goal_cases)
  case (1 q)
  obtain r later where a: "arrive q = (r, later)" by (cases "arrive q")
  obtain r' x where p: "try_pop r = (r', x)" by (cases "try_pop r")
  show ?case
    using arrive_ok [OF 1] pop_ring(1) [of c r later] consumed_pop [of r] by (simp add: shared_io_def a p)
next
  case (2 q f)
  obtain r later where a: "arrive q = (r, later)" by (cases "arrive q")
  then show ?case
    using arrive_ok(1) [OF 2(1)] pop_ring(2) [of c r later f] 2(2) by (simp add: shared_io_def split: prod.splits)
next
  case (3 q)
  obtain r later where a: "arrive q = (r, later)" by (cases "arrive q")
  then show ?case using arrive_ok [OF 3] pop_ring(3) [of c r later] by (simp add: shared_io_def)
next
  case (4 e v)
  obtain r later where a: "publish_some e = (r, later)" by (cases "publish_some e")
  then have "produced r = produced (fst e)" by (cases e rule: publish_some.cases) auto
  moreover obtain r' x where p: "try_push r v = (r', x)" by (cases "try_push r v")
  ultimately show ?case using produced_push [of r v] by (simp add: shared_io_def a p)
qed

lemma frames_ok_new:
  "valid_capacity c \<Longrightarrow> \<forall>fs \<in> set arrivals. \<forall>f \<in> set fs. frame_ok f \<Longrightarrow> frames_ok c (ring_new c zero_frame, arrivals)"
  by (simp add: frames_ok_def op_simps)

lemma metrics_new_zero:
  assumes "metrics_new = Some m"
  shows "m_frames m = 0" "m_frames_refused m = 0" "m_chunks m = 0" "m_event_drops m = 0"
    "m_depth_area_ns m = 0" "m_depth_time_ns m = 0"
proof -
  obtain m' where "metrics_new = Some m'" "m_frames m' = 0 \<and> m_frames_refused m' = 0 \<and> m_chunks m' = 0
      \<and> m_event_drops m' = 0 \<and> m_depth_area_ns m' = 0 \<and> m_depth_time_ns m' = 0"
    using metrics_new_ok by blast
  moreover from this(1) have "m' = m" using assms by (metis option.inject)
  ultimately show "m_frames m = 0" "m_frames_refused m = 0" "m_chunks m = 0" "m_event_drops m = 0"
    "m_depth_area_ns m = 0" "m_depth_time_ns m = 0" by simp_all
qed

section \<open>The depth integral\<close>

definition depth_fields :: "('q, 'e) hot \<Rightarrow> u64 \<times> u64 \<times> u64" where
  "depth_fields s = (m_depth_area_ns (hl_metrics s), m_depth_time_ns (hl_metrics s), hl_prev_observation_ns s)"

lemma emit_depth: "depth_fields (emit_event io s ev) = depth_fields s"
  "hl_observed_depth (emit_event io s ev) = hl_observed_depth s"
  by (simp_all add: depth_fields_def emit_event_def Let_def split: prod.split)

lemma emits_depth: "depth_fields (foldl (emit_event io) s evs) = depth_fields s"
  "hl_observed_depth (foldl (emit_event io) s evs) = hl_observed_depth s"
  by (induction evs arbitrary: s) (simp_all add: emit_depth)

lemma sweep_depth:
  assumes "hot_sweep io cfg now s = Some s'"
  shows "depth_fields s' = depth_fields s \<and> hl_observed_depth s' = hl_observed_depth s"
proof (cases "now \<ge> hl_next_sweep_ns s")
  case True
  then obtain t evs where "s' = (foldl (emit_event io) (s\<lparr>hl_sessions := t\<rparr>) evs)\<lparr>hl_next_sweep_ns := now + kSweepIntervalNs\<rparr>"
    using assms by (auto simp: hot_sweep_def split: bind_splits)
  then show ?thesis
    using emits_depth [of io "s\<lparr>hl_sessions := t\<rparr>" evs] by (simp add: depth_fields_def)
qed (use assms in \<open>simp add: hot_sweep_def\<close>)

lemma assemble_depth:
  assumes "assemble_frame io tk f i s = Some s'"
  shows "depth_fields s' = depth_fields s \<and> hl_observed_depth s' = hl_observed_depth s"
  using assms unfolding assemble_frame_def Let_def
  by (auto simp: emit_depth depth_fields_def note_endpoint_def split: bind_splits option.splits)
    (simp_all add: emit_event_def Let_def note_endpoint_def split: prod.split)

lemma frame_depth:
  assumes "hot_frame io cfg tk f s = Some s'"
  shows "depth_fields s' = depth_fields s \<and> hl_observed_depth s' = of_nat (snd (io_size io (hl_frames s)))"
proof -
  define s1 where "s1 = note_depth io (on_metrics (note_transport (tk_dequeue_ns tk) f) s)"
  have s1: "depth_fields s1 = depth_fields s" "hl_observed_depth s1 = of_nat (snd (io_size io (hl_frames s)))"
    by (simp_all add: s1_def depth_fields_def note_depth_def note_transport_def Let_def split: prod.split)
  obtain t r where a: "acquire (hl_sessions s1) (fh_session_id (hdr f)) (tk_dequeue_ns tk) = (t, r)"
    by (cases "acquire (hl_sessions s1) (fh_session_id (hdr f)) (tk_dequeue_ns tk)")
  note e = assms [unfolded hot_frame_def Let_def s1_def [symmetric] a]
  show ?thesis
  proof (cases r)
    case None
    then show ?thesis using e s1 by (auto simp: depth_fields_def)
  next
    case (Some i)
    define s2 where "s2 = note_sequence (f_seq f) i (note_cadence cfg (tk_dequeue_ns tk) i (s1\<lparr>hl_sessions := t\<rparr>))"
    have "depth_fields s2 = depth_fields s1" "hl_observed_depth s2 = hl_observed_depth s1"
      by (simp_all add: s2_def depth_fields_def note_sequence_def note_cadence_def Let_def)
    moreover have "assemble_frame io tk f i s2 = Some s'" using e Some by (simp add: s2_def)
    ultimately show ?thesis using assemble_depth [of io tk f i s2 s'] s1 by simp
  qed
qed

lemma sorted_last_ge: "sorted xs \<Longrightarrow> x \<in> set xs \<Longrightarrow> x \<le> last xs"
  by (induction xs) auto

section \<open>Properties\<close>

text \<open>C4: The hot loop never faults and loses nothing silently: on frames with their bytes inside the
  payload, whatever arrives when, whatever the clock and the publisher do, the run ends normally
  (no read out of bounds, no endless rebuild), every frame popped was processed or refused, every
  chunk closed was queued for the publisher or counted as dropped, and no call is left open.\<close>

theorem hot_loop_accounts_for_everything:
  assumes "valid_capacity c" "\<forall>fs \<in> set arrivals. \<forall>f \<in> set fs. frame_ok f"
    "co_max_sessions opt < kTombstone" "metrics_new = Some m"
  shows "\<exists>s. hot_loop shared_io opt t0 t1 tks t2 (ring_new c zero_frame, arrivals) (ring_new d ev, drains) m = Some s
    \<and> m_frames (hl_metrics s) + m_frames_refused (hl_metrics s) = consumed (fst (hl_frames s))
    \<and> m_chunks (hl_metrics s) = produced (fst (hl_events s)) + m_event_drops (hl_metrics s)
    \<and> view (hl_sessions s) = Map.empty"
proof -
  have m: "m_frames m = 0" "m_frames_refused m = 0" "m_chunks m = 0" "m_event_drops m = 0"
    using metrics_new_zero [OF assms(4)] by simp_all
  have z: "consumed (ring_new c zero_frame) = 0" "produced (ring_new d ev) = 0"
    by (simp_all add: ring_new_def consumed_def produced_def)
  show ?thesis
    using shared.hot_loop_inv [OF frames_ok_new [OF assms(1,2)] assms(3) m, of t0 t1 tks t2 "(ring_new d ev, drains)"] z
    by auto
qed

theorem hot_loop_accounts_for_everything_witness:
  "\<exists>m s. metrics_new = Some m
    \<and> hot_loop shared_io consumer_defaults 5 5 [\<lparr>tk_loop_ns = 6, tk_dequeue_ns = 7, tk_done_ns = 8\<rparr>] 9
        (ring_new 2 zero_frame, [[loud_frame 1]]) (ring_new 2 zero_event, []) m = Some s
    \<and> m_frames (hl_metrics s) + m_frames_refused (hl_metrics s) = consumed (fst (hl_frames s))"
proof -
  obtain m where m: "metrics_new = Some m" using metrics_new_ok by blast
  have c: "valid_capacity 2" using valid_capacity_pow2_iff [of 1] by simp
  have a: "\<forall>fs \<in> set [[loud_frame 1]]. \<forall>f \<in> set fs. frame_ok f" using sample_frames_ok by simp
  have k: "co_max_sessions consumer_defaults < kTombstone" by (simp add: consumer_defaults_def kTombstone_def)
  from hot_loop_accounts_for_everything [OF c a k m] m show ?thesis by blast
qed

end
