(* ===== verification/Text_Format.thy ===== *)
theory Text_Format
  imports Histogram
begin

text \<open>
  The \<open>printf\<close> conversions the program uses: unsigned and signed decimals, fixed-point doubles, padding
  to a field width, truncation by \<open>snprintf\<close>, and \<open>std::to_string\<close>.
\<close>

definition newline :: string where
  "newline = [char_of (10 :: nat)]"

text \<open>\<open>%llu\<close>, \<open>%u\<close>\<close>

definition dec_u :: "'a::len word \<Rightarrow> string" where
  "dec_u w = decimal (unat w)"

text \<open>\<open>std::to_string(int)\<close>\<close>

definition dec_i :: "int \<Rightarrow> string" where
  "dec_i n = (if n < 0 then ''-'' else []) @ decimal (nat \<bar>n\<bar>)"

text \<open>\<open>%llx\<close>\<close>

definition hex_digit :: "nat \<Rightarrow> char" where
  "hex_digit d = char_of (if d < 10 then 48 + d else 87 + d)"

fun hexadecimal :: "nat \<Rightarrow> string" where
  "hexadecimal n = (if n < 16 then [hex_digit n] else hexadecimal (n div 16) @ [hex_digit (n mod 16)])"

declare hexadecimal.simps [simp del]

definition hex_u :: "'a::len word \<Rightarrow> string" where
  "hex_u w = hexadecimal (unat w)"

text \<open>\<open>%.kf\<close>: the exact value rounded to \<open>k\<close> decimals, ties to even.\<close>

definition fixed :: "nat \<Rightarrow> double \<Rightarrow> string" where
  "fixed k x =
    (let n = nat (rne (\<bar>x\<bar> * 10 ^ k)); frac = decimal (n mod 10 ^ k)
     in (if x < 0 then ''-'' else []) @ decimal (n div 10 ^ k)
        @ (if k = 0 then [] else ''.'' @ replicate (k - length frac) (CHR ''0'') @ frac))"

text \<open>\<open>%8s\<close> and \<open>%-8s\<close>\<close>

definition pad_left :: "nat \<Rightarrow> string \<Rightarrow> string" where
  "pad_left w s = replicate (w - length s) (CHR '' '') @ s"

definition pad_right :: "nat \<Rightarrow> string \<Rightarrow> string" where
  "pad_right w s = s @ replicate (w - length s) (CHR '' '')"

text \<open>\<open>snprintf\<close> into a buffer of \<open>n\<close> bytes keeps all but the last for the text.\<close>

definition snprintf :: "nat \<Rightarrow> string \<Rightarrow> string" where
  "snprintf n s = take (n - 1) s"

end
