(* ===== verification/Publisher.thy ===== *)
theory Publisher
  imports Spsc_Ring Audio_Frame Text_Format
begin

text \<open>
  The publisher thread, \<open>publish_loop\<close> of \<open>src/vhp_consumer.cpp\<close>: it prints one JSON line per chunk
  event and flushes when the event ring runs dry. The hot loop acts between the turns: each turn
  (\<open>pub_tick\<close>) has the events pushed before it and the value of \<open>done\<close> it reads; the hot loop pushes
  nothing after setting \<open>done\<close>. The 2 ms sleep is not modelled.
\<close>

section \<open>The line of an event\<close>

definition kReasons :: "string list" where
  "kReasons = [''hangover'', ''max_length'', ''stream_end'']"

definition reason_name :: "u16 \<Rightarrow> string" where
  "reason_name r = (if r < 3 then kReasons ! unat r else ''unknown'')"

definition event_line :: "chunk_event \<Rightarrow> string" where
  "event_line ev =
    ''{\"session\":'' @ dec_u (ce_session_id ev) @ '',\"chunk_id\":'' @ dec_u (ce_chunk_id ev)
    @ '',\"first_seq\":'' @ dec_u (ce_first_seq ev) @ '',\"last_seq\":'' @ dec_u (ce_last_seq ev)
    @ '',\"frames\":'' @ dec_u (ce_frame_count ev) @ '',\"bytes\":'' @ dec_u (ce_byte_count ev)
    @ '',\"dropped\":'' @ dec_u (ce_dropped_frames ev) @ '',\"reason\":\"'' @ reason_name (ce_reason ev)
    @ ''\",\"speech_ms\":'' @ fixed 1 (fdiv (f_of_u64 (ce_t_endpoint_ns ev - ce_t_speech_start_ns ev)) 1000000)
    @ '',\"endpoint_ns\":'' @ dec_u (ce_t_endpoint_ns ev) @ ''}'' @ newline"

section \<open>The loop\<close>

datatype pub_action = Printed string | Flushed

record pub_tick =
  pk_pushed :: "chunk_event list"
  pk_done :: bool

text \<open>\<open>pb_accepted\<close> is ghost state: the events the ring accepted so far.\<close>

record publisher =
  pb_events :: "chunk_event ring"
  pb_dirty :: bool
  pb_out :: "pub_action list"
  pb_accepted :: "chunk_event list"

definition push_event :: "publisher \<Rightarrow> chunk_event \<Rightarrow> publisher" where
  "push_event s ev =
    (let (q, r) = try_push (pb_events s) ev
     in s\<lparr>pb_events := q, pb_accepted := (if r = KFull then pb_accepted s else pb_accepted s @ [ev])\<rparr>)"

text \<open>One turn; the boolean is false when the loop ends.\<close>

definition publish_turn :: "pub_tick \<Rightarrow> publisher \<Rightarrow> publisher \<times> bool" where
  "publish_turn tk s =
    (let s = foldl push_event s (pk_pushed tk)
     in if pk_done tk \<and> ring_empty (pb_events s) then (s\<lparr>pb_out := pb_out s @ [Flushed]\<rparr>, False)
        else (case try_pop (pb_events s) of
                (q, None) \<Rightarrow>
                  (let s = s\<lparr>pb_events := q\<rparr>
                   in (if pb_dirty s then s\<lparr>pb_out := pb_out s @ [Flushed], pb_dirty := False\<rparr> else s, True))
              | (q, Some ev) \<Rightarrow>
                  (s\<lparr>pb_events := q, pb_out := pb_out s @ [Printed (event_line ev)], pb_dirty := True\<rparr>, True)))"

fun publish_turns :: "pub_tick list \<Rightarrow> publisher \<Rightarrow> publisher \<times> bool" where
  "publish_turns [] s = (s, False)"
| "publish_turns (tk # tks) s =
    (case publish_turn tk s of (s, go) \<Rightarrow> if go then publish_turns tks s else (s, True))"

definition publish_start :: "chunk_event ring \<Rightarrow> publisher" where
  "publish_start r = \<lparr>pb_events = r, pb_dirty = False, pb_out = [], pb_accepted = []\<rparr>"

definition publish_loop :: "pub_tick list \<Rightarrow> chunk_event ring \<Rightarrow> publisher \<times> bool" where
  "publish_loop tks r = publish_turns tks (publish_start r)"

section \<open>The invariant\<close>

definition printed :: "pub_action list \<Rightarrow> string list" where
  "printed out = concat (map (\<lambda>x. case x of Printed l \<Rightarrow> [l] | Flushed \<Rightarrow> []) out)"

lemma printed_append [simp]: "printed (xs @ ys) = printed xs @ printed ys"
  by (simp add: printed_def)

text \<open>What was printed and what is queued is what was accepted; nothing unflushed is left unmarked.\<close>

definition pub_inv :: "chunk_event list \<Rightarrow> publisher \<Rightarrow> bool" where
  "pub_inv evs s \<longleftrightarrow> ring_wf (pb_events s)
    \<and> printed (pb_out s) @ map event_line (ring_items (pb_events s)) = map event_line (evs @ pb_accepted s)
    \<and> (\<not> pb_dirty s \<and> pb_out s \<noteq> [] \<longrightarrow> last (pb_out s) = Flushed)"

lemma push_event_inv:
  assumes "pub_inv evs s"
  shows "pub_inv evs (push_event s ev)" "length (rg_slots (pb_events (push_event s ev))) = length (rg_slots (pb_events s))"
proof -
  obtain T h tc hc where "ring_at (pb_events s) T h tc hc" using assms by (auto simp: pub_inv_def ring_wf_def)
  note p = try_push_at [OF this, of ev]
  obtain q r where "try_push (pb_events s) ev = (q, r)" by (cases "try_push (pb_events s) ev")
  then show "pub_inv evs (push_event s ev)" "length (rg_slots (pb_events (push_event s ev))) = length (rg_slots (pb_events s))"
    using assms p by (auto simp: pub_inv_def push_event_def split: if_splits)
qed

lemma push_events_inv:
  "pub_inv evs s \<Longrightarrow> pub_inv evs (foldl push_event s es)
    \<and> length (rg_slots (pb_events (foldl push_event s es))) = length (rg_slots (pb_events s))"
  by (induction es arbitrary: s) (simp_all add: push_event_inv)

lemma publish_turn_inv:
  assumes "pub_inv evs s" "publish_turn tk s = (s', go)"
  shows "pub_inv evs s'" "length (rg_slots (pb_events s')) = length (rg_slots (pb_events s))"
    "\<not> go \<Longrightarrow> pk_done tk \<and> ring_items (pb_events s') = [] \<and> pb_out s' \<noteq> [] \<and> last (pb_out s') = Flushed"
    "pk_done tk \<Longrightarrow> pk_pushed tk = [] \<Longrightarrow> go \<Longrightarrow> length (ring_items (pb_events s')) < length (ring_items (pb_events s))"
proof -
  define s0 where "s0 = foldl push_event s (pk_pushed tk)"
  have s0: "pub_inv evs s0" "length (rg_slots (pb_events s0)) = length (rg_slots (pb_events s))"
    using push_events_inv [OF assms(1)] by (simp_all add: s0_def)
  then have wf: "ring_wf (pb_events s0)" by (simp add: pub_inv_def)
  then obtain T h tc hc where "ring_at (pb_events s0) T h tc hc" by (auto simp: ring_wf_def)
  note p = try_pop_at [OF this]
  obtain q x where pop: "try_pop (pb_events s0) = (q, x)" by (cases "try_pop (pb_events s0)")
  have e: "ring_empty (pb_events s0) \<longleftrightarrow> ring_items (pb_events s0) = []"
    using length_ring_items [OF wf] by (simp add: ring_empty_def flip: length_0_conv)
  have same: "s0 = s" if "pk_pushed tk = []" using that by (simp add: s0_def)
  note t = assms(2) [unfolded publish_turn_def s0_def [symmetric] Let_def pop e]
  show "pub_inv evs s'" "length (rg_slots (pb_events s')) = length (rg_slots (pb_events s))"
    "\<not> go \<Longrightarrow> pk_done tk \<and> ring_items (pb_events s') = [] \<and> pb_out s' \<noteq> [] \<and> last (pb_out s') = Flushed"
    using t s0 p pop
    by (cases "ring_items (pb_events s0)"; auto simp: pub_inv_def printed_def split: if_splits)+
  show "length (ring_items (pb_events s')) < length (ring_items (pb_events s))"
    if "pk_done tk" "pk_pushed tk = []" go
    using t p pop same [OF that(2)] that by (cases "ring_items (pb_events s0)") (auto split: if_splits)
qed

text \<open>Turns before \<open>done\<close> is read as true, and turns after.\<close>

lemma publish_busy:
  assumes "pub_inv evs s" "\<forall>tk \<in> set tks. \<not> pk_done tk"
  shows "\<exists>s'. pub_inv evs s' \<and> length (rg_slots (pb_events s')) = length (rg_slots (pb_events s))
    \<and> publish_turns (tks @ later) s = publish_turns later s'"
  using assms
proof (induction tks arbitrary: s)
  case (Cons tk tks)
  obtain s1 go where t: "publish_turn tk s = (s1, go)" by (cases "publish_turn tk s")
  note i = publish_turn_inv [OF Cons.prems(1) t]
  have go using i(3) Cons.prems(2) by auto
  then show ?case using Cons.IH [OF i(1)] Cons.prems(2) i(2) t by auto
qed auto

lemma publish_drain:
  assumes "pub_inv evs s" "length (ring_items (pb_events s)) < n"
  shows "\<exists>s'. publish_turns (replicate n \<lparr>pk_pushed = [], pk_done = True\<rparr>) s = (s', True) \<and> pub_inv evs s'
    \<and> ring_items (pb_events s') = [] \<and> pb_out s' \<noteq> [] \<and> last (pb_out s') = Flushed"
  using assms
proof (induction n arbitrary: s)
  case (Suc n)
  define tk where "tk = \<lparr>pk_pushed = [] :: chunk_event list, pk_done = True\<rparr>"
  obtain s1 go where t: "publish_turn tk s = (s1, go)" by (cases "publish_turn tk s")
  note i = publish_turn_inv [OF Suc.prems(1) t]
  show ?case
  proof (cases go)
    case True
    then have "length (ring_items (pb_events s1)) < n" using i(4) Suc.prems(2) by (simp add: tk_def)
    from Suc.IH [OF i(1) this] show ?thesis using t True by (simp add: tk_def)
  next
    case False
    then show ?thesis using i(1,3) t by (simp add: tk_def)
  qed
qed simp

section \<open>Properties\<close>

text \<open>C8: The publisher terminates and loses nothing: once \<open>done\<close> is set it ends after at most one turn per slot of
  the event ring and one more, every event the ring ever accepted has been printed, exactly once and in order,
  and the last thing it does is flush.\<close>

theorem publisher_publishes_everything:
  assumes "ring_wf r" "\<forall>tk \<in> set busy. \<not> pk_done tk" "length (rg_slots r) < n"
  shows "\<exists>s. publish_loop (busy @ replicate n \<lparr>pk_pushed = [], pk_done = True\<rparr>) r = (s, True)
    \<and> printed (pb_out s) = map event_line (ring_items r @ pb_accepted s)
    \<and> ring_items (pb_events s) = [] \<and> pb_out s \<noteq> [] \<and> last (pb_out s) = Flushed"
proof -
  have "pub_inv (ring_items r) (publish_start r)" using assms(1) by (simp add: pub_inv_def publish_start_def printed_def)
  from publish_busy [OF this assms(2)] obtain s1 where s1: "pub_inv (ring_items r) s1" "length (rg_slots (pb_events s1)) = length (rg_slots r)"
      "publish_loop (busy @ replicate n \<lparr>pk_pushed = [], pk_done = True\<rparr>) r = publish_turns (replicate n \<lparr>pk_pushed = [], pk_done = True\<rparr>) s1"
    by (auto simp: publish_loop_def publish_start_def)
  have "length (ring_items (pb_events s1)) < n"
    using ring_items_room [of "pb_events s1"] s1(1,2) assms(3) by (simp add: pub_inv_def)
  from publish_drain [OF s1(1) this] s1(3) show ?thesis by (auto simp: pub_inv_def)
qed

theorem publisher_publishes_everything_witness:
  "\<exists>s. publish_loop ([\<lparr>pk_pushed = [zero_event, zero_event], pk_done = False\<rparr>] @ replicate 3 \<lparr>pk_pushed = [], pk_done = True\<rparr>)
      (ring_new 2 zero_event) = (s, True) \<and> printed (pb_out s) = map event_line (pb_accepted s)"
proof -
  have "ring_wf (ring_new 2 zero_event)" "ring_items (ring_new 2 zero_event) = []" "length (rg_slots (ring_new 2 zero_event)) = 2"
    by (simp_all add: op_simps)
  then show ?thesis
    using publisher_publishes_everything [of "ring_new 2 zero_event" "[\<lparr>pk_pushed = [zero_event, zero_event], pk_done = False\<rparr>]" 3]
    by auto
qed

end
