(* ===== verification/Histogram_Theorems.thy ===== *)
theory Histogram_Theorems
  imports Histogram_Props
begin

text \<open>
  The theorems about the histogram as the rest of the pipeline uses it: constructed with the
  default precision and filled by a stream of \<^const>\<open>hist_record\<close> calls.
\<close>

section \<open>Recorded streams\<close>

lemma records_default:
  assumes "hist_default highest = Some h0" "length vs < 2 ^ 64"
  shows "hist_rep (foldl hist_record h0 vs) (filter_mset (tracked h0) (mset vs))"
    "same_layout h0 (foldl hist_record h0 vs)"
    "h_overflow (foldl hist_record h0 vs) = of_nat (length (filter (\<lambda>v. \<not> tracked h0 v) vs))"
  using rep_records [OF hist_default_rep(1) [OF assms(1)], of vs] assms(2) hist_default_rep(6) [OF assms(1)]
  by simp_all

lemma records_counted:
  assumes "hist_default highest = Some h0" "length vs < 2 ^ 64"
  shows "unat (hist_count (foldl hist_record h0 vs)) = length (filter (tracked h0) vs)"
    "unat (h_overflow (foldl hist_record h0 vs)) = length (filter (\<lambda>v. \<not> tracked h0 v) vs)"
proof -
  show "unat (hist_count (foldl hist_record h0 vs)) = length (filter (tracked h0) vs)"
    using records_default(1) [OF assms] by (simp add: hist_rep_def hist_count_def flip: mset_filter)
  have "length (filter (\<lambda>v. \<not> tracked h0 v) vs) < 2 ^ 64" using length_filter_le [of _ vs] assms(2) by (rule le_less_trans)
  then show "unat (h_overflow (foldl hist_record h0 vs)) = length (filter (\<lambda>v. \<not> tracked h0 v) vs)"
    unfolding records_default(3) [OF assms] by (simp add: unat_of_nat_small)
qed

lemma all_tracked:
  assumes "hist_default highest = Some h0" "\<forall>v \<in> set vs. v \<le> highest"
  shows "filter (tracked h0) vs = vs"
  using assms(2) hist_default_rep(5) [OF assms(1)] by (simp add: filter_id_conv)

text \<open>The values that have a slot are those the percentiles are about.\<close>

lemma percentile_value:
  fixes p :: double
  assumes "hist_default highest = Some h0" "length vs < 2 ^ 53" "filter (tracked h0) vs = ws" "ws \<noteq> []"
  defines "h \<equiv> foldl hist_record h0 vs"
  defines "x \<equiv> sort ws ! (max 1 (nat \<lceil>fraction h p\<rceil>) - 1)"
  shows "value_at_percentile h p = min (highest_equivalent h (value_from_index h (hslot h x))) (Max (set ws))"
    "x \<in> set ws" "unat (h_total h) = length ws" "nat \<lceil>fraction h p\<rceil> \<le> length ws"
proof -
  have len: "length vs < 2 ^ 64" "length ws < 2 ^ 53"
    using assms(2) length_filter_le [of "tracked h0" vs, unfolded assms(3)] by simp_all
  have rep: "hist_rep h (mset ws)"
    unfolding h_def assms(3) [symmetric] mset_filter by (rule records_default(1) [OF assms(1) len(1)])
  then show tot: "unat (h_total h) = length ws" by (simp add: hist_rep_def)
  note tg = percentile_target_nat [OF tot len(2), of p]
  show "nat \<lceil>fraction h p\<rceil> \<le> length ws" by (rule tg(2))
  have ne: "mset ws \<noteq> {#}" using assms(4) by simp
  have "unat (percentile_target h p) \<le> size (mset ws)" using tg by simp
  note rk = percentile_loop_rank [OF rep this ne, unfolded tg(1)]
  have so: "sorted_list_of_multiset (mset ws) = sort ws" by simp
  have mx: "h_max h = Max (set ws)" using rep ne by (simp add: hist_rep_def)
  have nz: "h_total h \<noteq> 0" using tot assms(4) by auto
  show "value_at_percentile h p = min (highest_equivalent h (value_from_index h (hslot h x))) (Max (set ws))"
    using rk(1) nz unfolding value_at_percentile_def x_def so mx by simp
  show "x \<in> set ws" using rk(2) unfolding x_def so by simp
qed

lemma ceiling_rank:
  fixes x :: rat
  assumes "0 \<le> x"
  shows "x \<le> of_nat (max 1 (nat \<lceil>x\<rceil>))" "of_nat (max 1 (nat \<lceil>x\<rceil>)) \<le> x + 1"
proof -
  have t: "of_int \<lceil>x\<rceil> = (of_nat (nat \<lceil>x\<rceil>) :: rat)" using assms by simp
  have c: "x \<le> of_nat (nat \<lceil>x\<rceil>)" "of_nat (nat \<lceil>x\<rceil>) < x + 1"
    using le_of_int_ceiling [of x] ceiling_correct [of x] unfolding t by auto
  show "x \<le> of_nat (max 1 (nat \<lceil>x\<rceil>))" using c(1) by (simp add: max_def)
  show "of_nat (max 1 (nat \<lceil>x\<rceil>)) \<le> x + 1" using c(2) assms by (simp add: max_def)
qed

lemma clamp_close:
  fixes x top m :: u64
  assumes "1024 * (unat top - unat x) \<le> unat x"
  shows "1024 * (unat (min top m) - unat x) \<le> unat x"
proof -
  have "unat (min top m) \<le> unat top" by (metis min.cobounded1 word_le_nat_alt)
  then have "1024 * (unat (min top m) - unat x) \<le> 1024 * (unat top - unat x)"
    by (intro mult_left_mono diff_le_mono) simp_all
  then show ?thesis using assms by (rule order_trans)
qed

text \<open>
  The rank the percentile \<open>p\<close> of \<open>n\<close> values has: the nearest-rank rule, \<open>p / 100 * n\<close> rounded up and at
  least one, with the quotient and the product in double precision.
\<close>

definition percentile_rank :: "double \<Rightarrow> nat \<Rightarrow> nat" where
  "percentile_rank p n = max 1 (nat \<lceil>fmul (fdiv p 100) (of_nat n)\<rceil>)"

lemma fraction_product:
  assumes "unat (h_total h) = n" "n < 2 ^ 53" "0 \<le> p" "p \<le> 100"
  shows "fraction h p = fmul (fdiv p 100) (of_nat n)"
  using assms(3,4) by (simp add: fraction_def f_of_u64_exact [OF assms(1,2)] fclamp_def)

lemma product_error:
  assumes "n < 2 ^ 53" "0 \<le> p" "p \<le> 100"
  shows "0 \<le> fmul (fdiv p 100) (of_nat n)" "\<bar>fmul (fdiv p 100) (of_nat n) - p / 100 * of_nat n\<bar> \<le> of_nat n / 2 ^ 51"
proof -
  define h where "h = (undefined :: histogram)\<lparr>h_total := of_nat n\<rparr>"
  have t: "unat (h_total h) = n" using assms(1) by (simp add: h_def unat_of_nat_small)
  show "0 \<le> fmul (fdiv p 100) (of_nat n)" "\<bar>fmul (fdiv p 100) (of_nat n) - p / 100 * of_nat n\<bar> \<le> of_nat n / 2 ^ 51"
    using fraction_bounds(1) [OF t assms(1), of p] fraction_error [OF t assms] unfolding fraction_product [OF t assms] .
qed

text \<open>
  Against exact arithmetic the rank is that of \<open>p / 100 * n\<close> rounded up, unless that number is within
  the rounding error of an integer; for the quartile, the median and the maximum nothing is rounded.
\<close>

lemma rank_exact:
  assumes "n < 2 ^ 53" "0 \<le> p" "p \<le> 100"
    "\<lceil>p / 100 * of_nat n - of_nat n / 2 ^ 51\<rceil> = \<lceil>p / 100 * of_nat n + of_nat n / 2 ^ 51\<rceil>"
  shows "percentile_rank p n = max 1 (nat \<lceil>p / 100 * of_nat n\<rceil>)"
proof -
  define x q e where "x = fmul (fdiv p 100) (of_nat n)" and "q = p / 100 * of_nat n" and "e = rat_of_nat n / 2 ^ 51"
  have "\<bar>x - q\<bar> \<le> e" unfolding x_def q_def e_def by (rule product_error(2) [OF assms(1-3)])
  then have "q - e \<le> x" "x \<le> q + e" "0 \<le> e" by linarith+
  then have "\<lceil>q - e\<rceil> \<le> \<lceil>x\<rceil>" "\<lceil>x\<rceil> \<le> \<lceil>q + e\<rceil>" "\<lceil>q - e\<rceil> \<le> \<lceil>q\<rceil>" "\<lceil>q\<rceil> \<le> \<lceil>q + e\<rceil>"
    by (simp_all add: ceiling_mono)
  then have "\<lceil>x\<rceil> = \<lceil>q\<rceil>" using assms(4) [folded q_def e_def] by linarith
  then show ?thesis by (simp add: percentile_rank_def x_def q_def)
qed

lemma rank_dyadic:
  assumes "n < 2 ^ 53" "p / 100 = pow2 k"
  shows "percentile_rank p n = max 1 (nat \<lceil>p / 100 * of_nat n\<rceil>)"
proof -
  have "rnd (pow2 k * of_nat n) = pow2 k * of_nat n" "rnd (pow2 k) = pow2 k"
    using rnd_exact [of "int n" k] rnd_exact [of 1 k] assms(1) by (simp_all add: mult.commute)
  then show ?thesis by (simp add: percentile_rank_def fmul_def fdiv_def assms(2))
qed

lemma rank_quartiles:
  assumes "n < 2 ^ 53" "p \<in> {25, 50, 100}"
  shows "percentile_rank p n = max 1 (nat \<lceil>p / 100 * of_nat n\<rceil>)"
proof -
  have "25 / 100 = pow2 (- 2)" "50 / 100 = pow2 (- 1)" "100 / 100 = pow2 0" by (simp_all add: pow2_def)
  then show ?thesis using rank_dyadic [OF assms(1)] assms(2) by fast
qed

text \<open>
  A value is the percentile \<open>p\<close> of a list: the order statistic of that rank, rounded up by less than
  one part in 1024 and never beyond the maximum.
\<close>

definition close_percentile :: "u64 list \<Rightarrow> double \<Rightarrow> u64 \<Rightarrow> bool" where
  "close_percentile ws p v \<longleftrightarrow>
    (let k = percentile_rank p (length ws); x = sort ws ! (k - 1)
     in 1 \<le> k \<and> k \<le> length ws \<and> x \<le> v \<and> v \<le> Max (set ws) \<and> 1024 * (unat v - unat x) \<le> unat x)"

lemma percentile_close:
  assumes "hist_default highest = Some h0" "length vs < 2 ^ 53" "filter (tracked h0) vs = ws" "ws \<noteq> []"
    and "0 \<le> p" "p \<le> 100"
  shows "close_percentile ws p (value_at_percentile (foldl hist_record h0 vs) p)"
proof -
  define h n where "h = foldl hist_record h0 vs" and "n = length ws"
  define t where "t = nat \<lceil>fraction h p\<rceil>"
  define k where "k = max 1 t"
  define x where "x = sort ws ! (k - 1)"
  define top where "top = highest_equivalent h (value_from_index h (hslot h x))"
  have pv: "value_at_percentile h p = min top (Max (set ws))" "x \<in> set ws" "unat (h_total h) = n" "t \<le> n"
    unfolding top_def x_def k_def t_def n_def h_def by (rule percentile_value [OF assms(1-4)])+
  have len: "length vs < 2 ^ 64" "n < 2 ^ 53"
    using assms(2) length_filter_le [of "tracked h0" vs, unfolded assms(3)] by (simp_all add: n_def)
  note sl = records_default(2) [OF assms(1) len(1), folded h_def]
  have lay: "layout_ok h" "h_unit h = 0" "h_sub_mag h = 11"
    using hist_default_rep(2-4) [OF assms(1)] sl same_layout_facts(1) [OF sl] by (simp_all add: same_layout_def)
  have tx: "tracked h x" using pv(2) same_layout_facts(3) [OF sl] by (auto simp: assms(3) [symmetric])
  note he = highest_equivalent_close [OF lay(1) tx lay(2), folded top_def, unfolded lay(3)]
  have "(2 :: nat) ^ (11 - 1) = 1024" by simp
  note he2 = he(2) [unfolded this]
  have xm: "x \<le> Max (set ws)" using pv(2) by simp
  have n1: "1 \<le> n" using assms(4) by (cases ws) (simp_all add: n_def)
  have rk: "percentile_rank p n = k"
    by (simp add: percentile_rank_def k_def t_def fraction_product [OF pv(3) len(2) assms(5,6)])
  have kn: "1 \<le> k" "k \<le> n" using pv(4) n1 by (simp_all add: k_def)
  have "x \<le> min top (Max (set ws))" using he(1) xm by simp
  moreover have "min top (Max (set ws)) \<le> Max (set ws)" by simp
  moreover have "1024 * (unat (min top (Max (set ws))) - unat x) \<le> unat x" by (rule clamp_close [OF he2])
  ultimately show ?thesis
    using kn unfolding close_percentile_def Let_def h_def [symmetric] n_def [symmetric] pv(1) rk x_def by blast
qed

section \<open>Properties\<close>

text \<open>C22: a percentile of a recorded stream is the order statistic of rank \<open>p / 100\<close> of the count rounded
  up (and at least one), itself rounded up by less than one part in 1024 and never beyond the maximum.
  The program computes the rank in double precision: it is exact for the quartile, the median and the
  maximum, and for every other percentile unless \<open>p / 100\<close> of the count is within \<open>2 ^ -51\<close> of the count of an
  integer, where the neighbouring rank may be taken.\<close>

theorem percentile_accurate:
  assumes "hist_default highest = Some h0" "length vs < 2 ^ 53" "\<forall>v \<in> set vs. v \<le> highest" "vs \<noteq> []"
    and "0 \<le> p" "p \<le> 100"
  shows "\<exists>k. 1 \<le> k \<and> k \<le> length vs
    \<and> sort vs ! (k - 1) \<le> value_at_percentile (foldl hist_record h0 vs) p
    \<and> value_at_percentile (foldl hist_record h0 vs) p \<le> Max (set vs)
    \<and> 1024 * (unat (value_at_percentile (foldl hist_record h0 vs) p) - unat (sort vs ! (k - 1))) \<le> unat (sort vs ! (k - 1))
    \<and> k = max 1 (nat \<lceil>fmul (fdiv p 100) (of_nat (length vs))\<rceil>)
    \<and> \<bar>fmul (fdiv p 100) (of_nat (length vs)) - p / 100 * of_nat (length vs)\<bar> \<le> of_nat (length vs) / 2 ^ 51
    \<and> (p \<in> {25, 50, 100} \<or> \<lceil>p / 100 * of_nat (length vs) - of_nat (length vs) / 2 ^ 51\<rceil>
          = \<lceil>p / 100 * of_nat (length vs) + of_nat (length vs) / 2 ^ 51\<rceil>
        \<longrightarrow> k = max 1 (nat \<lceil>p / 100 * of_nat (length vs)\<rceil>))"
proof -
  define k where "k = percentile_rank p (length vs)"
  note c = percentile_close [OF assms(1,2) all_tracked [OF assms(1,3)] assms(4-6), unfolded close_percentile_def Let_def, folded k_def]
  have "k = max 1 (nat \<lceil>p / 100 * of_nat (length vs)\<rceil>)"
    if "p \<in> {25, 50, 100} \<or> \<lceil>p / 100 * of_nat (length vs) - of_nat (length vs) / 2 ^ 51\<rceil>
          = \<lceil>p / 100 * of_nat (length vs) + of_nat (length vs) / 2 ^ 51\<rceil>"
    using that rank_quartiles [OF assms(2)] rank_exact [OF assms(2,5,6)] unfolding k_def by blast
  moreover have "k = max 1 (nat \<lceil>fmul (fdiv p 100) (of_nat (length vs))\<rceil>)" by (simp add: k_def percentile_rank_def)
  ultimately show ?thesis using c product_error(2) [OF assms(2,5,6)] by blast
qed

text \<open>The median of three values is the second, of two the first.\<close>

theorem percentile_accurate_witness:
  "\<exists>h0. hist_default 100000 = Some h0
    \<and> 3000 \<le> value_at_percentile (foldl hist_record h0 [70000, 20, 3000]) 50
    \<and> 1024 * (unat (value_at_percentile (foldl hist_record h0 [70000, 20, 3000]) 50) - 3000) \<le> 3000"
proof -
  obtain h0 where h: "hist_default 100000 = Some h0" using hist_default_ok by blast
  have v: "\<forall>v \<in> set [70000, 20, 3000 :: u64]. v \<le> 100000" by simp
  have c: "max 1 (nat \<lceil>50 / 100 * rat_of_nat (length [70000, 20, 3000 :: u64])\<rceil>) = 2" by code_simp
  have s: "sort [70000, 20, 3000 :: u64] ! (2 - 1) = 3000" by simp
  from percentile_accurate [OF h _ v, of 50] have
    "sort [70000, 20, 3000] ! (2 - 1) \<le> value_at_percentile (foldl hist_record h0 [70000, 20, 3000]) 50
      \<and> 1024 * (unat (value_at_percentile (foldl hist_record h0 [70000, 20, 3000]) 50) - unat (sort [70000, 20, 3000 :: u64] ! (2 - 1)))
        \<le> unat (sort [70000, 20, 3000 :: u64] ! (2 - 1))"
    unfolding c by auto
  then show ?thesis using h unfolding s by auto
qed

text \<open>The rounding can reach the next rank: the double nearest to 99.9 makes the 99.9th percentile of
  1000 values the last of them, and 7 per cent of 100 values the eighth.\<close>

theorem rank_beyond_exact: "percentile_rank (rnd (999 / 10)) 1000 = 1000" "percentile_rank 7 100 = 8"
proof -
  have "\<lceil>fmul (fdiv (rnd (999 / 10)) 100) 1000\<rceil> = 1000" "\<lceil>fmul (fdiv 7 100) 100\<rceil> = 8" by code_simp+
  then show "percentile_rank (rnd (999 / 10)) 1000 = 1000" "percentile_rank 7 100 = 8" by (simp_all add: percentile_rank_def)
qed

text \<open>Percentiles grow with the percentile asked for, and an out-of-range request is clamped.\<close>

theorem percentile_monotone:
  assumes "hist_default highest = Some h0" "length vs < 2 ^ 53" "\<forall>v \<in> set vs. v \<le> highest" "p \<le> q"
  shows "value_at_percentile (foldl hist_record h0 vs) p \<le> value_at_percentile (foldl hist_record h0 vs) q"
proof (cases "vs = []")
  case True
  then show ?thesis using hist_default_ok [of highest] assms(1) by (simp add: value_at_percentile_def)
next
  case False
  define h where "h = foldl hist_record h0 vs"
  define x where "x = (\<lambda>p. sort vs ! (max 1 (nat \<lceil>fraction h p\<rceil>) - 1))"
  have pv: "value_at_percentile h p = min (highest_equivalent h (value_from_index h (hslot h (x p)))) (Max (set vs))"
    "x p \<in> set vs" "nat \<lceil>fraction h p\<rceil> \<le> length vs" for p
    unfolding h_def x_def by (rule percentile_value [OF assms(1,2) all_tracked [OF assms(1,3)] False])+
  have len: "length vs < 2 ^ 64" using assms(2) by simp
  note sl = records_default(2) [OF assms(1) len, folded h_def]
  have lay: "layout_ok h" using hist_default_rep(2) [OF assms(1)] same_layout_facts(1) [OF sl] by simp
  have tx: "tracked h (x p)" for p
    using pv(2) assms(3) hist_default_rep(5) [OF assms(1)] same_layout_facts(3) [OF sl] by blast
  have "\<lceil>fraction h p\<rceil> \<le> \<lceil>fraction h q\<rceil>" by (intro ceiling_mono fraction_mono assms(4))
  then have "max 1 (nat \<lceil>fraction h p\<rceil>) - 1 \<le> max 1 (nat \<lceil>fraction h q\<rceil>) - 1" by (intro diff_le_mono max.mono nat_mono order_refl)
  moreover have "max 1 (nat \<lceil>fraction h q\<rceil>) - 1 < length (sort vs)" using pv(3) [of q] False by (cases vs) auto
  ultimately have "x p \<le> x q" unfolding x_def by (intro sorted_nth_mono) simp_all
  then have "highest_equivalent h (value_from_index h (hslot h (x p))) \<le> highest_equivalent h (value_from_index h (hslot h (x q)))"
    by (rule highest_equivalent_mono [OF lay tx tx])
  then show ?thesis unfolding h_def [symmetric] pv(1) by (intro min.mono) simp_all
qed

theorem percentile_monotone_witness:
  "\<exists>h0. hist_default 100000 = Some h0
    \<and> value_at_percentile (foldl hist_record h0 [70000, 20, 3000]) 50 \<le> value_at_percentile (foldl hist_record h0 [70000, 20, 3000]) 200"
proof -
  obtain h0 where h: "hist_default 100000 = Some h0" using hist_default_ok by blast
  have "\<forall>v \<in> set [70000, 20, 3000 :: u64]. v \<le> 100000" by simp
  from percentile_monotone [OF h _ this, of 50 200] h show ?thesis by auto
qed
text \<open>C32: recording a stream counts every value that has a slot once in that slot, every other in the
  overflow counter, and keeps the exact smallest and largest counted value.\<close>

theorem record_accounts_for_every_value:
  assumes "hist_default highest = Some h0" "length vs < 2 ^ 64"
  shows "unat (hist_count (foldl hist_record h0 vs)) = length (filter (tracked h0) vs)
    \<and> unat (h_overflow (foldl hist_record h0 vs)) = length (filter (\<lambda>v. \<not> tracked h0 v) vs)
    \<and> (\<forall>i < length (h_counts h0). unat (h_counts (foldl hist_record h0 vs) ! i)
         = length (filter (\<lambda>v. tracked h0 v \<and> hslot h0 v = i) vs))
    \<and> (\<forall>w \<in> set vs. tracked h0 w \<longrightarrow> hist_min (foldl hist_record h0 vs) \<le> w \<and> w \<le> h_max (foldl hist_record h0 vs))
    \<and> (filter (tracked h0) vs \<noteq> [] \<longrightarrow> {hist_min (foldl hist_record h0 vs), h_max (foldl hist_record h0 vs)} \<subseteq> set (filter (tracked h0) vs))
    \<and> (\<forall>v \<le> highest. tracked h0 v)"
proof -
  define h ts where "h = foldl hist_record h0 vs" and "ts = filter (tracked h0) vs"
  have rep: "hist_rep h (mset ts)" using records_default(1) [OF assms] by (simp add: h_def ts_def mset_filter)
  note sl = records_default(2) [OF assms, folded h_def]
  note ct = records_counted [OF assms, folded h_def ts_def]
  have tot: "unat (h_total h) = length ts" using rep by (simp add: hist_rep_def)
  have cnt: "unat (h_counts h ! i) = length (filter (\<lambda>v. tracked h0 v \<and> hslot h0 v = i) vs)"
    if i: "i < length (h_counts h0)" for i
  proof -
    have "unat (h_counts h ! i) = size (filter_mset (\<lambda>v. hslot h v = i) (mset ts))"
      using rep sl i by (simp add: hist_rep_def same_layout_def)
    also have "\<dots> = length (filter (\<lambda>v. hslot h0 v = i) ts)"
      unfolding same_layout_facts(2) [OF sl] by (simp flip: mset_filter)
    finally show ?thesis by (simp add: ts_def conj_commute)
  qed
  have mm: "hist_min h = Min (set ts) \<and> h_max h = Max (set ts)" if "ts \<noteq> []"
    using rep tot that by (auto simp: hist_rep_def hist_min_def)
  have ext: "hist_min h \<le> w \<and> w \<le> h_max h" if w: "w \<in> set vs" "tracked h0 w" for w
  proof -
    have m: "w \<in> set ts" using w by (simp add: ts_def)
    then have "ts \<noteq> []" by auto
    then show ?thesis using mm m by (metis List.finite_set Max_ge Min_le)
  qed
  have sub: "{hist_min h, h_max h} \<subseteq> set ts" if ne: "ts \<noteq> []"
  proof -
    have "Min (set ts) \<in> set ts" "Max (set ts) \<in> set ts" using ne by simp_all
    then show ?thesis using mm [OF ne] by simp
  qed
  show ?thesis
    unfolding h_def [symmetric] ts_def [symmetric]
    using ct cnt ext sub hist_default_rep(5) [OF assms(1)] by blast
qed

theorem record_accounts_for_every_value_witness:
  "\<exists>h0. hist_default 1000 = Some h0
    \<and> unat (hist_count (foldl hist_record h0 [5, 900, 5])) = length (filter (tracked h0) [5, 900, 5])"
proof -
  obtain h0 where h: "hist_default 1000 = Some h0" using hist_default_ok by blast
  have "length [5, 900, 5 :: u64] < 2 ^ 64" by simp
  from record_accounts_for_every_value [OF h this] h show ?thesis by blast
qed

text \<open>The loop over the missing samples records \<open>m\<close>, \<open>m - expected\<close>, and so on, as often as \<open>expected\<close> fits.\<close>

lemma missing_shift:
  assumes "0 < expected" "expected \<le> m"
  shows "foldl hist_record (hist_record h m) (map (\<lambda>k. m - expected - of_nat k * expected) [0..<unat (m - expected) div unat expected])
    = foldl hist_record h (map (\<lambda>k. m - of_nat k * expected) [0..<unat m div unat expected])"
proof -
  define n where "n = unat (m - expected) div unat expected"
  have "0 < unat expected" using assms(1) by (simp add: word_less_nat_alt)
  then have "unat m div unat expected = Suc n"
    using assms(2) by (simp add: n_def unat_sub le_div_geq word_le_nat_alt)
  then have up: "[0..<unat m div unat expected] = 0 # map Suc [0..<n]"
    by (simp add: upt_conv_Cons map_Suc_upt del: upt_Suc)
  show ?thesis unfolding up n_def [symmetric] by (simp add: algebra_simps o_def)
qed

lemma record_missing_steps:
  assumes "0 < expected"
  shows "record_missing h m expected = foldl hist_record h (map (\<lambda>k. m - of_nat k * expected) [0..<unat m div unat expected])"
  using assms
proof (induction h m expected rule: record_missing.induct)
  case (1 h m expected)
  show ?case
  proof (cases "expected \<le> m")
    case True
    then have "record_missing h m expected = record_missing (hist_record h m) (m - expected) expected"
      using 1(2) by (subst record_missing.simps) simp
    then show ?thesis using 1 True missing_shift [OF 1(2) True] by simp
  next
    case False
    then have "unat m div unat expected = 0" by (simp add: word_le_nat_alt)
    moreover have "record_missing h m expected = h" using False by (subst record_missing.simps) simp
    ultimately show ?thesis by simp
  qed
qed

text \<open>C33: the correction for coordinated omission records the value and every sample a load generator on
  schedule would have sent while it waited: \<open>value - k * expected\<close> for all \<open>k < value div expected\<close>, and
  nothing but the value when the interval is 0 or not exceeded.\<close>

theorem coordinated_omission_corrected:
  "record_with_expected_interval h value expected
    = foldl hist_record h (map (\<lambda>k. value - of_nat k * expected) [0..<max 1 (unat value div unat expected)])"
proof -
  consider "expected = 0 \<or> value < expected" | "expected = value" "value \<noteq> 0" | "0 < expected" "expected < value"
    using word_neq_0_conv [of expected] by force
  then show ?thesis
  proof cases
    case 1
    then have "max 1 (unat value div unat expected) = 1" by (auto simp: word_less_nat_alt)
    then show ?thesis using 1 by (auto simp: record_with_expected_interval_def Let_def)
  next
    case 2
    then show ?thesis by (simp add: record_with_expected_interval_def unat_eq_zero)
  next
    case 3
    have "0 < unat expected" "unat expected \<le> unat value" using 3 by (simp_all add: word_less_nat_alt)
    then have "max 1 (unat value div unat expected) = unat value div unat expected"
      using div_greater_zero_iff [of "unat value" "unat expected"] by simp
    then show ?thesis
      using 3 record_missing_steps [OF 3(1), of "hist_record h value" "value - expected"] missing_shift [OF 3(1), of "value" h]
      by (simp add: record_with_expected_interval_def Let_def)
  qed
qed

text \<open>The slot of a value round-trips: the value recovered from the index is the smallest of the slot,
  has the same index, and the value lies between it and the largest equivalent one.\<close>

theorem slot_roundtrip:
  assumes "hist_default highest = Some h0" "v \<le> highest"
  shows "counts_index h0 (value_from_index h0 (counts_index h0 v)) = counts_index h0 v
    \<and> value_from_index h0 (counts_index h0 v) \<le> v
    \<and> v \<le> highest_equivalent h0 (value_from_index h0 (counts_index h0 v))
    \<and> 1024 * (unat v - unat (value_from_index h0 (counts_index h0 v))) \<le> unat v"
proof -
  note d = hist_default_rep [OF assms(1)]
  note t = d(5) [OF assms(2)]
  have s1: "1 \<le> h_sub_mag h0" by (simp add: d(4))
  define k where "k = hbkt h0 v"
  have ix: "counts_index h0 w = slot 0 11 (unat w)" for w using counts_index_eq [OF d(2)] by (simp add: d(3,4))
  define low where "low = value_from_index h0 (counts_index h0 v)"
  have ul: "unat low = slot_low 0 11 (slot 0 11 (unat v))"
    using value_from_index_eq [OF d(2), of "counts_index h0 v"] t
    unfolding low_def by (simp add: ix tracked_def d(3,4))
  also have "\<dots> = unat v - unat v mod 2 ^ k"
    using slot_low_slot [of 11 0 "unat v"] by (simp add: k_def d(3,4))
  also have "\<dots> = unat v div 2 ^ k * 2 ^ k" by (rule minus_mod_eq_div_mult)
  finally have l: "unat low = unat v div 2 ^ k * 2 ^ k" .
  have b: "bkt 0 11 (unat low) = k" unfolding ul using bkt_slot_low [of 11 0 "unat v"] by (simp add: k_def d(3,4))
  have kv: "bkt 0 11 (unat v) = k" by (simp add: k_def d(3,4))
  have "unat low div 2 ^ k = unat v div 2 ^ k" unfolding l by simp
  then have i: "counts_index h0 low = counts_index h0 v" unfolding ix slot_def b kv by simp
  have le: "low \<le> v" unfolding word_le_nat_alt l by (rule div_times_less_eq_dividend)
  have up: "v \<le> highest_equivalent h0 low"
    using highest_equivalent_close(1) [OF d(2) t d(3)] by (simp add: low_def counts_index_eq [OF d(2)])
  have "1024 * (unat v - unat low) \<le> unat v"
  proof (cases "k = 0")
    case True
    then show ?thesis using l by simp
  next
    case False
    then have q: "1024 \<le> unat v div 2 ^ k" using sub_bucket_bounds(2) [of 11 0 "unat v"] by (simp add: kv)
    have "unat v - unat low \<le> 2 ^ k"
    proof -
      have "unat v - unat low = unat v mod 2 ^ k" unfolding l by (simp add: minus_div_mult_eq_mod)
      then show ?thesis by (simp add: less_imp_le)
    qed
    with q have "1024 * (unat v - unat low) \<le> unat v div 2 ^ k * 2 ^ k" by (rule mult_mono) simp_all
    also have "\<dots> \<le> unat v" by (rule div_times_less_eq_dividend)
    finally show ?thesis .
  qed
  then show ?thesis using i le up unfolding low_def by blast
qed

theorem slot_roundtrip_witness:
  "\<exists>h0. hist_default 100000 = Some h0 \<and> value_from_index h0 (counts_index h0 4097) \<le> 4097"
proof -
  obtain h0 where h: "hist_default 100000 = Some h0" using hist_default_ok by blast
  have "(4097 :: u64) \<le> 100000" by simp
  from slot_roundtrip [OF h this] h show ?thesis by blast
qed

text \<open>Merging two histograms of the same layout adds the multisets they stand for.\<close>

lemma merge_fields:
  assumes "length (h_counts b) = length (h_counts a)"
  shows "h_counts (hist_merge a b) = map2 (+) (h_counts a) (h_counts b)"
    "h_total (hist_merge a b) = h_total a + h_total b" "h_overflow (hist_merge a b) = h_overflow a + h_overflow b"
    "h_max (hist_merge a b) = (if h_total b \<noteq> 0 then max (h_max a) (h_max b) else h_max a)"
    "h_min (hist_merge a b) = (if h_total b \<noteq> 0
      then if h_total a + h_total b = h_total b then h_min b else min (h_min a) (h_min b) else h_min a)"
    "same_layout a (hist_merge a b)"
  using assms by (simp_all add: hist_merge_def same_layout_def Let_def)

lemma merge_counts:
  assumes "hist_rep a M" "hist_rep b N" "same_layout a b" "size M + size N < 2 ^ 64" "i < length (h_counts a)"
  shows "unat (h_counts (hist_merge a b) ! i) = size (filter_mset (\<lambda>v. hslot a v = i) (M + N))"
proof -
  have ln: "length (h_counts b) = length (h_counts a)" using assms(3) by (simp add: same_layout_def)
  have c: "unat (h_counts a ! i) = size (filter_mset (\<lambda>v. hslot a v = i) M)"
    "unat (h_counts b ! i) = size (filter_mset (\<lambda>v. hslot a v = i) N)"
    using assms ln same_layout_facts(2) [OF assms(3)] by (simp_all add: hist_rep_def)
  have "size (filter_mset (\<lambda>v. hslot a v = i) M) + size (filter_mset (\<lambda>v. hslot a v = i) N) \<le> size M + size N"
    by (intro add_mono size_filter_mset_lesseq)
  then have "unat (h_counts a ! i) + unat (h_counts b ! i) < 2 ^ LENGTH(64)" unfolding c using assms(4) by simp
  then have "unat (h_counts a ! i + h_counts b ! i) = unat (h_counts a ! i) + unat (h_counts b ! i)"
    by (rule unat_add_lem [THEN iffD1])
  then show ?thesis using assms(5) ln by (simp add: merge_fields(1) [OF ln] c)
qed

lemma merge_extremes:
  assumes "hist_rep a M" "hist_rep b N" "length (h_counts b) = length (h_counts a)" "size M + size N < 2 ^ 64"
  shows "if M + N = {#} then h_max (hist_merge a b) = 0 \<and> h_min (hist_merge a b) = 0
    else h_max (hist_merge a b) = Max (set_mset (M + N)) \<and> h_min (hist_merge a b) = Min (set_mset (M + N))"
proof -
  have t: "unat (h_total a) = size M" "unat (h_total b) = size N" using assms(1,2) by (simp_all add: hist_rep_def)
  have z: "h_total a + h_total b = h_total b \<longleftrightarrow> M = {#}" "h_total b = 0 \<longleftrightarrow> N = {#}"
    using t by (auto simp: unat_eq_zero simp flip: unat_eq_zero [of "h_total b"])
  consider "N = {#}" | "N \<noteq> {#}" "M = {#}" | "N \<noteq> {#}" "M \<noteq> {#}" by blast
  then show ?thesis
  proof cases
    case 3
    then have "h_max a = Max (set_mset M)" "h_min a = Min (set_mset M)" "h_max b = Max (set_mset N)" "h_min b = Min (set_mset N)"
      using assms(1,2) by (simp_all add: hist_rep_def)
    then show ?thesis using 3 z by (simp add: merge_fields [OF assms(3)] Max_Un Min_Un)
  qed (use assms(1,2) z in \<open>simp_all add: merge_fields [OF assms(3)] hist_rep_def\<close>)
qed

lemma merge_rep:
  assumes "hist_rep a M" "hist_rep b N" "same_layout a b" "size M + size N < 2 ^ 64"
  shows "hist_rep (hist_merge a b) (M + N)"
proof -
  have ln: "length (h_counts b) = length (h_counts a)" using assms(3) by (simp add: same_layout_def)
  note sl = merge_fields(6) [OF ln]
  have "unat (h_total a) + unat (h_total b) = size M + size N" using assms(1,2) by (simp add: hist_rep_def)
  then have "unat (h_total a + h_total b) = size M + size N"
    using unat_add_lem [of "h_total a" "h_total b"] assms(4) by simp
  then show ?thesis
    using assms(1,2,4) merge_counts [OF assms] merge_extremes [OF assms(1,2) ln assms(4)] same_layout_facts [OF sl]
      same_layout_facts(3) [OF assms(3)] sl
    unfolding hist_rep_def by (auto simp: merge_fields(2) [OF ln] same_layout_def)
qed

text \<open>Merging two histograms of the same layout is recording both streams, one after the other.\<close>

theorem merge_is_concatenation:
  assumes "hist_default highest = Some h0" "length vs + length ws < 2 ^ 64"
  shows "hist_merge (foldl hist_record h0 vs) (foldl hist_record h0 ws) = foldl hist_record h0 (vs @ ws)"
proof -
  define a b where "a = foldl hist_record h0 vs" and "b = foldl hist_record h0 ws"
  have lens: "length vs < 2 ^ 64" "length ws < 2 ^ 64" "length (vs @ ws) < 2 ^ 64" using assms(2) by simp_all
  note ra = records_default [OF assms(1) lens(1), folded a_def]
  note rb = records_default [OF assms(1) lens(2), folded b_def]
  note rc = records_default [OF assms(1) lens(3)]
  have ab: "same_layout a b" "length (h_counts b) = length (h_counts a)" using ra(2) rb(2) by (simp_all add: same_layout_def)
  have "size (filter_mset (tracked h0) (mset vs)) + size (filter_mset (tracked h0) (mset ws)) \<le> length vs + length ws"
    using size_filter_mset_lesseq [of "tracked h0" "mset vs"] size_filter_mset_lesseq [of "tracked h0" "mset ws"] by simp
  then have "size (filter_mset (tracked h0) (mset vs)) + size (filter_mset (tracked h0) (mset ws)) < 2 ^ 64"
    using assms(2) by (rule le_less_trans)
  note m = merge_rep [OF ra(1) rb(1) ab(1) this]
  have "same_layout (hist_merge a b) (foldl hist_record h0 (vs @ ws))"
    using merge_fields(6) [OF ab(2)] ra(2) rc(2) by (simp add: same_layout_def)
  moreover have "h_overflow (foldl hist_record h0 (vs @ ws)) = h_overflow (hist_merge a b)"
    unfolding merge_fields(3) [OF ab(2)] ra(3) rb(3) rc(3) by simp
  ultimately have "foldl hist_record h0 (vs @ ws) = hist_merge a b"
    using rep_unique [OF m, of "foldl hist_record h0 (vs @ ws)"] rc(1) by simp
  then show ?thesis unfolding a_def b_def ..
qed

theorem merge_is_concatenation_witness:
  "\<exists>h0. hist_default 1000 = Some h0
    \<and> hist_merge (foldl hist_record h0 [5, 900]) (foldl hist_record h0 [7]) = foldl hist_record h0 ([5, 900] @ [7])"
proof -
  obtain h0 where h: "hist_default 1000 = Some h0" using hist_default_ok by blast
  have "length [5, 900 :: u64] + length [7 :: u64] < 2 ^ 64" by simp
  from merge_is_concatenation [OF h this] h show ?thesis by blast
qed

text \<open>The sizing loop of the constructor ends, and the layout it chooses has a slot for every value up
  to the one asked for.\<close>

theorem constructor_covers_range:
  "\<exists>h0. hist_default highest = Some h0 \<and> (\<forall>v \<le> highest. counts_index h0 v < length (h_counts h0))
    \<and> hist_count h0 = 0 \<and> h_overflow h0 = 0"
proof -
  obtain h0 where h: "hist_default highest = Some h0" "layout_ok h0" "\<forall>v \<le> highest. tracked h0 v" "h_total h0 = 0" "h_overflow h0 = 0"
    using hist_default_ok by blast
  then show ?thesis using counts_index_eq [OF h(2)] by (auto simp: tracked_def hist_count_def)
qed

theorem constructor_covers_range_witness:
  "\<exists>h0. hist_default 1000 = Some h0 \<and> counts_index h0 999 < length (h_counts h0)"
proof -
  have "(999 :: u64) \<le> 1000" by simp
  then show ?thesis using constructor_covers_range [of 1000] by blast
qed

text \<open>Resetting a histogram gives back the freshly constructed one, whatever was recorded.\<close>

theorem reset_restores_new:
  assumes "hist_default highest = Some h0"
  shows "hist_reset (foldl hist_record h0 vs) = h0"
proof -
  have zero: "(map (\<lambda>_. 0 :: u64) xs)[i := 0] = map (\<lambda>_. 0) xs" for i and xs :: "u64 list"
    by (intro nth_equalityI) (simp, metis length_list_update length_map nth_list_update_eq nth_list_update_neq nth_map)
  have "hist_reset (hist_record h v) = hist_reset h" for h v
    by (simp add: hist_record_def hist_reset_def Let_def map_update zero)
  then have "hist_reset (foldl hist_record h vs) = hist_reset h" for h
    by (induction vs arbitrary: h) simp_all
  then show ?thesis using hist_default_rep(7) [OF assms] by simp
qed

theorem reset_restores_new_witness:
  "\<exists>h0. hist_default 1000 = Some h0 \<and> hist_reset (foldl hist_record h0 [3, 5000000]) = h0"
proof -
  obtain h0 where h: "hist_default 1000 = Some h0" using hist_default_ok by blast
  from reset_restores_new [OF h] h show ?thesis by blast
qed

end
