(* ===== verification/Report.thy ===== *)
theory Report
  imports Text_Format Metrics Options Histogram_Theorems
begin

text \<open>
  The texts of a run: the summary of a histogram (\<open>Histogram::summary\<close>), the report of the hot path
  (\<open>HotPathMetrics::report\<close>), the CSV files (\<open>dump_csv\<close> of \<open>src/vhp_consumer.cpp\<close>) and the producer's
  closing lines. A CSV file read back gives the counts of the histogram.
\<close>

section \<open>Summaries\<close>

definition summary :: "histogram \<Rightarrow> string \<Rightarrow> double \<Rightarrow> string \<Rightarrow> string" where
  "summary h label scale u =
    (let ms = (\<lambda>x. pad_left 8 (fixed 3 (fdiv x scale)));
         pct = (\<lambda>p. ms (f_of_u64 (value_at_percentile h p)));
         blank = pad_right 26 []
     in snprintf 512 (pad_right 26 label @ '' n='' @ pad_right 8 (dec_u (hist_count h)) @ ''  min='' @ ms (f_of_u64 (hist_min h))
          @ ''  p50='' @ pct 50 @ ''  p90='' @ pct 90 @ newline)
        @ snprintf 512 (blank @ '' p99='' @ pct 99 @ ''  p99.9='' @ pct (rnd (999 / 10)) @ ''  max='' @ ms (f_of_u64 (h_max h))
          @ ''  mean='' @ ms (mean h) @ ''  sd='' @ pad_left 7 (fixed 3 (fdiv (stddev h) scale)) @ '' '' @ u @ newline)
        @ (if h_total h > 0 \<and> h_total h < 1000
           then snprintf 512 (blank @ '' note: n='' @ dec_u (h_total h) @ '' -- p99.9 is ~''
             @ fixed 1 (fmul (f_of_u64 (h_total h)) (rnd (1 / 1000))) @ '' samples deep, treat as indicative'' @ newline)
           else [])
        @ (if h_overflow h \<noteq> 0
           then snprintf 512 (blank @ '' WARNING: '' @ dec_u (h_overflow h) @ '' samples exceeded the tracked range'' @ newline)
           else []))"

text \<open>The defaults of the two last parameters.\<close>

abbreviation summary_ms :: "histogram \<Rightarrow> string \<Rightarrow> string" where
  "summary_ms h label \<equiv> summary h label 1000000 ''ms''"

section \<open>The report of the hot path\<close>

text \<open>\<open>static_cast<int>(nominal_frame_ms)\<close> is undefined outside the range of \<open>int\<close>; the cadence is a few
  milliseconds.\<close>

definition report :: "hot_metrics \<Rightarrow> double \<Rightarrow> string \<Rightarrow> string" where
  "report m nominal_frame_ms transport_label =
    (let li = little_line m
     in newline @ ''--- vhp hot path ---------------------------------------------------'' @ newline
        @ summary_ms (m_transport m) (transport_label @ '' transport+queue'')
        @ summary (m_service m) ''vad service time'' 1000 ''us''
        @ summary_ms (m_jitter m) (''interarrival |dev| @'' @ dec_i (f_trunc nominal_frame_ms) @ ''ms'')
        @ summary (m_depth m) ''ring depth (at pop)'' 1 ''frames''
        @ snprintf 256 (pad_right 26 [] @ '' Little's Law: L='' @ fixed 3 (li_L li) @ ''  vs  lambda*W='' @ fixed 3 (li_lambda_W li)
          @ ''  (lambda='' @ fixed 0 (li_lambda li) @ ''/s, W='' @ fixed 3 (li_W_ms li) @ '' ms, window='' @ fixed 1 (li_window_s li)
          @ '' s)'' @ newline)
        @ summary_ms (m_endpoint_lag m) ''endpoint decision lag''
        @ snprintf 256 (''frames='' @ dec_u (m_frames m) @ '' chunks='' @ dec_u (m_chunks m) @ '' upstream_gaps='' @ dec_u (m_seq_gaps m)
          @ '' backpressure_drops='' @ dec_u (m_ring_full_drops m) @ '' event_drops='' @ dec_u (m_event_drops m) @ newline)
        @ snprintf 256 (''sessions: peak='' @ dec_u (m_sessions_peak m) @ ''/'' @ dec_u (m_sessions_capacity m) @ '' opened=''
          @ dec_u (m_sessions_opened m) @ '' rejected='' @ dec_u (m_sessions_rejected m) @ '' refused_frames='' @ dec_u (m_frames_refused m)
          @ newline)
        @ ''caveat: thread pinned but core not isolated (no isolcpus/nohz_full);'' @ newline
        @ ''        p99.9 still includes timer ticks and other tenants.'' @ newline
        @ ''--------------------------------------------------------------------'' @ newline)"

section \<open>The closing lines of the producer\<close>

definition producer_closing :: "producer_options \<Rightarrow> u64 \<Rightarrow> histogram \<Rightarrow> u64 \<Rightarrow> string" where
  "producer_closing opt total_frames pacing dropped =
    newline @ ''--- vhp producer ---------------------------------------------------'' @ newline
    @ summary_ms pacing ''send lateness vs grid''
    @ ''sessions='' @ dec_u (po_sessions opt) @ '' frames='' @ dec_u (total_frames * ucast (po_sessions opt))
    @ '' ('' @ dec_u total_frames @ '' per session) dropped_by_backpressure='' @ dec_u dropped
    @ '' seed=0x'' @ hex_u (po_seed opt) @ newline
    @ ''--------------------------------------------------------------------'' @ newline"

section \<open>CSV files\<close>

text \<open>The files written, with their contents; a file that cannot be opened is skipped.\<close>

definition dump_csv :: "(string \<Rightarrow> bool) \<Rightarrow> consumer_options \<Rightarrow> hot_metrics \<Rightarrow> (string \<times> string) list" where
  "dump_csv can_open opt m =
    (if co_csv_prefix opt = [] then []
     else
       (let series = [(''transport'', m_transport m), (''service'', m_service m), (''jitter'', m_jitter m),
              (''depth'', m_depth m), (''endpoint_lag'', m_endpoint_lag m)];
            path = (\<lambda>name. co_csv_prefix opt @ ''-'' @ name @ ''.csv'')
        in map (\<lambda>(name, h). (path name, to_csv h)) (filter (\<lambda>(name, h). can_open (path name)) series)))"

section \<open>Reading a CSV file back\<close>

text \<open>A reader for \<open>value,count\<close> lines, one row per unit of fuel.\<close>

fun read_rows :: "nat \<Rightarrow> string \<Rightarrow> (nat \<times> nat) list" where
  "read_rows 0 s = []"
| "read_rows (Suc n) s =
    (case take_digits 10 0 0 s of
       (_, v, []) \<Rightarrow> []
     | (_, v, _ # s) \<Rightarrow> (case take_digits 10 0 0 s of (_, c, s) \<Rightarrow> (v, c) # read_rows n (tl s)))"

definition read_csv :: "string \<Rightarrow> (nat \<times> nat) list" where
  "read_csv s = read_rows (length s) (tl (dropWhile (\<lambda>c. c \<noteq> char_of (10 :: nat)) s))"

lemma take_digits_before:
  "digit_of c = None \<Longrightarrow> \<exists>k. take_digits 10 j 0 (decimal n @ c # rest) = (k, n, c # rest)"
  using take_digits_decimal [of j n] by (auto simp: take_digits_append [OF decimal_digits])

lemma separators: "digit_of (CHR '','') = None" "digit_of (char_of (10 :: nat)) = None"
  by (simp_all add: digit_of_def)

lemma read_rows_row:
  "read_rows (Suc n) (decimal v @ '','' @ decimal c @ [char_of (10 :: nat)] @ rest) = (v, c) # read_rows n rest"
proof -
  obtain j k where "take_digits 10 0 0 (decimal v @ CHR '','' # (decimal c @ char_of (10 :: nat) # rest))
      = (j, v, CHR '','' # (decimal c @ char_of (10 :: nat) # rest))"
    "take_digits 10 0 0 (decimal c @ char_of (10 :: nat) # rest) = (k, c, char_of (10 :: nat) # rest)"
    using take_digits_before separators by blast
  then show ?thesis by simp
qed

lemma read_rows_concat:
  "length rows \<le> n \<Longrightarrow>
    read_rows n (concat (map (\<lambda>(v, c). decimal v @ '','' @ decimal c @ [char_of (10 :: nat)]) rows)) = rows"
proof (induction rows arbitrary: n)
  case Nil
  then show ?case by (cases n) simp_all
next
  case (Cons r rows)
  obtain v c m where "r = (v, c)" "n = Suc m" using Cons.prems by (cases r; cases n) auto
  then show ?case using Cons read_rows_row [of m v c] by simp
qed

lemma concat_map_guard: "concat (map (\<lambda>i. if P i then [] else g i) xs) = concat (map g (filter (\<lambda>i. \<not> P i) xs))"
  by (induction xs) simp_all

definition csv_rows :: "histogram \<Rightarrow> (nat \<times> nat) list" where
  "csv_rows h = map (\<lambda>i. (unat (value_from_index h i), unat (h_counts h ! i))) (filter (\<lambda>i. h_counts h ! i \<noteq> 0) [0..<length (h_counts h)])"

lemma read_csv_rows: "read_csv (to_csv h) = csv_rows h"
proof -
  define body where "body = concat (map (\<lambda>(v, c). decimal v @ '','' @ decimal c @ [char_of (10 :: nat)]) (csv_rows h))"
  have c: "to_csv h = ''value,count'' @ [char_of (10 :: nat)] @ body"
    by (simp add: to_csv_def body_def csv_rows_def concat_map_guard o_def)
  have d: "tl (dropWhile (\<lambda>c. c \<noteq> char_of (10 :: nat)) (to_csv h)) = body" unfolding c by (simp add: char_of_def)
  have "length rows \<le> length (concat (map (\<lambda>(v, c). decimal v @ '','' @ decimal c @ [char_of (10 :: nat)]) rows))" for rows
    by (induction rows) auto
  from this [of "csv_rows h"] have "length (csv_rows h) \<le> length (to_csv h)" unfolding c body_def by simp
  from read_rows_concat [OF this] show ?thesis unfolding read_csv_def d body_def .
qed

section \<open>Properties\<close>

text \<open>The index of the value a slot is printed as.\<close>

lemma index_of_printed:
  assumes "layout_ok h" "tracked h v"
  shows "counts_index h (value_from_index h (counts_index h v)) = counts_index h v"
proof -
  define u s k low where "u = h_unit h" and "s = h_sub_mag h" and "k = hbkt h v" and "low = value_from_index h (counts_index h v)"
  have s: "1 \<le> s" using assms(1) by (simp add: layout_ok_def s_def)
  have ix: "counts_index h w = slot u s (unat w)" for w using counts_index_eq [OF assms(1)] by (simp add: u_def s_def)
  have ul: "unat low = slot_low u s (slot u s (unat v))"
    using value_from_index_eq [OF assms(1), of "counts_index h v"] assms(2)
    unfolding low_def by (simp add: ix tracked_def u_def s_def)
  have b: "bkt u s (unat low) = k" "bkt u s (unat v) = k"
    unfolding ul using bkt_slot_low [OF s, of u "unat v"] by (simp_all add: k_def u_def s_def)
  have "unat low = unat v div 2 ^ (k + u) * 2 ^ (k + u)"
    using slot_low_slot [OF s, of u "unat v"] unfolding ul b(2) by (simp add: minus_mod_eq_div_mult)
  then have "unat low div 2 ^ (k + u) = unat v div 2 ^ (k + u)" by simp
  then have "counts_index h low = counts_index h v" unfolding ix slot_def b by simp
  then show ?thesis unfolding low_def .
qed

lemma foldl_put:
  fixes cs :: "'a list"
  assumes "distinct is" "\<forall>i \<in> set is. i < length cs"
  shows "foldl (\<lambda>cs i. cs[i := g i]) cs is = map (\<lambda>j. if j \<in> set is then g j else cs ! j) [0..<length cs]"
  using assms
proof (induction "is" arbitrary: cs)
  case Nil
  then show ?case by (simp add: map_nth)
next
  case (Cons i "is")
  then have "foldl (\<lambda>cs i. cs[i := g i]) (cs[i := g i]) is
      = map (\<lambda>j. if j \<in> set is then g j else cs[i := g i] ! j) [0..<length (cs[i := g i])]"
    by (intro Cons.IH) auto
  then show ?case using Cons.prems by (auto simp: nth_list_update intro!: nth_equalityI)
qed

text \<open>C37: CSV round trip: the file written for a histogram of any recorded values, read line by line, puts every
  non-zero count back into the slot it came from, and nothing else: the counts are recovered exactly.\<close>

theorem csv_roundtrip:
  assumes "hist_default highest = Some h0" "length vs < 2 ^ 64"
  shows "foldl (\<lambda>cs (v, c). cs[counts_index h0 (of_nat v) := of_nat c]) (h_counts h0) (read_csv (to_csv (foldl hist_record h0 vs)))
    = h_counts (foldl hist_record h0 vs)"
proof -
  define h where "h = foldl hist_record h0 vs"
  note d = hist_default_rep [OF assms(1)]
  note r = records_default [OF assms, folded h_def]
  define idx where "idx = filter (\<lambda>i. h_counts h ! i \<noteq> 0) [0..<length (h_counts h)]"
  have len: "length (h_counts h0) = length (h_counts h)" using r(2) by (simp add: same_layout_def)
  have index: "counts_index h0 (value_from_index h i) = i" if "i \<in> set idx" for i
  proof -
    define M where "M = filter_mset (\<lambda>v. hslot h v = i) (filter_mset (tracked h0) (mset vs))"
    have "unat (h_counts h ! i) = size M" "h_counts h ! i \<noteq> 0" using that r(1) by (simp_all add: idx_def hist_rep_def M_def)
    then have "M \<noteq> {#}" using unat_eq_zero [of "h_counts h ! i"] by auto
    then obtain v where "v \<in># M" by blast
    then have "hslot h v = i" "tracked h v" using same_layout_facts(3) [OF r(2)] by (auto simp: M_def)
    moreover have "layout_ok h" using d(2) same_layout_facts(1) [OF r(2)] by simp
    ultimately show ?thesis
      using index_of_printed [of h v] counts_index_eq [of h v] same_layout_facts(4) [OF r(2)] by simp
  qed
  have "foldl (\<lambda>cs (v, c). cs[counts_index h0 (of_nat v) := of_nat c]) (h_counts h0) (csv_rows h)
      = foldl (\<lambda>cs i. cs[i := h_counts h ! i]) (h_counts h0) idx"
    unfolding csv_rows_def idx_def [symmetric] foldl_map
    by (rule foldl_cong) (simp_all add: index)
  also have "\<dots> = map (\<lambda>j. if j \<in> set idx then h_counts h ! j else h_counts h0 ! j) [0..<length (h_counts h0)]"
    by (rule foldl_put) (auto simp: idx_def len)
  also have "\<dots> = h_counts h"
  proof (rule nth_equalityI)
    fix j assume "j < length (map (\<lambda>j. if j \<in> set idx then h_counts h ! j else h_counts h0 ! j) [0..<length (h_counts h0)])"
    then have j: "j < length (h_counts h0)" by simp
    then have "h_counts h0 ! j = 0" using d(1) by (simp add: hist_rep_def unat_eq_zero)
    then show "map (\<lambda>j. if j \<in> set idx then h_counts h ! j else h_counts h0 ! j) [0..<length (h_counts h0)] ! j = h_counts h ! j"
      using j len by (simp add: idx_def)
  qed (simp add: len)
  finally show ?thesis unfolding h_def [symmetric] read_csv_rows .
qed

theorem csv_roundtrip_witness:
  "\<exists>h0. hist_default 100000 = Some h0
    \<and> foldl (\<lambda>cs (v, c). cs[counts_index h0 (of_nat v) := of_nat c]) (h_counts h0) (read_csv (to_csv (foldl hist_record h0 [5, 4097, 5])))
      = h_counts (foldl hist_record h0 [5, 4097, 5])"
proof -
  obtain h0 where h: "hist_default 100000 = Some h0" using hist_default_ok by blast
  have "length [5, 4097, 5 :: u64] < 2 ^ 64" by simp
  from csv_roundtrip [OF h this] h show ?thesis by blast
qed

end
