(* ===== verification/Shm_Segment.thy ===== *)
theory Shm_Segment
  imports Spsc_Ring Audio_Frame
begin

text \<open>
  Named shared-memory segments (\<open>include/vhp/shm_ring.hpp\<close>): the layout header in front of the ring,
  creation, attachment with its validation, and destruction.

  The name space of POSIX shared memory is a map from names to objects. Which system calls succeed is
  decided outside: \<open>sys_answers\<close> says so. A successful call does what POSIX documents: \<open>shm_open\<close> with
  \<open>O_CREAT | O_EXCL\<close> makes an empty object under a free name, \<open>ftruncate\<close> sizes it, \<open>shm_unlink\<close> removes
  a name. The errors are the exceptions thrown; the description of \<open>errno\<close> is left out.
\<close>

section \<open>Segments\<close>

definition kShmMagic :: u64 where
  "kShmMagic = 0x56485052494E4701"

definition kShmVersion :: u32 where
  "kShmVersion = 1"

record 'a shm_layout =
  sh_magic :: u64
  sh_version :: u32
  sh_slot_bytes :: u32
  sh_capacity :: u64
  sh_payload_bytes :: u64
  sh_ring :: "'a ring"

text \<open>An object: its size, and what is at its start when it is large enough to hold a layout.\<close>

record 'a shm_object =
  so_size :: nat
  so_layout :: "'a shm_layout"

type_synonym 'a shm_names = "string \<Rightarrow> 'a shm_object option"

text \<open>The template arguments, as far as the code depends on them: \<open>sizeof(T)\<close>, \<open>Capacity\<close>, \<open>sizeof(Layout)\<close>
  and the value of \<open>T{}\<close>.\<close>

record 'a shm_params =
  sp_slot_bytes :: nat
  sp_capacity :: nat
  sp_layout_bytes :: nat
  sp_zero :: 'a

record sys_answers =
  sa_open :: bool
  sa_truncate :: bool
  sa_stat :: bool
  sa_map :: bool

datatype shm_error =
    Sys_error string
  | Too_small
  | Bad_magic
  | Layout_mismatch

text \<open>What the object \<open>ShmRing\<close> holds; \<open>sr_mapped\<close> is false for a moved-from one (\<open>layout_ == nullptr\<close>).\<close>

record shm_handle =
  sr_name :: string
  sr_mapped :: bool
  sr_unlink :: bool

definition throw_errno :: "string \<Rightarrow> shm_error" where
  "throw_errno what = Sys_error what"

text \<open>\<open>e.what()\<close> for the segment \<open>name\<close>, without the system's words for \<open>errno\<close>.\<close>

fun what :: "string \<Rightarrow> shm_error \<Rightarrow> string" where
  "what name (Sys_error text) = text"
| "what name Too_small = ''shm segment '' @ name @ '' is smaller than the expected layout''"
| "what name Bad_magic = ''shm segment '' @ name @ '' has a bad magic -- not a vhp ring''"
| "what name Layout_mismatch = ''shm segment '' @ name @ '' layout mismatch: producer and consumer were built against different headers''"

section \<open>Creation\<close>

text \<open>The value of \<open>Layout{}\<close> in zeroed memory, and the header as it is filled in, store by store.\<close>

definition zero_layout :: "'a shm_params \<Rightarrow> 'a shm_layout" where
  "zero_layout p = \<lparr>sh_magic = 0, sh_version = 0, sh_slot_bytes = 0, sh_capacity = 0, sh_payload_bytes = 0,
     sh_ring = ring_new (sp_capacity p) (sp_zero p)\<rparr>"

definition header_stores :: "'a shm_params \<Rightarrow> ('a shm_layout \<Rightarrow> 'a shm_layout) list" where
  "header_stores p =
    [\<lambda>l. l\<lparr>sh_magic := kShmMagic\<rparr>,
     \<lambda>l. l\<lparr>sh_version := kShmVersion\<rparr>,
     \<lambda>l. l\<lparr>sh_slot_bytes := of_nat (sp_slot_bytes p)\<rparr>,
     \<lambda>l. l\<lparr>sh_capacity := of_nat (sp_capacity p)\<rparr>,
     \<lambda>l. l\<lparr>sh_payload_bytes := of_nat (sp_slot_bytes p)\<rparr>]"

definition new_layout :: "'a shm_params \<Rightarrow> 'a shm_layout" where
  "new_layout p = foldl (\<lambda>l store. store l) (zero_layout p) (header_stores p)"

text \<open>The function \<open>map\<close>: the memory of the object, unless \<open>mmap\<close> fails. That \<open>mlock\<close> may fail is
  of no consequence there.\<close>

definition shm_map :: "sys_answers \<Rightarrow> 'a shm_layout \<Rightarrow> shm_error + 'a shm_layout" where
  "shm_map sys memory = (if \<not> sa_map sys then Inl (throw_errno ''mmap'') else Inr memory)"

lemma case_shm_map [simp]:
  "(case shm_map sys l of Inl e \<Rightarrow> f e | Inr x \<Rightarrow> g x) = (if sa_map sys then g l else f (throw_errno ''mmap''))"
  by (simp add: shm_map_def)

text \<open>A failing \<open>mmap\<close> leaves the new object behind, zero-filled; a failing \<open>ftruncate\<close> removes it.\<close>

definition shm_create :: "'a shm_params \<Rightarrow> sys_answers \<Rightarrow> string \<Rightarrow> bool \<Rightarrow> 'a shm_names
    \<Rightarrow> 'a shm_names \<times> (shm_error + shm_handle)" where
  "shm_create p sys name unlink_on_close env =
    (let env = env(name := None)
     in if \<not> sa_open sys then (env, Inl (throw_errno (''shm_open(create) '' @ name)))
        else if \<not> sa_truncate sys then (env(name := None), Inl (throw_errno (''ftruncate '' @ name)))
        else
          (let env = env(name \<mapsto> \<lparr>so_size = sp_layout_bytes p, so_layout = zero_layout p\<rparr>)
           in case shm_map sys (zero_layout p) of
                Inl e \<Rightarrow> (env, Inl e)
              | Inr _ \<Rightarrow> (env(name \<mapsto> \<lparr>so_size = sp_layout_bytes p, so_layout = new_layout p\<rparr>),
                    Inr \<lparr>sr_name = name, sr_mapped = True, sr_unlink = unlink_on_close\<rparr>)))"

section \<open>Attachment\<close>

definition shm_attach :: "'a shm_params \<Rightarrow> sys_answers \<Rightarrow> string \<Rightarrow> 'a shm_names \<Rightarrow> shm_error + shm_handle" where
  "shm_attach p sys name env =
    (case (if sa_open sys then env name else None) of
       None \<Rightarrow> Inl (throw_errno (''shm_open(attach) '' @ name))
     | Some obj \<Rightarrow>
         if \<not> sa_stat sys then Inl (throw_errno (''fstat '' @ name))
         else if so_size obj < sp_layout_bytes p then Inl Too_small
         else
           (case shm_map sys (so_layout obj) of
              Inl e \<Rightarrow> Inl e
            | Inr layout \<Rightarrow>
               if sh_magic layout \<noteq> kShmMagic then Inl Bad_magic
               else if sh_version layout \<noteq> kShmVersion \<or> unat (sh_slot_bytes layout) \<noteq> sp_slot_bytes p
                 \<or> unat (sh_capacity layout) \<noteq> sp_capacity p then Inl Layout_mismatch
               else Inr \<lparr>sr_name = name, sr_mapped = True, sr_unlink = False\<rparr>))"

text \<open>The move constructor (the new object and the moved-from one) and the destructor.\<close>

definition shm_move :: "shm_handle \<Rightarrow> shm_handle \<times> shm_handle" where
  "shm_move other = (other, other\<lparr>sr_mapped := False\<rparr>)"

definition shm_destroy :: "shm_handle \<Rightarrow> 'a shm_names \<Rightarrow> 'a shm_names" where
  "shm_destroy h env = (if \<not> sr_mapped h then env else if sr_unlink h then env(sr_name h := None) else env)"

section \<open>Properties\<close>

definition all_succeed :: sys_answers where
  "all_succeed = \<lparr>sa_open = True, sa_truncate = True, sa_stat = True, sa_map = True\<rparr>"

text \<open>Parameters the program can be built with: a valid capacity, sizes that fit their header fields.\<close>

definition params_ok :: "'a shm_params \<Rightarrow> bool" where
  "params_ok p \<longleftrightarrow> valid_capacity (sp_capacity p) \<and> 0 < sp_slot_bytes p \<and> sp_slot_bytes p < 2 ^ 32"

lemma new_layout_fields:
  "sh_magic (new_layout p) = kShmMagic" "sh_version (new_layout p) = kShmVersion"
  "sh_slot_bytes (new_layout p) = of_nat (sp_slot_bytes p)" "sh_capacity (new_layout p) = of_nat (sp_capacity p)"
  "sh_ring (new_layout p) = ring_new (sp_capacity p) (sp_zero p)"
  by (simp_all add: new_layout_def header_stores_def zero_layout_def)

lemma params_fields:
  assumes "params_ok p"
  shows "unat (of_nat (sp_slot_bytes p) :: u32) = sp_slot_bytes p" "unat (of_nat (sp_capacity p) :: u64) = sp_capacity p"
    "0 < sp_capacity p"
  using assms by (auto simp: params_ok_def unat_of_nat_small valid_capacity_def)

text \<open>The header while it is being filled in: an attacher gets past the checks only once the capacity is there.\<close>

definition layout_after :: "nat \<Rightarrow> 'a shm_params \<Rightarrow> 'a shm_layout" where
  "layout_after k p = foldl (\<lambda>l store. store l) (zero_layout p) (take k (header_stores p))"

lemma layout_after_cases:
  "layout_after k p \<in> (\<lambda>k. layout_after k p) ` {0, 1, 2, 3, 4, 5}"
proof -
  have "layout_after k p = layout_after 5 p" if "5 \<le> k" using that by (simp add: layout_after_def header_stores_def)
  moreover have "k \<in> {0, 1, 2, 3, 4}" if "k < 5" using that by auto
  ultimately show ?thesis by (cases "5 \<le> k") auto
qed

lemma layout_after_fields:
  "sh_ring (layout_after k p) = ring_new (sp_capacity p) (sp_zero p)"
  "sh_capacity (layout_after k p) = (if 4 \<le> k then of_nat (sp_capacity p) else 0)"
  "4 \<le> k \<Longrightarrow> sh_magic (layout_after k p) = kShmMagic \<and> sh_version (layout_after k p) = kShmVersion
    \<and> sh_slot_bytes (layout_after k p) = of_nat (sp_slot_bytes p)"
  using layout_after_cases [of k p]
  by (auto simp: layout_after_def header_stores_def zero_layout_def take_Cons' split: if_splits)

text \<open>C16: Attaching during creation: whatever store of the header the creator has reached, a process built with
  any parameters is either refused or finds a constructed, empty ring of its own capacity and slot size; it is
  refused until the fourth store. (A layout mismatch cannot get through at any moment.)\<close>

theorem attach_races_creation:
  assumes "params_ok p" "params_ok p'" "env name = Some \<lparr>so_size = sp_layout_bytes p, so_layout = layout_after k p\<rparr>"
    "shm_attach p' sys name env = Inr h"
  shows "4 \<le> k \<and> sp_capacity p' = sp_capacity p \<and> sp_slot_bytes p' = sp_slot_bytes p \<and> sp_layout_bytes p' \<le> sp_layout_bytes p
    \<and> ring_wf (sh_ring (layout_after k p)) \<and> ring_items (sh_ring (layout_after k p)) = [] \<and> \<not> sr_unlink h"
proof -
  have c: "so_size (the (env name)) \<ge> sp_layout_bytes p'" "unat (sh_capacity (layout_after k p)) = sp_capacity p'"
      "unat (sh_slot_bytes (layout_after k p)) = sp_slot_bytes p'" "\<not> sr_unlink h"
    using assms(3,4) by (auto simp: shm_attach_def Let_def split: if_splits)
  have k: "4 \<le> k" using c(2) params_fields(3) [OF assms(2)] by (auto simp: layout_after_fields(2) split: if_splits)
  then show ?thesis
    using c assms(1,3) params_fields(1,2) [OF assms(1)] layout_after_fields [of k p]
    by (simp add: params_ok_def op_simps)
qed

theorem attach_races_creation_witness:
  "let p = \<lparr>sp_slot_bytes = 1064, sp_capacity = 4, sp_layout_bytes = 5000, sp_zero = zero_frame\<rparr>
   in \<exists>h. shm_attach p all_succeed ''f'' [''f'' \<mapsto> \<lparr>so_size = 5000, so_layout = layout_after 4 p\<rparr>] = Inr h
      \<and> ring_items (sh_ring (layout_after 4 p)) = []"
proof -
  define p where "p = \<lparr>sp_slot_bytes = 1064, sp_capacity = 4, sp_layout_bytes = 5000, sp_zero = zero_frame\<rparr>"
  have ok: "params_ok p" using valid_capacity_pow2_iff [of 2] by (simp add: params_ok_def p_def)
  define env where "env = [''f'' \<mapsto> \<lparr>so_size = 5000, so_layout = layout_after 4 p\<rparr>]"
  have env: "env ''f'' = Some \<lparr>so_size = sp_layout_bytes p, so_layout = layout_after 4 p\<rparr>" by (simp add: env_def p_def)
  obtain h where h: "shm_attach p all_succeed ''f'' env = Inr h"
    using env params_fields(1,2) [OF ok] by (simp add: shm_attach_def all_succeed_def layout_after_fields)
  show ?thesis using attach_races_creation [OF ok ok env h] h unfolding env_def p_def by auto
qed

text \<open>Life cycle of a segment: after a successful creation (over whatever was there) a process built the same way
  attaches and finds the creator's empty ring; the attacher's destructor and a moved-from object leave the segment
  alone, the creator's destructor removes it, and then attaching fails.\<close>

theorem segment_life_cycle:
  assumes "params_ok p"
  shows "\<exists>env1 own other. shm_create p all_succeed name True env = (env1, Inr own)
    \<and> shm_attach p all_succeed name env1 = Inr other
    \<and> map_option (\<lambda>obj. ring_items (sh_ring (so_layout obj))) (env1 name) = Some []
    \<and> shm_destroy other env1 = env1 \<and> shm_destroy (snd (shm_move own)) env1 = env1
    \<and> shm_destroy (fst (shm_move own)) env1 = env(name := None)
    \<and> shm_attach p all_succeed name (shm_destroy own env1) = Inl (throw_errno (''shm_open(attach) '' @ name))"
proof -
  define env1 where "env1 = env(name \<mapsto> \<lparr>so_size = sp_layout_bytes p, so_layout = new_layout p\<rparr>)"
  define own other where "own = \<lparr>sr_name = name, sr_mapped = True, sr_unlink = True\<rparr>"
    and "other = \<lparr>sr_name = name, sr_mapped = True, sr_unlink = False\<rparr>"
  have "shm_create p all_succeed name True env = (env1, Inr own)"
    by (simp add: shm_create_def all_succeed_def env1_def own_def Let_def)
  moreover have "shm_attach p all_succeed name env1 = Inr other"
    using params_fields(1,2) [OF assms] by (simp add: shm_attach_def all_succeed_def env1_def other_def new_layout_fields)
  moreover have "ring_items (sh_ring (so_layout (the (env1 name)))) = []"
    using assms by (simp add: env1_def new_layout_fields ring_items_new params_ok_def)
  ultimately show ?thesis
    by (intro exI [of _ env1] exI [of _ own] exI [of _ other])
      (simp add: env1_def own_def other_def shm_destroy_def shm_move_def shm_attach_def all_succeed_def)
qed

theorem segment_life_cycle_witness:
  "\<exists>env1 own other. shm_create \<lparr>sp_slot_bytes = 8, sp_capacity = 2, sp_layout_bytes = 500, sp_zero = 0 :: u64\<rparr> all_succeed ''r'' True (\<lambda>_. None)
      = (env1, Inr own)
    \<and> shm_attach \<lparr>sp_slot_bytes = 8, sp_capacity = 2, sp_layout_bytes = 500, sp_zero = 0 :: u64\<rparr> all_succeed ''r'' env1 = Inr other"
proof -
  have "params_ok \<lparr>sp_slot_bytes = 8, sp_capacity = 2, sp_layout_bytes = 500, sp_zero = 0 :: u64\<rparr>"
    using valid_capacity_pow2_iff [of 1] by (simp add: params_ok_def)
  from segment_life_cycle [OF this, of "''r''" "\<lambda>_. None"] show ?thesis by blast
qed

end
