(* ===== verification/Wire.thy ===== *)
theory Wire
  imports Audio_Frame
begin

text \<open>
  The byte formats of \<open>include/vhp/pipeline.hpp\<close>: machine words in little-endian order, the 40 bytes
  of a \<open>FrameHeader\<close> at the offsets its static assertions fix, and the length-prefixed record the
  producer writes to the unix socket. Every encoder has its decoder here, with both directions of
  the round trip.
\<close>

section \<open>Little-endian words\<close>

fun le_bytes :: "nat \<Rightarrow> nat \<Rightarrow> u8 list" where
  "le_bytes 0 x = []"
| "le_bytes (Suc k) x = of_nat x # le_bytes k (x div 256)"

fun le_value :: "u8 list \<Rightarrow> nat" where
  "le_value [] = 0"
| "le_value (b # bs) = unat b + 256 * le_value bs"

lemma length_le_bytes [simp]: "length (le_bytes k x) = k"
  by (induction k arbitrary: x) simp_all

lemma unat_u8_of_nat: "unat (of_nat x :: u8) = x mod 256"
  by (simp add: unat_of_nat take_bit_eq_mod)

lemma unat_u8_less: "unat (b :: u8) < 256"
  using unsigned_less [of b, where ?'a = nat] by simp

lemma le_value_le_bytes: "le_value (le_bytes k x) = x mod 256 ^ k"
proof (induction k arbitrary: x)
  case (Suc k)
  have "x mod 256 ^ Suc k = 256 * (x div 256 mod 256 ^ k) + x mod 256"
    using mod_mult2_eq [of x 256 "256 ^ k"] by simp
  then show ?case by (simp add: Suc.IH unat_u8_of_nat)
qed simp

lemma le_bytes_le_value: "le_bytes (length bs) (le_value bs) = bs"
proof (induction bs)
  case (Cons b bs)
  have "(unat b + 256 * le_value bs) div 256 = le_value bs" using unat_u8_less [of b] by simp
  moreover have "(of_nat (unat b + 256 * le_value bs) :: u8) = b"
  proof -
    have "unat (of_nat (unat b + 256 * le_value bs) :: u8) = unat b"
      unfolding unat_u8_of_nat using unat_u8_less [of b] by simp
    then show ?thesis by (simp only: word_unat_eq_iff)
  qed
  ultimately show ?case using Cons.IH by (simp del: of_nat_add)
qed simp

lemma le_value_less: "le_value bs < 256 ^ length bs"
  by (metis le_bytes_le_value le_value_le_bytes mod_less_divisor zero_less_numeral zero_less_power)

text \<open>\<open>std::memcpy\<close> of \<open>k\<close> bytes at an offset into a word.\<close>

definition load_le :: "nat \<Rightarrow> nat \<Rightarrow> u8 list \<Rightarrow> 'a::len word" where
  "load_le k offset bs = of_nat (le_value (take k (drop offset bs)))"

definition store_le :: "nat \<Rightarrow> 'a::len word \<Rightarrow> u8 list" where
  "store_le k w = le_bytes k (unat w)"

lemma length_store_le [simp]: "length (store_le k w) = k"
  by (simp add: store_le_def)

lemma load_store_le:
  fixes w :: "'a::len word"
  assumes "LENGTH('a) = 8 * k" "offset = length pre"
  shows "load_le k offset (pre @ store_le k w @ post) = w"
proof -
  have "(256 :: nat) ^ k = 2 ^ LENGTH('a)" by (simp add: assms(1) power_mult)
  then have "unat w mod 256 ^ k = unat w" using unsigned_less [of w, where ?'a = nat] by simp
  then show ?thesis by (simp add: load_le_def store_le_def assms(2) le_value_le_bytes)
qed

lemma store_load_le:
  fixes w :: "'a::len word"
  assumes "LENGTH('a) = 8 * k" "offset + k \<le> length bs" "w = load_le k offset bs"
  shows "store_le k w = take k (drop offset bs)"
proof -
  define xs where "xs = take k (drop offset bs)"
  have l: "length xs = k" using assms(2) by (simp add: xs_def)
  have "le_value xs < 2 ^ LENGTH('a)" using le_value_less [of xs] by (simp add: l assms(1) power_mult)
  then have "unat w = le_value xs" by (simp add: assms(3) load_le_def xs_def unat_of_nat_small)
  then show ?thesis using le_bytes_le_value [of xs] unfolding store_le_def l xs_def [symmetric] by simp
qed

section \<open>Headers\<close>

definition kHeaderBytes :: nat where
  "kHeaderBytes = 40"

definition header_bytes :: "frame_header \<Rightarrow> u8 list" where
  "header_bytes h = store_le 8 (fh_seq h) @ store_le 8 (fh_t_produce_ns h) @ store_le 8 (fh_t_capture_ns h)
    @ store_le 4 (fh_byte_len h) @ store_le 4 (fh_sample_rate h) @ store_le 2 (fh_format h)
    @ store_le 2 (fh_flags h) @ store_le 4 (fh_session_id h)"

definition load_header :: "u8 list \<Rightarrow> frame_header" where
  "load_header bs = \<lparr>fh_seq = load_le 8 0 bs, fh_t_produce_ns = load_le 8 8 bs, fh_t_capture_ns = load_le 8 16 bs,
    fh_byte_len = load_le 4 24 bs, fh_sample_rate = load_le 4 28 bs, fh_format = load_le 2 32 bs,
    fh_flags = load_le 2 34 bs, fh_session_id = load_le 4 36 bs\<rparr>"

lemma length_header_bytes [simp]: "length (header_bytes h) = kHeaderBytes"
  by (simp add: header_bytes_def kHeaderBytes_def)

lemma load_field:
  fixes w :: "'a::len word"
  assumes "bs = pre @ store_le k w @ post" "LENGTH('a) = 8 * k" "length pre = offset"
  shows "load_le k offset bs = w"
  unfolding assms(1) by (rule load_store_le) (simp_all add: assms(2,3))

text \<open>The fields one after the other: the bytes before, the field, the bytes after.\<close>

lemma header_bytes_fields:
  "header_bytes h = [] @ store_le 8 (fh_seq h) @ drop 8 (header_bytes h)"
  "header_bytes h = take 8 (header_bytes h) @ store_le 8 (fh_t_produce_ns h) @ drop 16 (header_bytes h)"
  "header_bytes h = take 16 (header_bytes h) @ store_le 8 (fh_t_capture_ns h) @ drop 24 (header_bytes h)"
  "header_bytes h = take 24 (header_bytes h) @ store_le 4 (fh_byte_len h) @ drop 28 (header_bytes h)"
  "header_bytes h = take 28 (header_bytes h) @ store_le 4 (fh_sample_rate h) @ drop 32 (header_bytes h)"
  "header_bytes h = take 32 (header_bytes h) @ store_le 2 (fh_format h) @ drop 34 (header_bytes h)"
  "header_bytes h = take 34 (header_bytes h) @ store_le 2 (fh_flags h) @ drop 36 (header_bytes h)"
  "header_bytes h = take 36 (header_bytes h) @ store_le 4 (fh_session_id h) @ drop 40 (header_bytes h)"
  by (simp_all add: header_bytes_def)

lemma load_header_bytes: "load_header (header_bytes h @ rest) = h"
proof -
  have a: "load_le 8 0 (header_bytes h @ rest) = fh_seq h"
    by (rule load_field [OF arg_cong [OF header_bytes_fields(1), of "\<lambda>xs. xs @ rest", unfolded append_assoc]]) (simp_all add: kHeaderBytes_def)
  have b: "load_le 8 8 (header_bytes h @ rest) = fh_t_produce_ns h"
    by (rule load_field [OF arg_cong [OF header_bytes_fields(2), of "\<lambda>xs. xs @ rest", unfolded append_assoc]]) (simp_all add: kHeaderBytes_def)
  have c: "load_le 8 16 (header_bytes h @ rest) = fh_t_capture_ns h"
    by (rule load_field [OF arg_cong [OF header_bytes_fields(3), of "\<lambda>xs. xs @ rest", unfolded append_assoc]]) (simp_all add: kHeaderBytes_def)
  have d: "load_le 4 24 (header_bytes h @ rest) = fh_byte_len h"
    by (rule load_field [OF arg_cong [OF header_bytes_fields(4), of "\<lambda>xs. xs @ rest", unfolded append_assoc]]) (simp_all add: kHeaderBytes_def)
  have e: "load_le 4 28 (header_bytes h @ rest) = fh_sample_rate h"
    by (rule load_field [OF arg_cong [OF header_bytes_fields(5), of "\<lambda>xs. xs @ rest", unfolded append_assoc]]) (simp_all add: kHeaderBytes_def)
  have f: "load_le 2 32 (header_bytes h @ rest) = fh_format h"
    by (rule load_field [OF arg_cong [OF header_bytes_fields(6), of "\<lambda>xs. xs @ rest", unfolded append_assoc]]) (simp_all add: kHeaderBytes_def)
  have g: "load_le 2 34 (header_bytes h @ rest) = fh_flags h"
    by (rule load_field [OF arg_cong [OF header_bytes_fields(7), of "\<lambda>xs. xs @ rest", unfolded append_assoc]]) (simp_all add: kHeaderBytes_def)
  have i: "load_le 4 36 (header_bytes h @ rest) = fh_session_id h"
    by (rule load_field [OF arg_cong [OF header_bytes_fields(8), of "\<lambda>xs. xs @ rest", unfolded append_assoc]]) (simp_all add: kHeaderBytes_def)
  show ?thesis unfolding load_header_def a b c d e f g i by simp
qed

section \<open>The socket record\<close>

text \<open>What the producer copies into its \<open>wire\<close> buffer and writes: the length, the header, the valid
  payload bytes.\<close>

definition wire_bytes :: "audio_frame \<Rightarrow> u8 list" where
  "wire_bytes f = store_le 4 (fh_byte_len (hdr f)) @ header_bytes (hdr f) @ take (f_len f) (payload f)"

lemma length_wire_bytes: "frame_ok f \<Longrightarrow> length (wire_bytes f) = 4 + kHeaderBytes + f_len f"
  by (simp add: wire_bytes_def frame_ok_def)

end
