(* ===== verification/Pipeline.thy ===== *)
theory Pipeline
  imports Shm_Segment Wire
begin

text \<open>
  What producer and consumer agree on (\<open>include/vhp/pipeline.hpp\<close>): the sizes of the two rings and the
  parameters of the frame segment. The size of its \<open>Layout\<close> is decided by the ABI and is a parameter.
\<close>

definition kFrameRingCapacity :: nat where
  "kFrameRingCapacity = 1024"

definition kEventRingCapacity :: nat where
  "kEventRingCapacity = 4096"

definition frame_params :: "nat \<Rightarrow> audio_frame shm_params" where
  "frame_params layout_bytes =
    \<lparr>sp_slot_bytes = kHeaderBytes + kFramePayloadBytes, sp_capacity = kFrameRingCapacity, sp_layout_bytes = layout_bytes,
     sp_zero = zero_frame\<rparr>"

lemma valid_capacities [op_simps]: "valid_capacity kFrameRingCapacity" "valid_capacity kEventRingCapacity"
  using valid_capacity_pow2_iff [of 10] valid_capacity_pow2_iff [of 12] by (simp_all add: kFrameRingCapacity_def kEventRingCapacity_def)

lemma frame_params_ring: "sh_ring (new_layout (frame_params layout_bytes)) = ring_new kFrameRingCapacity zero_frame"
  by (simp add: new_layout_def header_stores_def zero_layout_def frame_params_def)

end
