(* ===== verification/Uds_Ingest.thy ===== *)
theory Uds_Ingest
  imports Wire Spsc_Ring
begin

text \<open>
  The unix-socket reader \<open>UdsIngest::pump\<close> of \<open>src/vhp_consumer.cpp\<close>: bytes arrive in whatever pieces
  the kernel hands out, the buffer carries the remainder of a record across \<open>read\<close> calls, complete
  records become frames and are pushed into the frame queue.

  The queue is a parameter \<open>push\<close> over a shared state (the consumer pops from it meanwhile), the
  clock a function from the number of readings taken so far. The kernel decides how many bytes each
  \<open>read\<close> returns: the list \<open>avails\<close> says, call by call, how many are there; its end is \<open>g_running\<close>
  turning false.
\<close>

section \<open>The model\<close>

definition kMaxWirePayload :: u32 where
  "kMaxWirePayload = of_nat kFramePayloadBytes"

definition kBufBytes :: nat where
  "kBufBytes = push_bit 16 1"

text \<open>What the reader shares with the rest: the queue, the drop counter of the metrics, the clock.\<close>

record 'q ingest =
  in_queue :: 'q
  in_full_drops :: u64
  in_clock :: nat

text \<open>The frame of a complete record at the start of \<open>bs\<close>; \<open>frame.hdr.byte_len\<close> is overwritten with the
  validated length, a missing production time is the time of arrival.\<close>

definition record_frame :: "u32 \<Rightarrow> u8 list \<Rightarrow> audio_frame" where
  "record_frame payload_len bs =
    \<lparr>hdr = (load_header (take kHeaderBytes (drop 4 bs)))\<lparr>fh_byte_len := payload_len\<rparr>,
     payload = take (unat payload_len) (drop (4 + kHeaderBytes) bs)
       @ drop (unat payload_len) (payload zero_frame)\<rparr>"

definition stamp_frame :: "(nat \<Rightarrow> u64) \<Rightarrow> 'q ingest \<Rightarrow> audio_frame \<Rightarrow> 'q ingest \<times> audio_frame" where
  "stamp_frame now st f =
    (if fh_t_produce_ns (hdr f) = 0
     then (st\<lparr>in_clock := in_clock st + 1\<rparr>, f\<lparr>hdr := (hdr f)\<lparr>fh_t_produce_ns := now (in_clock st)\<rparr>\<rparr>)
     else (st, f))"

definition offer_frame :: "('q \<Rightarrow> audio_frame \<Rightarrow> 'q \<times> push_result) \<Rightarrow> 'q ingest \<Rightarrow> audio_frame \<Rightarrow> 'q ingest" where
  "offer_frame push st f =
    (let (q, r) = push (in_queue st) f;
         st = st\<lparr>in_queue := q\<rparr>
     in if r = KFull then st\<lparr>in_full_drops := in_full_drops st + 1\<rparr> else st)"

definition take_frame :: "('q \<Rightarrow> audio_frame \<Rightarrow> 'q \<times> push_result) \<Rightarrow> (nat \<Rightarrow> u64) \<Rightarrow> 'q ingest \<Rightarrow> audio_frame \<Rightarrow> 'q ingest" where
  "take_frame push now st f = (let (st, f) = stamp_frame now st f in offer_frame push st f)"

text \<open>The inner loop over \<open>buf[offset .. filled)\<close>. The boolean is false when the connection is dropped.\<close>

function parse_loop :: "('q \<Rightarrow> audio_frame \<Rightarrow> 'q \<times> push_result) \<Rightarrow> (nat \<Rightarrow> u64) \<Rightarrow> 'q ingest \<Rightarrow> u8 list
    \<Rightarrow> 'q ingest \<times> u8 list \<times> bool" where
  "parse_loop push now st bs =
    (if length bs < 4 then (st, bs, True)
     else
       (let payload_len = load_le 4 0 bs
        in if payload_len > kMaxWirePayload then (st, bs, False)
           else
             (let need = 4 + kHeaderBytes + unat payload_len
              in if length bs < need then (st, bs, True)
                 else parse_loop push now (take_frame push now st (record_frame payload_len bs)) (drop need bs))))"
  by pat_completeness auto
termination
  by (relation "measure (\<lambda>(push, now, st, bs). length bs)") auto

declare parse_loop.simps [simp del]

text \<open>\<open>read(fd, buf + filled, room)\<close>: at most \<open>room\<close> bytes, and no more than are available; nothing at
  the end of the stream.\<close>

definition read_some :: "nat \<Rightarrow> nat \<Rightarrow> u8 list \<Rightarrow> u8 list \<times> u8 list" where
  "read_some avail room stream = (take (min avail room) stream, drop (min avail room) stream)"

text \<open>The outer loop; the result is the state, the bytes left in the buffer and the bytes never read.\<close>

fun pump :: "('q \<Rightarrow> audio_frame \<Rightarrow> 'q \<times> push_result) \<Rightarrow> (nat \<Rightarrow> u64) \<Rightarrow> 'q ingest \<Rightarrow> u8 list \<Rightarrow> nat list \<Rightarrow> u8 list
    \<Rightarrow> 'q ingest \<times> u8 list \<times> u8 list" where
  "pump push now st buf [] stream = (st, buf, stream)"
| "pump push now st buf (avail # avails) stream =
    (let (got, stream) = read_some avail (kBufBytes - length buf) stream
     in if got = [] then (st, buf, stream)
        else
          (let (st, buf, ok) = parse_loop push now st (buf @ got)
           in if \<not> ok then (st, buf, stream)
              else
                (let buf = (if length buf = kBufBytes then [] else buf)
                 in pump push now st buf avails stream)))"

text \<open>\<open>run\<close>: one connection after the other, each with a fresh buffer; a connection is the bytes its peer sent
  and the sizes in which they arrive. The end of the list is \<open>accept\<close> failing.\<close>

fun ingest_run :: "('q \<Rightarrow> audio_frame \<Rightarrow> 'q \<times> push_result) \<Rightarrow> (nat \<Rightarrow> u64) \<Rightarrow> 'q ingest \<Rightarrow> (nat list \<times> u8 list) list
    \<Rightarrow> 'q ingest" where
  "ingest_run push now st [] = st"
| "ingest_run push now st ((avails, stream) # conns) =
    (case pump push now st [] avails stream of (st, _) \<Rightarrow> ingest_run push now st conns)"

section \<open>The inner loop\<close>

lemma kMaxWirePayload_le: "n \<le> kMaxWirePayload \<longleftrightarrow> unat n \<le> kFramePayloadBytes"
  by (simp add: kMaxWirePayload_def kFramePayloadBytes_def word_le_nat_alt)

lemma load_le_append: "offset + k \<le> length bs \<Longrightarrow> load_le k offset (bs @ cs) = load_le k offset bs"
  by (simp add: load_le_def)

lemma record_frame_append:
  "length bs \<ge> 4 + kHeaderBytes + unat n \<Longrightarrow> record_frame n (bs @ cs) = record_frame n bs"
  by (simp add: record_frame_def)

lemma record_frame_ok:
  assumes "unat n \<le> kFramePayloadBytes" "4 + kHeaderBytes + unat n \<le> length bs"
  shows "frame_ok (record_frame n bs)"
  using assms by (simp add: record_frame_def frame_ok_def zero_frame_def)

text \<open>The three things the loop can do with the bytes at hand.\<close>

definition waiting :: "u8 list \<Rightarrow> bool" where
  "waiting bs \<longleftrightarrow> length bs < 4 \<or>
    unat (load_le 4 0 bs :: u32) \<le> kFramePayloadBytes \<and> length bs < 4 + kHeaderBytes + unat (load_le 4 0 bs :: u32)"

definition oversized :: "u8 list \<Rightarrow> bool" where
  "oversized bs \<longleftrightarrow> 4 \<le> length bs \<and> kFramePayloadBytes < unat (load_le 4 0 bs :: u32)"

definition has_record :: "u8 list \<Rightarrow> bool" where
  "has_record bs \<longleftrightarrow> unat (load_le 4 0 bs :: u32) \<le> kFramePayloadBytes
    \<and> 4 + kHeaderBytes + unat (load_le 4 0 bs :: u32) \<le> length bs"

definition record_size :: "u8 list \<Rightarrow> nat" where
  "record_size bs = 4 + kHeaderBytes + unat (load_le 4 0 bs :: u32)"

definition first_frame :: "u8 list \<Rightarrow> audio_frame" where
  "first_frame bs = record_frame (load_le 4 0 bs) bs"

lemma bytes_cases:
  obtains "waiting bs" | "oversized bs" | "has_record bs"
  unfolding waiting_def oversized_def has_record_def by linarith

lemma parse_loop_waiting: "waiting bs \<Longrightarrow> parse_loop push now st bs = (st, bs, True)"
  by (subst parse_loop.simps) (auto simp: waiting_def Let_def kMaxWirePayload_le simp flip: not_le)

lemma parse_loop_oversized: "oversized bs \<Longrightarrow> parse_loop push now st bs = (st, bs, False)"
  by (subst parse_loop.simps) (auto simp: oversized_def Let_def kMaxWirePayload_le simp flip: not_le)

lemma parse_loop_record:
  "has_record bs \<Longrightarrow> parse_loop push now st bs = parse_loop push now (take_frame push now st (first_frame bs)) (drop (record_size bs) bs)"
  by (subst parse_loop.simps)
    (auto simp: has_record_def Let_def kMaxWirePayload_le first_frame_def record_size_def simp flip: not_le)

lemmas parse_loop_steps = parse_loop_waiting parse_loop_oversized parse_loop_record

lemma bytes_induct [case_names waiting oversized more]:
  assumes "\<And>bs. waiting bs \<Longrightarrow> P bs" "\<And>bs. oversized bs \<Longrightarrow> P bs"
    "\<And>bs. has_record bs \<Longrightarrow> P (drop (record_size bs) bs) \<Longrightarrow> P bs"
  shows "P bs"
proof (induction bs rule: length_induct)
  case (1 bs)
  show ?case
  proof (cases bs rule: bytes_cases)
    case 3
    then have "0 < length bs" "0 < record_size bs" by (auto simp: has_record_def record_size_def)
    then have "length (drop (record_size bs) bs) < length bs" by simp
    then show ?thesis using 1 3 assms(3) by blast
  qed (use assms in blast)+
qed

lemma has_record_append:
  assumes "has_record bs"
  shows "has_record (bs @ cs)" "record_size (bs @ cs) = record_size bs" "first_frame (bs @ cs) = first_frame bs"
    "record_size bs - length bs = 0" "frame_ok (first_frame bs)"
  using assms
  by (simp_all add: has_record_def record_size_def first_frame_def load_le_append record_frame_append record_frame_ok)

lemma oversized_append: "oversized bs \<Longrightarrow> oversized (bs @ cs)"
  by (simp add: oversized_def load_le_append)

lemma waiting_short: "waiting bs \<Longrightarrow> length bs < 4 + kHeaderBytes + kFramePayloadBytes"
  by (auto simp: waiting_def)

text \<open>What is left after the loop is an incomplete record.\<close>

lemma parse_loop_rest:
  "parse_loop push now st bs = (st', rest, ok) \<Longrightarrow> (if ok then waiting rest else oversized rest)"
  by (induction bs arbitrary: st rule: bytes_induct) (auto simp: parse_loop_steps)

text \<open>Parsing what arrived first and going on with the remainder is parsing everything at once.\<close>

lemma parse_loop_append:
  "parse_loop push now st (bs @ cs) =
    (case parse_loop push now st bs of
       (st', rest, True) \<Rightarrow> parse_loop push now st' (rest @ cs)
     | (st', rest, False) \<Rightarrow> (st', rest @ cs, False))"
  by (induction bs arbitrary: st rule: bytes_induct)
    (simp_all add: parse_loop_steps oversized_append has_record_append)

end
