(* ===== verification/Ingest_Props.thy ===== *)
theory Ingest_Props
  imports Uds_Ingest Energy
begin

text \<open>
  What the reader guarantees: how the kernel cuts the stream does not matter, the frames the
  producer wrote come out of the ring in order, a full ring sheds the newest frame and counts it,
  an oversized length ends the connection, and no frame it accepts is read out of bounds.
\<close>

section \<open>The outer loop\<close>

lemma pump_prefix:
  assumes "waiting buf" "pump push now st buf avails stream = (st', buf', rest)"
  shows "\<exists>used ok. stream = used @ rest \<and> parse_loop push now st (buf @ used) = (st', buf', ok)
    \<and> (ok \<and> (\<forall>a \<in> set avails. 0 < a) \<and> length stream \<le> length avails \<longrightarrow> rest = [])"
  using assms
proof (induction avails arbitrary: st buf stream)
  case Nil
  then show ?case by (intro exI [of _ "[]"] exI [of _ True]) (simp add: parse_loop_waiting)
next
  case (Cons avail avails)
  define n where "n = min avail (kBufBytes - length buf)"
  define got more where "got = take n stream" and "more = drop n stream"
  have stream: "stream = got @ more" by (simp add: got_def more_def)
  have room: "0 < kBufBytes - length buf"
    using waiting_short [OF Cons.prems(1)] by (simp add: kBufBytes_def kHeaderBytes_def kFramePayloadBytes_def)
  show ?case
  proof (cases "got = []")
    case True
    then have "(st', buf', rest) = (st, buf, stream)"
      using Cons.prems(2) stream unfolding pump.simps read_some_def n_def [symmetric] got_def [symmetric] more_def [symmetric]
      by simp
    moreover have "stream = [] \<or> avail = 0" using True room by (auto simp: got_def n_def)
    ultimately show ?thesis
      using Cons.prems(1) by (intro exI [of _ "[]"] exI [of _ True]) (auto simp: parse_loop_waiting)
  next
    case False
    obtain st1 buf1 ok1 where p: "parse_loop push now st (buf @ got) = (st1, buf1, ok1)"
      by (cases "parse_loop push now st (buf @ got)")
    have pump: "(if \<not> ok1 then (st1, buf1, more)
        else pump push now st1 (if length buf1 = kBufBytes then [] else buf1) avails more) = (st', buf', rest)"
      using Cons.prems(2) False unfolding pump.simps read_some_def n_def [symmetric] got_def [symmetric] more_def [symmetric]
      by (simp add: p Let_def split: if_splits)
    show ?thesis
    proof (cases ok1)
      case ok: True
      then have w: "waiting buf1" using parse_loop_rest [OF p] by simp
      have "length buf1 \<noteq> kBufBytes"
        using waiting_short [OF w] by (simp add: kBufBytes_def kHeaderBytes_def kFramePayloadBytes_def)
      then have "pump push now st1 buf1 avails more = (st', buf', rest)" using pump ok by simp
      from Cons.IH [OF w this] obtain used ok' where u: "more = used @ rest"
          "parse_loop push now st1 (buf1 @ used) = (st', buf', ok')"
          "ok' \<and> (\<forall>a \<in> set avails. 0 < a) \<and> length more \<le> length avails \<longrightarrow> rest = []"
        by blast
      have "parse_loop push now st (buf @ (got @ used)) = (st', buf', ok')"
        using parse_loop_append [of push now st "buf @ got" used] p ok u(2) by simp
      moreover have "1 \<le> length got" using False by (simp add: Suc_le_eq)
      ultimately show ?thesis using stream u by (intro exI [of _ "got @ used"] exI [of _ ok']) auto
    next
      case bad: False
      then show ?thesis using pump p stream by (intro exI [of _ got] exI [of _ False]) simp
    qed
  qed
qed

lemma waiting_Nil: "waiting []"
  by (simp add: waiting_def)

lemma pump_state:
  assumes "\<forall>a \<in> set avails. 0 < a" "length stream \<le> length avails"
  shows "fst (pump push now st [] avails stream) = fst (parse_loop push now st stream)"
proof -
  obtain st' buf' rest where p: "pump push now st [] avails stream = (st', buf', rest)"
    by (cases "pump push now st [] avails stream")
  from pump_prefix [OF waiting_Nil p] obtain used ok where u: "stream = used @ rest"
      "parse_loop push now st used = (st', buf', ok)" "ok \<longrightarrow> rest = []"
    using assms by auto
  show ?thesis
  proof (cases ok)
    case True
    then show ?thesis using u p by simp
  next
    case False
    then show ?thesis using parse_loop_append [of push now st used rest] u(1,2) p by simp
  qed
qed

section \<open>The producer's records\<close>

definition received :: "audio_frame \<Rightarrow> audio_frame" where
  "received f = f\<lparr>payload := take (f_len f) (payload f) @ drop (f_len f) (payload zero_frame)\<rparr>"

lemma received_same:
  assumes "frame_ok f"
  shows "hdr (received f) = hdr f" "frame_bytes (received f) = frame_bytes f" "frame_ok (received f)"
  using assms by (simp_all add: received_def frame_ok_def frame_bytes_def zero_frame_def)

lemma wire_bytes_record:
  assumes "frame_ok f"
  shows "has_record (wire_bytes f @ rest)" "record_size (wire_bytes f @ rest) = length (wire_bytes f)"
    "first_frame (wire_bytes f @ rest) = received f"
proof -
  have w: "wire_bytes f @ rest = [] @ store_le 4 (fh_byte_len (hdr f)) @ (header_bytes (hdr f) @ take (f_len f) (payload f) @ rest)"
    by (simp add: wire_bytes_def)
  have n: "load_le 4 0 (wire_bytes f @ rest) = fh_byte_len (hdr f)" by (rule load_field [OF w]) simp_all
  have len: "length (wire_bytes f) = 4 + kHeaderBytes + f_len f" by (rule length_wire_bytes [OF assms])
  show "has_record (wire_bytes f @ rest)" "record_size (wire_bytes f @ rest) = length (wire_bytes f)"
    using assms by (simp_all add: has_record_def record_size_def n len frame_ok_def)
  have h: "take kHeaderBytes (drop 4 (wire_bytes f @ rest)) = header_bytes (hdr f)" by (simp add: w)
  have p: "take (f_len f) (drop (4 + kHeaderBytes) (wire_bytes f @ rest)) = take (f_len f) (payload f)"
    using assms by (simp add: w frame_ok_def)
  have lh: "load_header (header_bytes (hdr f)) = hdr f" using load_header_bytes [of "hdr f" "[]"] by simp
  show "first_frame (wire_bytes f @ rest) = received f"
    unfolding first_frame_def record_frame_def n h lh p received_def by simp
qed

lemma parse_loop_frames:
  "\<forall>f \<in> set fs. frame_ok f \<Longrightarrow> parse_loop push now st (concat (map wire_bytes fs) @ rest)
    = parse_loop push now (foldl (take_frame push now) st (map received fs)) rest"
proof (induction fs arbitrary: st)
  case (Cons f fs)
  then have "frame_ok f" by simp
  note r = wire_bytes_record [OF this, of "concat (map wire_bytes fs) @ rest"]
  show ?case using Cons by (simp add: parse_loop_record r)
qed simp

section \<open>Pushing into the ring\<close>

lemma try_push_items:
  assumes "ring_wf r"
  shows "ring_wf (fst (try_push r v))" "length (rg_slots (fst (try_push r v))) = length (rg_slots r)"
    "try_push r v = (fst (try_push r v), if length (ring_items r) < length (rg_slots r) then KOk else KFull)"
    "ring_items (fst (try_push r v)) = take (length (rg_slots r)) (ring_items r @ [v])"
proof -
  obtain T h tc hc where "ring_at r T h tc hc" using assms by (auto simp: ring_wf_def)
  note p = try_push_at [OF this, of v]
  then show "ring_wf (fst (try_push r v))" "length (rg_slots (fst (try_push r v))) = length (rg_slots r)"
    "try_push r v = (fst (try_push r v), if length (ring_items r) < length (rg_slots r) then KOk else KFull)"
    by (auto simp: prod_eq_iff split: if_splits)
  show "ring_items (fst (try_push r v)) = take (length (rg_slots r)) (ring_items r @ [v])"
    using p ring_items_room [OF assms] by (auto split: if_splits)
qed

lemma take_frame_stamped: "fh_t_produce_ns (hdr f) \<noteq> 0 \<Longrightarrow> take_frame push now st f = offer_frame push st f"
  by (simp add: take_frame_def stamp_frame_def)

lemma offer_frames:
  assumes "ring_wf (in_queue st)" "\<forall>f \<in> set fs. fh_t_produce_ns (hdr f) \<noteq> 0"
  defines "c \<equiv> length (rg_slots (in_queue st))"
  shows "ring_wf (in_queue (foldl (take_frame try_push now) st fs))
    \<and> ring_items (in_queue (foldl (take_frame try_push now) st fs)) = take c (ring_items (in_queue st) @ fs)
    \<and> in_full_drops (foldl (take_frame try_push now) st fs)
        = in_full_drops st + of_nat (length (ring_items (in_queue st)) + length fs - c)"
  unfolding c_def using assms(1,2)
proof (induction fs arbitrary: st)
  case Nil
  then show ?case using ring_items_room [of "in_queue st"] by simp
next
  case (Cons f fs)
  define r where "r = in_queue st"
  have wf: "ring_wf r" using Cons.prems(1) by (simp add: r_def)
  note p = try_push_items [OF wf, of f]
  define st1 where "st1 = take_frame try_push now st f"
  have q: "in_queue st1 = fst (try_push r f)"
    "in_full_drops st1 = in_full_drops st + (if length (ring_items r) < length (rg_slots r) then 0 else 1)"
  proof -
    obtain r' res where e: "try_push r f = (r', res)" by (cases "try_push r f")
    then have "res = (if length (ring_items r) < length (rg_slots r) then KOk else KFull)" using p(3) by simp
    then show "in_queue st1 = fst (try_push r f)"
      "in_full_drops st1 = in_full_drops st + (if length (ring_items r) < length (rg_slots r) then 0 else 1)"
      using Cons.prems(2) e by (simp_all add: st1_def take_frame_stamped offer_frame_def r_def [symmetric] Let_def)
  qed
  have len: "length (ring_items r) \<le> length (rg_slots r)" by (rule ring_items_room [OF wf])
  note ih = Cons.IH [of st1, unfolded q p(2)]
  have "take (length (rg_slots r)) (take (length (rg_slots r)) (ring_items r @ [f]) @ fs)
      = take (length (rg_slots r)) (ring_items r @ f # fs)"
    using len by (cases "length (ring_items r) = length (rg_slots r)") (simp_all add: take_Cons')
  then show ?case
    using ih p(1) Cons.prems(2) len
    by (cases "length (ring_items r) = length (rg_slots r)")
      (simp_all add: st1_def [symmetric] r_def [symmetric] p(4) Suc_diff_le)
qed

section \<open>Properties\<close>

text \<open>C6: How the kernel cuts the byte stream does not matter: with enough reads that each return
  something, the reader leaves the queue, the drop counter and the clock exactly as parsing the
  whole stream in one piece would, whatever the queue and the consumer behind it do.\<close>

theorem pump_ignores_read_boundaries:
  assumes "\<forall>a \<in> set avails. 0 < a" "length stream \<le> length avails"
  shows "fst (pump push now st [] avails stream) = fst (parse_loop push now st stream)"
  by (rule pump_state [OF assms])

theorem pump_ignores_read_boundaries_witness:
  "fst (pump try_push (\<lambda>_. 5) \<lparr>in_queue = ring_new 2 zero_frame, in_full_drops = 0, in_clock = 0\<rparr> [] [3, 1, 2, 9, 4] [0, 4, 0, 0, 7])
    = fst (parse_loop try_push (\<lambda>_. 5) \<lparr>in_queue = ring_new 2 zero_frame, in_full_drops = 0, in_clock = 0\<rparr> [0, 4, 0, 0, 7])"
  by (rule pump_ignores_read_boundaries) simp_all

text \<open>C7: Socket round trip with backpressure: writing frames one after the other and pumping the bytes,
  however they are cut, queues the same frames in the same order (payload bytes beyond the length
  are zero), as many as there is room for; the ring sheds the newest frames, keeps every queued
  one, and each frame shed is counted.\<close>

theorem socket_delivers_frames:
  fixes now :: "nat \<Rightarrow> u64" and d :: u64 and k :: nat
  assumes "ring_wf r" "\<forall>f \<in> set fs. frame_ok f \<and> fh_t_produce_ns (hdr f) \<noteq> 0"
    "\<forall>a \<in> set avails. 0 < a" "length (concat (map wire_bytes fs)) \<le> length avails"
  defines "st \<equiv> fst (pump try_push now \<lparr>in_queue = r, in_full_drops = d, in_clock = k\<rparr> [] avails (concat (map wire_bytes fs)))"
  shows "ring_items (in_queue st) = take (length (rg_slots r)) (ring_items r @ map received fs)
    \<and> in_full_drops st = d + of_nat (length (ring_items r) + length fs - length (rg_slots r))
    \<and> ring_wf (in_queue st)"
proof -
  define st0 where "st0 = \<lparr>in_queue = r, in_full_drops = d, in_clock = k\<rparr>"
  have "st = fst (parse_loop try_push now st0 (concat (map wire_bytes fs) @ []))"
    unfolding st_def st0_def by (simp add: pump_state [OF assms(3,4)])
  also have "\<dots> = foldl (take_frame try_push now) st0 (map received fs)"
    using assms(2) by (subst parse_loop_frames) (simp_all add: parse_loop_waiting [OF waiting_Nil])
  finally have st: "st = foldl (take_frame try_push now) st0 (map received fs)" .
  have "\<forall>f \<in> set (map received fs). fh_t_produce_ns (hdr f) \<noteq> 0" using assms(2) by (auto simp: received_same)
  then show ?thesis using offer_frames [of st0 "map received fs" now] assms(1) unfolding st by (simp add: st0_def)
qed

theorem socket_delivers_frames_witness:
  "let f = (\<lambda>n. (sample_frame n [1, 2])\<lparr>hdr := (hdr (sample_frame n [1, 2]))\<lparr>fh_t_produce_ns := 9\<rparr>\<rparr>);
       st = fst (pump try_push (\<lambda>_. 0) \<lparr>in_queue = ring_new 2 zero_frame, in_full_drops = 0, in_clock = 0\<rparr> []
              (replicate 150 7) (concat (map wire_bytes [f 1, f 2, f 3])))
   in ring_items (in_queue st) = [received (f 1), received (f 2)] \<and> in_full_drops st = 1"
proof -
  define f where "f = (\<lambda>n. (sample_frame n [1, 2])\<lparr>hdr := (hdr (sample_frame n [1, 2]))\<lparr>fh_t_produce_ns := 9\<rparr>\<rparr>)"
  have ok: "frame_ok (f n)" "fh_t_produce_ns (hdr (f n)) \<noteq> 0" "f_len (f n) = 2" for n
    using frame_ok_sample [of "[1, 2]" n] by (simp_all add: f_def frame_ok_def kFramePayloadBytes_def sample_frame_def)
  have ring: "ring_wf (ring_new 2 zero_frame)" "ring_items (ring_new 2 zero_frame) = []"
    by (simp_all add: op_simps)
  have len: "length (concat (map wire_bytes [f 1, f 2, f 3])) \<le> length (replicate 150 (7 :: nat))"
    using ok by (simp add: length_wire_bytes kHeaderBytes_def)
  have all: "\<forall>g \<in> set [f 1, f 2, f 3]. frame_ok g \<and> fh_t_produce_ns (hdr g) \<noteq> 0" using ok by simp
  have pos: "\<forall>a \<in> set (replicate 150 (7 :: nat)). 0 < a" by simp
  have slots: "length (rg_slots (ring_new 2 zero_frame)) = 2" by (simp add: op_simps)
  show ?thesis
    using socket_delivers_frames [OF ring(1) all pos len, of "\<lambda>_. 0" 0 0] ring(2) slots
    unfolding Let_def f_def [symmetric] by simp
qed

text \<open>C34: Whatever bytes arrive, in whatever pieces and whatever the queue answers, every frame the
  reader offers has its valid bytes inside its payload, so the energy of none is read out of
  bounds.\<close>

theorem ingested_frames_in_bounds:
  assumes "f \<in> set (in_queue (fst (pump (\<lambda>q f. (q @ [f], answer q f)) now \<lparr>in_queue = [], in_full_drops = d, in_clock = k\<rparr> [] avails stream)))"
  shows "frame_ok f \<and> frame_energy f \<noteq> None"
proof -
  define push where "push = (\<lambda>q f. (q @ [f :: audio_frame], answer q f :: push_result))"
  have offered: "\<forall>f \<in> set (in_queue (take_frame push now st f)). frame_ok f"
    if "\<forall>f \<in> set (in_queue st). frame_ok f" "frame_ok f" for st f
    using that by (auto simp: take_frame_def stamp_frame_def offer_frame_def push_def Let_def frame_ok_def split: prod.splits)
  have parsed: "\<forall>f \<in> set (in_queue (fst (parse_loop push now st bs))). frame_ok f"
    if "\<forall>f \<in> set (in_queue st). frame_ok f" for st bs
    using that
  proof (induction bs arbitrary: st rule: bytes_induct)
    case (more bs)
    show ?case
      unfolding parse_loop_record [OF more(1)]
      by (rule more(2) [OF offered [OF more(3) has_record_append(5) [OF more(1)]]])
  qed (simp_all add: parse_loop_steps)
  obtain st' buf' rest where p: "pump push now \<lparr>in_queue = [], in_full_drops = d, in_clock = k\<rparr> [] avails stream = (st', buf', rest)"
    by (cases "pump push now \<lparr>in_queue = [], in_full_drops = d, in_clock = k\<rparr> [] avails stream")
  from pump_prefix [OF waiting_Nil p] obtain used ok
    where "parse_loop push now \<lparr>in_queue = [], in_full_drops = d, in_clock = k\<rparr> used = (st', buf', ok)" by auto
  then have "\<forall>f \<in> set (in_queue st'). frame_ok f"
    using parsed [of "\<lparr>in_queue = [], in_full_drops = d, in_clock = k\<rparr>" used] by simp
  then have "frame_ok f" using assms p by (simp add: push_def [symmetric])
  then show ?thesis using frame_energy_ok by blast
qed

theorem ingested_frames_in_bounds_witness:
  "let f = (sample_frame 1 [1, 2])\<lparr>hdr := (hdr (sample_frame 1 [1, 2]))\<lparr>fh_t_produce_ns := 9\<rparr>\<rparr>
   in received f \<in> set (in_queue (fst (pump (\<lambda>q f. (q @ [f], KOk)) (\<lambda>_. 5)
        \<lparr>in_queue = [], in_full_drops = 0, in_clock = 0\<rparr> [] (replicate 50 3) (wire_bytes f))))
      \<and> frame_energy (received f) \<noteq> None"
proof -
  define f where "f = (sample_frame 1 [1, 2])\<lparr>hdr := (hdr (sample_frame 1 [1, 2]))\<lparr>fh_t_produce_ns := 9\<rparr>\<rparr>"
  define push where "push = (\<lambda>q f. (q @ [f :: audio_frame], KOk))"
  define st where "st = \<lparr>in_queue = [] :: audio_frame list, in_full_drops = 0, in_clock = 0\<rparr>"
  have ok: "frame_ok f" "fh_t_produce_ns (hdr f) \<noteq> 0" "f_len f = 2"
    using frame_ok_sample [of "[1, 2]" 1] by (simp_all add: f_def frame_ok_def kFramePayloadBytes_def sample_frame_def)
  have "fst (pump push (\<lambda>_. 5) st [] (replicate 50 3) (wire_bytes f)) = fst (parse_loop push (\<lambda>_. 5) st (wire_bytes f))"
    using ok by (intro pump_state) (simp_all add: length_wire_bytes kHeaderBytes_def)
  also have "\<dots> = take_frame push (\<lambda>_. 5) st (received f)"
    using parse_loop_frames [of "[f]" push "\<lambda>_. 5" st "[]"] ok by (simp add: parse_loop_waiting [OF waiting_Nil])
  also have "\<dots> = \<lparr>in_queue = [received f], in_full_drops = 0, in_clock = 0\<rparr>"
    using ok by (simp add: take_frame_stamped received_same offer_frame_def push_def st_def)
  finally have "received f \<in> set (in_queue (fst (pump push (\<lambda>_. 5) st [] (replicate 50 3) (wire_bytes f))))" by simp
  then show ?thesis
    using ingested_frames_in_bounds [of "received f" "\<lambda>_ _. KOk" "\<lambda>_. 5" 0 0 "replicate 50 3" "wire_bytes f"]
    unfolding Let_def f_def [symmetric] push_def st_def by blast
qed

text \<open>An oversized length ends the connection: the frames before it are taken as if nothing
  followed, and nothing after it is.\<close>

theorem oversized_record_drops_connection:
  assumes "\<forall>f \<in> set fs. frame_ok f" "oversized bad"
    "\<forall>a \<in> set avails. 0 < a" "length (concat (map wire_bytes fs) @ bad @ later) \<le> length avails"
  shows "fst (pump push now st [] avails (concat (map wire_bytes fs) @ bad @ later))
    = foldl (take_frame push now) st (map received fs)"
  unfolding pump_state [OF assms(3,4)] parse_loop_frames [OF assms(1)]
    parse_loop_oversized [OF oversized_append [OF assms(2)]] by simp

theorem oversized_record_drops_connection_witness:
  "fst (pump try_push (\<lambda>_. 5) \<lparr>in_queue = ring_new 2 zero_frame, in_full_drops = 0, in_clock = 0\<rparr> [] (replicate 9 2) ([] @ [1, 4, 0, 0] @ [8, 8]))
    = \<lparr>in_queue = ring_new 2 zero_frame, in_full_drops = 0, in_clock = 0\<rparr>"
proof -
  have "oversized [1, 4, 0, 0]" by code_simp
  then show ?thesis
    using oversized_record_drops_connection [of "[]" "[1, 4, 0, 0]" "replicate 9 2" "[8, 8]"] by simp
qed

text \<open>C35: Connections resynchronise: whatever a connection leaves behind (a piece of a record when the peer went
  away, or an oversized length and all that follows it) is discarded with it; the frames taken over a series of
  connections are exactly the whole frames each of them sent before that point.\<close>

theorem connections_resynchronise:
  assumes "\<forall>(avails, fs, rest) \<in> set conns. (\<forall>f \<in> set fs. frame_ok f) \<and> (waiting rest \<or> oversized rest)
    \<and> (\<forall>a \<in> set avails. 0 < a) \<and> length (concat (map wire_bytes fs) @ rest) \<le> length avails"
  shows "ingest_run push now st (map (\<lambda>(avails, fs, rest). (avails, concat (map wire_bytes fs) @ rest)) conns)
    = foldl (take_frame push now) st (concat (map (\<lambda>(_, fs, _). map received fs) conns))"
  using assms
proof (induction conns arbitrary: st)
  case (Cons conn conns)
  obtain avails fs rest where c: "conn = (avails, fs, rest)" by (cases conn)
  have fs: "\<forall>f \<in> set fs. frame_ok f" and rest: "waiting rest \<or> oversized rest"
    and av: "\<forall>a \<in> set avails. 0 < a" "length (concat (map wire_bytes fs) @ rest) \<le> length avails"
    using Cons.prems by (simp_all add: c)
  have "fst (pump push now st [] avails (concat (map wire_bytes fs) @ rest)) = foldl (take_frame push now) st (map received fs)"
    unfolding pump_state [OF av] parse_loop_frames [OF fs] using rest by (auto simp: parse_loop_waiting parse_loop_oversized)
  then show ?case using Cons by (auto simp: c split: prod.splits)
qed simp

theorem connections_resynchronise_witness:
  "ingest_run try_push (\<lambda>_. 5) \<lparr>in_queue = ring_new 2 zero_frame, in_full_drops = 0, in_clock = 0\<rparr>
      (map (\<lambda>(avails, fs, rest). (avails, concat (map wire_bytes fs) @ rest))
        [(replicate 9 2, [], [1, 4, 0, 0, 8, 8]), (replicate 90 3, [sample_frame 1 [1, 2]], [7, 7])])
    = take_frame try_push (\<lambda>_. 5) \<lparr>in_queue = ring_new 2 zero_frame, in_full_drops = 0, in_clock = 0\<rparr> (received (sample_frame 1 [1, 2]))"
proof -
  have "oversized [1, 4, 0, 0, 8, 8]" "waiting [7, 7]" by code_simp+
  moreover have "frame_ok (sample_frame 1 [1, 2])" "length (wire_bytes (sample_frame 1 [1, 2])) = 46"
    using frame_ok_sample [of "[1, 2]" 1]
    by (simp_all add: kFramePayloadBytes_def length_wire_bytes kHeaderBytes_def) (simp add: sample_frame_def)
  ultimately show ?thesis
    using connections_resynchronise [of "[(replicate 9 2, [], [1, 4, 0, 0, 8, 8]), (replicate 90 3, [sample_frame 1 [1, 2]], [7, 7])]"]
    by simp
qed

end
