(* ===== verification/Consumer_Main.thy ===== *)
theory Consumer_Main
  imports Hot_Props Publisher Report Pipeline Ingest_Props
begin

text \<open>
  The consumer as a whole, \<open>main\<close> of \<open>src/vhp_consumer.cpp\<close>: the command line, the choice between the
  shared-memory ring and the socket reader, the hot loop with the ingest side and the publisher acting
  between its accesses, and the shutdown: the publisher drains, the report and the CSV files are written.

  What the other threads do between two accesses of the hot loop is an input (\<open>main_world\<close>): the frames
  that arrive before each access of the frame ring (for the socket: the frames the reader decoded, whose
  decoding is \<open>Uds_Ingest\<close>), the number of turns the publisher makes before each push. The end of the
  ticks is \<open>g_running\<close> turning false, by a signal for instance.
\<close>

section \<open>The usage text\<close>

text \<open>\<open>usage\<close>, on the standard error stream.\<close>

definition consumer_usage :: "string \<Rightarrow> string" where
  "consumer_usage argv0 =
    ''usage: '' @ argv0 @ '' [options]'' @ newline
    @ ''  ingest:'' @ newline
    @ ''    --shm-frames NAME     shared-memory frame ring (default '' @ kDefaultFrameShm @ '')'' @ newline
    @ ''    --shm-events NAME     shared-memory event ring (default '' @ kDefaultEventShm @ '')'' @ newline
    @ ''    --uds PATH            listen on a unix socket instead of shm'' @ newline
    @ ''  placement:'' @ newline
    @ ''    --core N              pin the vad thread to core N'' @ newline
    @ ''    --rt                  request SCHED_FIFO (needs privileges)'' @ newline
    @ ''    --yield               sched_yield when idle instead of spinning'' @ newline
    @ ''  gate (see README for the latency/false-cut sweep):'' @ newline
    @ ''    --rms F               normalised rms threshold (default 0.02)'' @ newline
    @ ''    --peak F              normalised peak threshold (default 0.10)'' @ newline
    @ ''    --speech-frames N     sustained frames before onset (default 2)'' @ newline
    @ ''    --silence-frames N    hangover frames before endpoint (default 12)'' @ newline
    @ ''    --preroll N           frames kept before onset (default 5)'' @ newline
    @ ''    --max-chunk-ms F      force-flush cap (default 15000)'' @ newline
    @ ''  sessions:'' @ newline
    @ ''    --max-sessions N      concurrent calls admitted (default 32)'' @ newline
    @ ''    --session-idle-ms F   close a call after this much silence (default 2000)'' @ newline
    @ ''  run:'' @ newline
    @ ''    --frame-ms F          nominal cadence for jitter (default 20)'' @ newline
    @ ''    --seconds F           stop after N seconds'' @ newline
    @ ''    --csv-prefix PATH     dump histograms to PATH-<metric>.csv'' @ newline"

section \<open>The listening socket\<close>

text \<open>Which calls succeed, and the names of socket files in the file system. \<open>bind\<close> fails on a name that
  exists.\<close>

record uds_answers =
  ua_socket :: bool
  ua_bind :: bool
  ua_listen :: bool

text \<open>\<open>strncpy(addr.sun_path, path, sizeof(addr.sun_path) - 1)\<close>; \<open>sun_path\<close> has 108 bytes.\<close>

definition sun_path :: "string \<Rightarrow> string" where
  "sun_path path = take 107 path"

text \<open>\<open>UdsIngest::start\<close>: the name of the failed call, if any.\<close>

definition uds_start :: "uds_answers \<Rightarrow> string \<Rightarrow> string set \<Rightarrow> string set \<times> string option" where
  "uds_start sys path files =
    (let files = files - {path}
     in if \<not> ua_socket sys then (files, Some ''socket'')
        else if \<not> ua_bind sys \<or> sun_path path \<in> files then (files, Some ''bind'')
        else
          (let files = insert (sun_path path) files
           in if \<not> ua_listen sys then (files, Some ''listen'') else (files, None)))"

text \<open>\<open>UdsIngest::stop\<close>, its effect on the file system.\<close>

definition uds_stop :: "string \<Rightarrow> string set \<Rightarrow> string set" where
  "uds_stop path files = files - {path}"

section \<open>The threads around the hot loop\<close>

text \<open>The publisher, with the number of turns it makes before each push of the hot loop; \<open>done\<close> is not set.\<close>

type_synonym event_side = "publisher \<times> nat list"

definition running_tick :: pub_tick where
  "running_tick = \<lparr>pk_pushed = [], pk_done = False\<rparr>"

definition done_tick :: pub_tick where
  "done_tick = \<lparr>pk_pushed = [], pk_done = True\<rparr>"

fun publisher_runs :: "event_side \<Rightarrow> event_side" where
  "publisher_runs (p, []) = (p, [])"
| "publisher_runs (p, n # later) = (fst (publish_turns (replicate n running_tick) p), later)"

definition push_to_publisher :: "event_side \<Rightarrow> chunk_event \<Rightarrow> event_side \<times> push_result" where
  "push_to_publisher e ev =
    (case publisher_runs e of (p, later) \<Rightarrow> ((push_event p ev, later), snd (try_push (pb_events p) ev)))"

text \<open>Shared memory: another process pushes. Socket: the reader thread pushes and counts what it sheds.\<close>

definition shm_io :: "(audio_frame ring \<times> audio_frame list list, event_side) hot_io" where
  "shm_io = \<lparr>io_pop = io_pop shared_io, io_size = io_size shared_io, io_push = push_to_publisher\<rparr>"

type_synonym reader_side = "audio_frame ring ingest \<times> audio_frame list list"

fun reader_runs :: "(nat \<Rightarrow> u64) \<Rightarrow> reader_side \<Rightarrow> reader_side" where
  "reader_runs now (st, []) = (st, [])"
| "reader_runs now (st, fs # later) = (foldl (take_frame try_push now) st fs, later)"

definition uds_io :: "(nat \<Rightarrow> u64) \<Rightarrow> (reader_side, event_side) hot_io" where
  "uds_io now =
    \<lparr>io_pop = (\<lambda>q. case reader_runs now q of (st, later) \<Rightarrow>
         case try_pop (in_queue st) of (r, x) \<Rightarrow> ((st\<lparr>in_queue := r\<rparr>, later), x)),
     io_size = (\<lambda>q. case reader_runs now q of (st, later) \<Rightarrow> ((st, later), ring_size (in_queue st))),
     io_push = push_to_publisher\<rparr>"

section \<open>The run\<close>

record main_world =
  mw_config_ns :: u64
  mw_start_ns :: u64
  mw_ticks :: "tick list"
  mw_end_ns :: u64
  mw_arrivals :: "audio_frame list list"
  mw_late :: "audio_frame list"
  mw_reader_clock :: "nat \<Rightarrow> u64"
  mw_turns :: "nat list"
  mw_drain :: nat
  mw_shm :: sys_answers
  mw_uds :: uds_answers
  mw_can_open :: "string \<Rightarrow> bool"
  mw_layout_bytes :: nat

record main_files =
  mf_shm :: "audio_frame shm_names"
  mf_sockets :: "string set"

text \<open>The result: exit status, standard output, the last text on the error stream (progress messages are left
  out) and the files written.\<close>

record main_result =
  mr_code :: int
  mr_stdout :: "pub_action list"
  mr_stderr :: string
  mr_csv :: "(string \<times> string) list"

definition start_publisher :: publisher where
  "start_publisher = publish_start (ring_new kEventRingCapacity zero_event)"

text \<open>The socket branch: the metrics with what the reader shed, and the publisher's side. The reader stops
  when it next looks at \<open>g_running\<close>; a reader that never started decodes nothing.\<close>

definition run_uds :: "consumer_options \<Rightarrow> main_world \<Rightarrow> hot_metrics \<Rightarrow> main_files
    \<Rightarrow> (hot_metrics \<times> event_side \<times> main_files) option" where
  "run_uds opt w m files =
    (let (sockets, failed) = uds_start (mw_uds w) (co_uds_path opt) (mf_sockets files);
         up = (failed = None);
         now = mw_reader_clock w;
         st = \<lparr>in_queue = ring_new kFrameRingCapacity zero_frame, in_full_drops = m_ring_full_drops m, in_clock = 0\<rparr>
     in do {
       s \<leftarrow> hot_loop (uds_io now) opt (mw_config_ns w) (mw_start_ns w) (if up then mw_ticks w else []) (mw_end_ns w)
              (st, if up then mw_arrivals w else []) (start_publisher, mw_turns w) m;
       let st = foldl (take_frame try_push now) (fst (hl_frames s)) (if up then mw_late w else []);
       Some ((hl_metrics s)\<lparr>m_ring_full_drops := in_full_drops st\<rparr>, hl_events s,
             files\<lparr>mf_sockets := uds_stop (co_uds_path opt) sockets\<rparr>)
     })"

text \<open>The shared-memory branch; the destructor removes the segment. \<^const>\<open>Inl\<close> is the exception.\<close>

definition run_shm :: "consumer_options \<Rightarrow> main_world \<Rightarrow> hot_metrics \<Rightarrow> main_files
    \<Rightarrow> ((shm_error + hot_metrics \<times> event_side) \<times> main_files) option" where
  "run_shm opt w m files =
    (let p = frame_params (mw_layout_bytes w)
     in case shm_create p (mw_shm w) (co_frame_shm opt) True (mf_shm files) of
          (names, Inl e) \<Rightarrow> Some (Inl e, files\<lparr>mf_shm := names\<rparr>)
        | (names, Inr frames) \<Rightarrow> do {
            s \<leftarrow> hot_loop shm_io opt (mw_config_ns w) (mw_start_ns w) (mw_ticks w) (mw_end_ns w)
                   (sh_ring (new_layout p), mw_arrivals w) (start_publisher, mw_turns w) m;
            Some (Inr (hl_metrics s, hl_events s), files\<lparr>mf_shm := shm_destroy frames names\<rparr>)
          })"

text \<open>\<open>hot_done.store(true); publisher.join()\<close>: the publisher's output when it ends within the turns given,
  \<^const>\<open>None\<close> when it is still running.\<close>

definition join_publisher :: "main_world \<Rightarrow> event_side \<Rightarrow> pub_action list option" where
  "join_publisher w e =
    (case publish_turns (replicate (mw_drain w) done_tick) (fst e) of (p, ended) \<Rightarrow> if ended then Some (pb_out p) else None)"

text \<open>The end of \<open>main\<close>.\<close>

definition close_main :: "consumer_options \<Rightarrow> main_world \<Rightarrow> hot_metrics \<Rightarrow> event_side \<Rightarrow> main_result option" where
  "close_main opt w m e = do {
     out \<leftarrow> join_publisher w e;
     Some \<lparr>mr_code = 0, mr_stdout = out,
       mr_stderr = report m (co_frame_ms opt) (if co_uds_path opt = [] then ''shm'' else ''uds''),
       mr_csv = dump_csv (mw_can_open w) opt m\<rparr>
   }"

definition consumer_main :: "string \<Rightarrow> (consumer_flag \<times> string) list \<Rightarrow> main_world \<Rightarrow> main_files \<Rightarrow> (main_result \<times> main_files) option" where
  "consumer_main argv0 args w files =
    (case consumer_parse_args args of
       None \<Rightarrow> Some (\<lparr>mr_code = 2, mr_stdout = [], mr_stderr = consumer_usage argv0, mr_csv = []\<rparr>, files)
     | Some opt \<Rightarrow> do {
         m \<leftarrow> metrics_new;
         if co_uds_path opt \<noteq> [] then do {
           (m, e, files) \<leftarrow> run_uds opt w m files;
           r \<leftarrow> close_main opt w m e;
           Some (r, files)
         } else do {
           (outcome, files) \<leftarrow> run_shm opt w m files;
           case outcome of
             Inl err \<Rightarrow> do {
               out \<leftarrow> join_publisher w (start_publisher, mw_turns w);
               Some (\<lparr>mr_code = 1, mr_stdout = out, mr_stderr = ''[vhp] fatal: '' @ what (co_frame_shm opt) err @ newline, mr_csv = []\<rparr>, files)
             }
           | Inr (m, e) \<Rightarrow> do {
               r \<leftarrow> close_main opt w m e;
               Some (r, files)
             }
         }
       })"

end
