(* ===== verification/Consumer_Props.thy ===== *)
theory Consumer_Props
  imports Consumer_Main
begin

text \<open>
  What a run of the consumer guarantees: the two ways of feeding it meet the contract of the hot loop,
  the publisher is told of every chunk and has printed each accepted one when \<open>main\<close> returns, and the
  socket file is cleaned up when its name fits the address.
\<close>

section \<open>An invariant of the two queues\<close>

text \<open>What the steps of the loop see of the event side: the counters of the chunks and of the drops.\<close>

definition tally :: "('q, 'e) hot \<Rightarrow> u64 \<times> u64 \<times> 'e" where
  "tally s = (m_chunks (hl_metrics s), m_event_drops (hl_metrics s), hl_events s)"

definition push_tally :: "('q, 'e) hot_io \<Rightarrow> u64 \<times> u64 \<times> 'e \<Rightarrow> chunk_event \<Rightarrow> u64 \<times> u64 \<times> 'e" where
  "push_tally io x v = (case x of (chunks, drops, e) \<Rightarrow> case io_push io e v of (e, r) \<Rightarrow>
     (chunks + 1, if r = KFull then drops + 1 else drops, e))"

text \<open>What every access keeps holds at the end of the hot loop.\<close>

definition kept :: "('q, 'e) hot_io \<Rightarrow> ('q \<Rightarrow> u64 \<times> u64 \<times> 'e \<Rightarrow> bool) \<Rightarrow> bool" where
  "kept io P \<longleftrightarrow> (\<forall>q x. P q x \<longrightarrow> P (fst (io_pop io q)) x \<and> P (fst (io_size io q)) x \<and> (\<forall>v. P q (push_tally io x v)))"

lemma keptD:
  assumes "kept io P" "P q x"
  shows "P (fst (io_pop io q)) x" "P (fst (io_size io q)) x" "P q (push_tally io x v)"
  using assms unfolding kept_def by blast+

lemma emit_tally: "tally (emit_event io s v) = push_tally io (tally s) v" "hl_frames (emit_event io s v) = hl_frames s"
  by (simp_all add: emit_event_def tally_def push_tally_def Let_def split: prod.split)

lemma tally_steps [simp]:
  "tally (observe_depth t s) = tally s" "tally (note_cadence cfg t i s) = tally s" "tally (note_sequence q i s) = tally s"
  "tally (note_depth io s) = tally s" "hl_frames (note_depth io s) = fst (io_size io (hl_frames s))"
  "tally (s\<lparr>hl_sessions := t'\<rparr>) = tally s" "tally (s\<lparr>hl_frames := fs\<rparr>) = tally s" "tally (s\<lparr>hl_next_sweep_ns := t\<rparr>) = tally s"
  "tally (s\<lparr>hl_observed_depth := n\<rparr>) = tally s"
  by (simp_all add: tally_def observe_depth_def note_cadence_def note_sequence_def note_depth_def Let_def split: prod.split)

lemma tally_metrics [simp]: "tally (s\<lparr>hl_metrics := m\<rparr>) = (m_chunks m, m_event_drops m, hl_events s)"
  by (simp add: tally_def)

lemma emit_events_keep:
  assumes "kept io P" "P (hl_frames s) (tally s)"
  shows "P (hl_frames (foldl (emit_event io) s evs)) (tally (foldl (emit_event io) s evs))"
  using assms(2)
proof (induction evs arbitrary: s)
  case (Cons v evs)
  show ?case
    using Cons.IH [of "emit_event io s v"] keptD(3) [OF assms(1) Cons.prems, of v] by (simp add: emit_tally)
qed simp

lemma hot_sweep_keeps:
  assumes "kept io P" "P (hl_frames s) (tally s)" "hot_sweep io cfg now s = Some s'"
  shows "P (hl_frames s') (tally s')"
proof -
  have "P (hl_frames (foldl (emit_event io) (s\<lparr>hl_sessions := t\<rparr>) evs)) (tally (foldl (emit_event io) (s\<lparr>hl_sessions := t\<rparr>) evs))" for t evs
    by (rule emit_events_keep [OF assms(1)]) (simp add: assms(2))
  then show ?thesis using assms(2,3) by (auto simp: hot_sweep_def split: if_splits bind_splits)
qed

lemma hot_frame_keeps:
  assumes "kept io P" "P (hl_frames s) (tally s)" "hot_frame io cfg tk f s = Some s'"
  shows "P (hl_frames s') (tally s')"
proof -
  have sized: "P (fst (io_size io (hl_frames s))) (tally s)" by (rule keptD(2) [OF assms(1,2)])
  show ?thesis
    using assms(3) sized keptD(3) [OF assms(1) sized]
    by (auto simp: hot_frame_def assemble_frame_def Let_def emit_tally tally_def [symmetric]
        split: prod.splits option.splits bind_splits)
qed

lemma hot_turn_keeps:
  assumes "kept io P" "P (hl_frames s) (tally s)" "hot_turn io cfg tk s = Some (s', go)"
  shows "P (hl_frames s') (tally s')"
proof (cases "hc_deadline_ns cfg \<noteq> 0 \<and> tk_loop_ns tk > hc_deadline_ns cfg")
  case True
  then show ?thesis using assms(2,3) by (auto simp: hot_turn_def Let_def)
next
  case False
  then obtain s1 where s1: "hot_sweep io cfg (tk_loop_ns tk) (observe_depth (tk_loop_ns tk) s) = Some s1"
      "(let (q, popped) = io_pop io (hl_frames s1); s = s1\<lparr>hl_frames := q\<rparr>
        in case popped of None \<Rightarrow> Some (s\<lparr>hl_observed_depth := 0\<rparr>, True)
           | Some f \<Rightarrow> map_option (\<lambda>s. (s, True)) (hot_frame io cfg tk f s)) = Some (s', go)"
    using assms(3) by (auto simp: hot_turn_def Let_def split: bind_splits)
  define s2 where "s2 = s1\<lparr>hl_frames := fst (io_pop io (hl_frames s1))\<rparr>"
  have "P (hl_frames s1) (tally s1)" using hot_sweep_keeps [OF assms(1) _ s1(1)] assms(2) by simp
  then have p: "P (hl_frames s2) (tally s2)" using keptD(1) [OF assms(1)] by (simp add: s2_def)
  show ?thesis
    using s1(2) p hot_frame_keeps [OF assms(1) p] by (auto simp: Let_def s2_def split: prod.splits option.splits)
qed

lemma hot_turns_keep:
  assumes "kept io P" "P (hl_frames s) (tally s)" "hot_turns io cfg tks s = Some s'"
  shows "P (hl_frames s') (tally s')"
  using assms(2,3)
proof (induction tks arbitrary: s)
  case (Cons tk tks)
  then obtain s1 go where t: "hot_turn io cfg tk s = Some (s1, go)" "(if go then hot_turns io cfg tks s1 else Some s1) = Some s'"
    by (auto split: bind_splits)
  have "P (hl_frames s1) (tally s1)" by (rule hot_turn_keeps [OF assms(1) Cons.prems(1) t(1)])
  then show ?case using Cons.IH t(2) by (auto split: if_splits)
qed simp

lemma hot_loop_keeps:
  assumes "kept io P" "P frames (m_chunks m, m_event_drops m, events)" "hot_loop io opt t0 t1 tks t2 frames events m = Some s"
  shows "P (hl_frames s) (tally s)"
proof -
  obtain s1 where s1: "hot_turns io (hot_configure opt t0) tks (hot_start opt frames events m t1) = Some s1" "hot_finish io t2 s1 = Some s"
    using assms(3) by (auto simp: hot_loop_def split: bind_splits)
  have "P (hl_frames s1) (tally s1)"
    by (rule hot_turns_keep [OF assms(1) _ s1(1)]) (use assms(2) in \<open>simp add: hot_start_def tally_def\<close>)
  then have "P (hl_frames (foldl (emit_event io) (s1\<lparr>hl_sessions := t\<rparr>) evs)) (tally (foldl (emit_event io) (s1\<lparr>hl_sessions := t\<rparr>) evs))" for t evs
    by (intro emit_events_keep [OF assms(1)]) simp
  then show ?thesis using s1(2) by (auto simp: hot_finish_def Let_def tally_def [symmetric] split: bind_splits)
qed

text \<open>The case of an invariant of the event side alone.\<close>

lemma hot_loop_keeps_events:
  assumes "\<And>e v. P e \<Longrightarrow> P (fst (io_push io e v))" "P events" "hot_loop io opt t0 t1 tks t2 frames events m = Some s"
  shows "P (hl_events s)"
proof -
  have "kept io (\<lambda>_ x. P (snd (snd x)))" using assms(1) by (simp add: kept_def push_tally_def case_prod_beta)
  from hot_loop_keeps [OF this _ assms(3)] assms(2) show ?thesis by (simp add: tally_def)
qed

section \<open>The publisher's side\<close>

definition published :: "event_side \<Rightarrow> u64" where
  "published e = of_nat (length (pb_accepted (fst e)))"

definition publisher_ok :: "event_side \<Rightarrow> bool" where
  "publisher_ok e \<longleftrightarrow> pub_inv [] (fst e) \<and> length (rg_slots (pb_events (fst e))) = kEventRingCapacity"

lemma publish_turns_keep:
  assumes "pub_inv evs s"
  shows "pub_inv evs (fst (publish_turns tks s)) \<and> length (rg_slots (pb_events (fst (publish_turns tks s)))) = length (rg_slots (pb_events s))"
  using assms
proof (induction tks arbitrary: s)
  case (Cons tk tks)
  obtain s1 go where t: "publish_turn tk s = (s1, go)" by (cases "publish_turn tk s")
  show ?case using Cons.IH [of s1] publish_turn_inv [OF Cons.prems t] t by simp
qed simp

lemma publish_turns_accepted:
  "\<forall>tk \<in> set tks. pk_pushed tk = [] \<Longrightarrow> pb_accepted (fst (publish_turns tks s)) = pb_accepted s"
proof (induction tks arbitrary: s)
  case (Cons tk tks)
  obtain s1 go where t: "publish_turn tk s = (s1, go)" by (cases "publish_turn tk s")
  then have "pb_accepted s1 = pb_accepted s"
    using Cons.prems by (auto simp: publish_turn_def Let_def split: prod.splits option.splits if_splits)
  then show ?case using Cons.IH [of s1] Cons.prems t by simp
qed simp

lemma push_counted: "published (fst (push_to_publisher e v)) = published e + (if snd (push_to_publisher e v) = KOk then 1 else 0)"
proof -
  obtain p later where r: "publisher_runs e = (p, later)" by (cases "publisher_runs e")
  then have a: "pb_accepted p = pb_accepted (fst e)"
    using publish_turns_accepted by (cases e rule: publisher_runs.cases) (auto simp: running_tick_def)
  obtain q x where "try_push (pb_events p) v = (q, x)" by (cases "try_push (pb_events p) v")
  then show ?thesis by (cases x) (simp_all add: push_to_publisher_def published_def push_event_def r a)
qed

lemma push_publisher_ok: "publisher_ok e \<Longrightarrow> publisher_ok (fst (push_to_publisher e v))"
proof -
  assume ok: "publisher_ok e"
  obtain p later where r: "publisher_runs e = (p, later)" by (cases "publisher_runs e")
  then have "pub_inv [] p" "length (rg_slots (pb_events p)) = kEventRingCapacity"
    using ok publish_turns_keep by (cases e rule: publisher_runs.cases; auto simp: publisher_ok_def)+
  then show ?thesis using push_event_inv [of "[]" p v] by (simp add: publisher_ok_def push_to_publisher_def r)
qed

lemma start_publisher_ok: "publisher_ok (start_publisher, turns)" "published (start_publisher, turns) = 0"
  by (simp_all add: publisher_ok_def published_def start_publisher_def publish_start_def pub_inv_def printed_def op_simps)

text \<open>The publisher joined: with a turn for every slot of the ring and one more it has ended, and printed
  what it accepted.\<close>

lemma joined:
  assumes "publisher_ok e" "kEventRingCapacity < mw_drain w"
  shows "\<exists>out. join_publisher w e = Some out \<and> printed out = map event_line (pb_accepted (fst e)) \<and> out \<noteq> [] \<and> last out = Flushed"
proof -
  have inv: "pub_inv [] (fst e)" and n: "length (rg_slots (pb_events (fst e))) = kEventRingCapacity"
    using assms(1) by (simp_all add: publisher_ok_def)
  then have "length (ring_items (pb_events (fst e))) < mw_drain w"
    using ring_items_room [of "pb_events (fst e)"] assms(2) by (simp add: pub_inv_def)
  from publish_drain [OF inv this] obtain s where s: "publish_turns (replicate (mw_drain w) done_tick) (fst e) = (s, True)"
      "pub_inv [] s" "ring_items (pb_events s) = []" "pb_out s \<noteq> []" "last (pb_out s) = Flushed"
    unfolding done_tick_def by blast
  moreover have "pb_accepted s = pb_accepted (fst e)"
    using publish_turns_accepted [of "replicate (mw_drain w) done_tick" "fst e"] s(1) by (simp add: done_tick_def)
  ultimately show ?thesis by (simp add: join_publisher_def pub_inv_def)
qed

lemma join_start: "0 < mw_drain w \<Longrightarrow> join_publisher w (start_publisher, turns) = Some [Flushed]"
  by (cases "mw_drain w")
    (simp_all add: join_publisher_def publish_turn_def done_tick_def start_publisher_def publish_start_def ring_empty_def
      ring_size_def produced_def consumed_def ring_new_def)

section \<open>The two ways of feeding the hot loop\<close>

interpretation shm: hot_queues shm_io "frames_ok c" "\<lambda>q. consumed (fst q)" published c for c
proof (unfold_locales, goal_cases)
  case (1 q)
  then show ?case using shared.pop_ok [of c q] by (simp add: shm_io_def)
next
  case (2 q f)
  then show ?case using shared.pop_frame [of c q f] by (simp add: shm_io_def)
next
  case (3 q)
  then show ?case using shared.size_ok [of c q] by (simp add: shm_io_def)
next
  case (4 e v)
  show ?case using push_counted by (simp add: shm_io_def)
qed

definition reader_ok :: "nat \<Rightarrow> reader_side \<Rightarrow> bool" where
  "reader_ok c q \<longleftrightarrow> frames_ok c (in_queue (fst q), snd q)"

lemma take_frame_queue:
  "\<exists>f'. in_queue (take_frame try_push now st f) = fst (try_push (in_queue st) f') \<and> (frame_ok f \<longrightarrow> frame_ok f')"
proof -
  obtain st1 f1 where s: "stamp_frame now st f = (st1, f1)" by (cases "stamp_frame now st f")
  then have "in_queue st1 = in_queue st" "frame_ok f \<longrightarrow> frame_ok f1"
    by (auto simp: stamp_frame_def frame_ok_def split: if_splits)
  then show ?thesis
    using s by (intro exI [of _ f1]) (simp add: take_frame_def offer_frame_def Let_def split: prod.split)
qed

lemma take_frames_ok:
  assumes "frames_ok c (in_queue st, later)" "\<forall>f \<in> set fs. frame_ok f"
  shows "frames_ok c (in_queue (foldl (take_frame try_push now) st fs), later)
    \<and> consumed (in_queue (foldl (take_frame try_push now) st fs)) = consumed (in_queue st)"
  using assms
proof (induction fs arbitrary: st)
  case (Cons f fs)
  obtain f' where f: "in_queue (take_frame try_push now st f) = fst (try_push (in_queue st) f')" "frame_ok f'"
    using take_frame_queue Cons.prems(2) by fastforce
  then have "frames_ok c (in_queue (take_frame try_push now st f), later)"
      "consumed (in_queue (take_frame try_push now st f)) = consumed (in_queue st)"
    using arrivals_ok [of "in_queue st" "[f']"] Cons.prems(1) by (simp_all add: frames_ok_def)
  then show ?case using Cons.IH Cons.prems(2) by simp
qed simp

lemma reader_runs_ok:
  assumes "reader_ok c q"
  shows "reader_ok c (reader_runs now q) \<and> consumed (in_queue (fst (reader_runs now q))) = consumed (in_queue (fst q))"
proof (cases "(now, q)" rule: reader_runs.cases)
  case (2 now' st fs later)
  have "frames_ok c (in_queue st, later)" "\<forall>f \<in> set fs. frame_ok f" using assms 2 by (simp_all add: reader_ok_def frames_ok_def)
  from take_frames_ok [OF this] 2 show ?thesis by (simp add: reader_ok_def)
qed (use assms in simp)

interpretation uds: hot_queues "uds_io now" "reader_ok c" "\<lambda>q. consumed (in_queue (fst q))" published c for now c
proof (unfold_locales, goal_cases)
  case (1 q)
  obtain st later where a: "reader_runs now q = (st, later)" by (cases "reader_runs now q")
  obtain r x where p: "try_pop (in_queue st) = (r, x)" by (cases "try_pop (in_queue st)")
  show ?case
    using reader_runs_ok [OF 1, of now] pop_ring(1) [of c "in_queue st" later] consumed_pop [of "in_queue st"]
    by (simp add: uds_io_def a p reader_ok_def)
next
  case (2 q f)
  obtain st later where a: "reader_runs now q = (st, later)" by (cases "reader_runs now q")
  then show ?case
    using reader_runs_ok [OF 2(1), of now] pop_ring(2) [of c "in_queue st" later f] 2(2)
    by (simp add: uds_io_def reader_ok_def split: prod.splits)
next
  case (3 q)
  obtain st later where a: "reader_runs now q = (st, later)" by (cases "reader_runs now q")
  then show ?case
    using reader_runs_ok [OF 3, of now] pop_ring(3) [of c "in_queue st" later] by (simp add: uds_io_def reader_ok_def)
next
  case (4 e v)
  show ?case using push_counted by (simp add: uds_io_def)
qed

section \<open>The two branches of main\<close>

lemma run_shm_loop:
  assumes "sa_open (mw_shm w)" "sa_truncate (mw_shm w)" "sa_map (mw_shm w)"
    "hot_loop shm_io opt (mw_config_ns w) (mw_start_ns w) (mw_ticks w) (mw_end_ns w)
      (ring_new kFrameRingCapacity zero_frame, mw_arrivals w) (start_publisher, mw_turns w) m = Some s"
  shows "run_shm opt w m files = Some (Inr (hl_metrics s, hl_events s), files\<lparr>mf_shm := (mf_shm files)(co_frame_shm opt := None)\<rparr>)
    \<and> publisher_ok (hl_events s)"
proof -
  have "publisher_ok (hl_events s)"
    by (rule hot_loop_keeps_events [where P = publisher_ok, OF _ start_publisher_ok(1) assms(4)]) (simp add: shm_io_def push_publisher_ok)
  then show ?thesis
    using assms by (simp add: run_shm_def Let_def shm_create_def shm_destroy_def frame_params_ring)
qed

lemma run_shm_ok:
  assumes "sa_open (mw_shm w)" "sa_truncate (mw_shm w)" "sa_map (mw_shm w)"
    "co_max_sessions opt < kTombstone" "\<forall>fs \<in> set (mw_arrivals w). \<forall>f \<in> set fs. frame_ok f" "metrics_new = Some m"
  shows "\<exists>m' e. run_shm opt w m files = Some (Inr (m', e), files\<lparr>mf_shm := (mf_shm files)(co_frame_shm opt := None)\<rparr>)
    \<and> publisher_ok e \<and> m_chunks m' = published e + m_event_drops m'"
proof -
  have ok: "frames_ok kFrameRingCapacity (ring_new kFrameRingCapacity zero_frame, mw_arrivals w)"
    by (rule frames_ok_new [OF valid_capacities(1) assms(5)])
  obtain s where s: "hot_loop shm_io opt (mw_config_ns w) (mw_start_ns w) (mw_ticks w) (mw_end_ns w)
        (ring_new kFrameRingCapacity zero_frame, mw_arrivals w) (start_publisher, mw_turns w) m = Some s"
      "m_chunks (hl_metrics s) = published (hl_events s) + m_event_drops (hl_metrics s)"
    using shm.hot_loop_inv [OF ok assms(4) metrics_new_zero(1-4) [OF assms(6)], of "mw_config_ns w" "mw_start_ns w" "mw_ticks w"
        "mw_end_ns w" "(start_publisher, mw_turns w)"] start_publisher_ok(2) [of "mw_turns w"] by auto
  then show ?thesis using run_shm_loop [OF assms(1-3) s(1)] by blast
qed

definition reader_start :: "hot_metrics \<Rightarrow> audio_frame ring ingest" where
  "reader_start m = \<lparr>in_queue = ring_new kFrameRingCapacity zero_frame, in_full_drops = m_ring_full_drops m, in_clock = 0\<rparr>"

lemma reader_start_ok:
  "\<forall>fs \<in> set arrivals. \<forall>f \<in> set fs. frame_ok f \<Longrightarrow> reader_ok kFrameRingCapacity (reader_start m, arrivals)"
  using frames_ok_new [OF valid_capacities(1)] by (simp add: reader_ok_def reader_start_def)

lemma run_uds_loop:
  assumes "uds_start (mw_uds w) (co_uds_path opt) (mf_sockets files) = (sockets, failed)"
    "hot_loop (uds_io (mw_reader_clock w)) opt (mw_config_ns w) (mw_start_ns w) (if failed = None then mw_ticks w else []) (mw_end_ns w)
      (reader_start m, if failed = None then mw_arrivals w else []) (start_publisher, mw_turns w) m = Some s"
  shows "\<exists>shed. run_uds opt w m files = Some ((hl_metrics s)\<lparr>m_ring_full_drops := shed\<rparr>, hl_events s,
      files\<lparr>mf_sockets := uds_stop (co_uds_path opt) sockets\<rparr>)
    \<and> publisher_ok (hl_events s)"
proof -
  have "publisher_ok (hl_events s)"
    by (rule hot_loop_keeps_events [where P = publisher_ok, OF _ start_publisher_ok(1) assms(2)]) (simp add: uds_io_def push_publisher_ok)
  then show ?thesis
    using assms
    by (intro exI [of _ "in_full_drops (foldl (take_frame try_push (mw_reader_clock w)) (fst (hl_frames s))
          (if failed = None then mw_late w else []))"]) (simp add: run_uds_def reader_start_def Let_def)
qed

lemma run_uds_ok:
  assumes "co_max_sessions opt < kTombstone" "\<forall>fs \<in> set (mw_arrivals w). \<forall>f \<in> set fs. frame_ok f" "metrics_new = Some m"
  shows "\<exists>m' e files'. run_uds opt w m files = Some (m', e, files')
    \<and> publisher_ok e \<and> m_chunks m' = published e + m_event_drops m'"
proof -
  obtain sockets failed where u: "uds_start (mw_uds w) (co_uds_path opt) (mf_sockets files) = (sockets, failed)"
    by (cases "uds_start (mw_uds w) (co_uds_path opt) (mf_sockets files)")
  have ok: "reader_ok kFrameRingCapacity (reader_start m, if failed = None then mw_arrivals w else [])"
    using assms(2) by (intro reader_start_ok) (cases failed, simp_all)
  obtain s where s: "hot_loop (uds_io (mw_reader_clock w)) opt (mw_config_ns w) (mw_start_ns w) (if failed = None then mw_ticks w else [])
        (mw_end_ns w) (reader_start m, if failed = None then mw_arrivals w else []) (start_publisher, mw_turns w) m = Some s"
      "m_chunks (hl_metrics s) = published (hl_events s) + m_event_drops (hl_metrics s)"
    using uds.hot_loop_inv [OF ok assms(1) metrics_new_zero(1-4) [OF assms(3)], of "mw_reader_clock w" "mw_config_ns w" "mw_start_ns w"
        "if failed = None then mw_ticks w else []" "mw_end_ns w" "(start_publisher, mw_turns w)"] start_publisher_ok(2) [of "mw_turns w"]
    by (auto simp: reader_start_def)
  then show ?thesis using run_uds_loop [OF u s(1)] by fastforce
qed

text \<open>A run that never turns: nothing is counted and nothing is handed to the publisher.\<close>

lemma hot_loop_no_turns:
  assumes "co_max_sessions opt < kTombstone"
  obtains s where "hot_loop io opt t0 t1 [] t2 frames events m = Some s" "hl_frames s = frames" "hl_events s = events"
    "m_frames (hl_metrics s) = m_frames m" "m_chunks (hl_metrics s) = m_chunks m"
proof -
  define t where "t = table_new (co_max_sessions opt) (hot_chunker opt)"
  have "table_inv t" using table_safe_new [OF assms] by (simp add: t_def table_safe_def table_ok_def)
  then obtain t' evs where f: "flush_all t t2 = Some (t', evs)" "swept ss_active t2 t t' evs" using flush_all_ok by blast
  have "filter ss_active (st_sessions t) = []" by (simp add: t_def table_new_def Let_def session_new_def)
  then have "evs = []" using f(2) by (simp add: swept_def)
  then show ?thesis using f(1) that
    by (simp add: hot_loop_def hot_finish_def hot_start_def t_def)
qed

text \<open>The end of \<open>main\<close>, when the metrics and the publisher are those of such a run.\<close>

lemma close_main_ok:
  assumes "publisher_ok e" "kEventRingCapacity < mw_drain w"
  shows "\<exists>r. close_main opt w m e = Some r \<and> mr_code r = 0
    \<and> mr_stderr r = report m (co_frame_ms opt) (if co_uds_path opt = [] then ''shm'' else ''uds'')
    \<and> mr_csv r = dump_csv (mw_can_open w) opt m
    \<and> printed (mr_stdout r) = map event_line (pb_accepted (fst e)) \<and> mr_stdout r \<noteq> [] \<and> last (mr_stdout r) = Flushed"
  using joined [OF assms] by (auto simp: close_main_def)

section \<open>Properties\<close>

text \<open>A run of the consumer ends well and its output adds up: when the shared-memory segment can be
  created, or with the socket in any case, whatever frames arrive and however the threads interleave,
  \<open>main\<close> returns 0 once the publisher has had a turn per slot of the event ring and one more, the publisher
  has printed exactly one line per chunk it accepted and flushed last, and the chunks of the report and
  of the CSV files are the printed lines plus the counted drops.\<close>

theorem consumer_reports_every_chunk:
  assumes "consumer_parse_args args = Some opt" "co_max_sessions opt < kTombstone"
    "\<forall>fs \<in> set (mw_arrivals w). \<forall>f \<in> set fs. frame_ok f" "kEventRingCapacity < mw_drain w"
    "co_uds_path opt \<noteq> [] \<or> sa_open (mw_shm w) \<and> sa_truncate (mw_shm w) \<and> sa_map (mw_shm w)"
  shows "\<exists>r files' m evs. consumer_main argv args w files = Some (r, files') \<and> mr_code r = 0
    \<and> mr_stderr r = report m (co_frame_ms opt) (if co_uds_path opt = [] then ''shm'' else ''uds'')
    \<and> mr_csv r = dump_csv (mw_can_open w) opt m
    \<and> printed (mr_stdout r) = map event_line evs \<and> mr_stdout r \<noteq> [] \<and> last (mr_stdout r) = Flushed
    \<and> m_chunks m = of_nat (length evs) + m_event_drops m"
proof -
  obtain m where m: "metrics_new = Some m" using metrics_new_ok by blast
  have close: "\<exists>r. close_main opt w m' e = Some r \<and> mr_code r = 0
      \<and> mr_stderr r = report m' (co_frame_ms opt) (if co_uds_path opt = [] then ''shm'' else ''uds'')
      \<and> mr_csv r = dump_csv (mw_can_open w) opt m'
      \<and> printed (mr_stdout r) = map event_line (pb_accepted (fst e)) \<and> mr_stdout r \<noteq> [] \<and> last (mr_stdout r) = Flushed
      \<and> m_chunks m' = of_nat (length (pb_accepted (fst e))) + m_event_drops m'"
    if "publisher_ok e" "m_chunks m' = published e + m_event_drops m'" for m' e
    using close_main_ok [OF that(1) assms(4)] that(2) unfolding published_def by blast
  show ?thesis
  proof (cases "co_uds_path opt = []")
    case True
    then have "sa_open (mw_shm w)" "sa_truncate (mw_shm w)" "sa_map (mw_shm w)" using assms(5) by simp_all
    from run_shm_ok [OF this assms(2,3) m, of files] close True show ?thesis
      by (fastforce simp: consumer_main_def assms(1) m)
  next
    case False
    from run_uds_ok [OF assms(2,3) m, of files] close False show ?thesis
      by (fastforce simp: consumer_main_def assms(1) m)
  qed
qed

definition sample_world :: main_world where
  "sample_world = \<lparr>mw_config_ns = 5, mw_start_ns = 5,
     mw_ticks = [\<lparr>tk_loop_ns = 6, tk_dequeue_ns = 7, tk_done_ns = 8\<rparr>], mw_end_ns = 9, mw_arrivals = [[loud_frame 1]],
     mw_late = [], mw_reader_clock = (\<lambda>_. 5), mw_turns = [2], mw_drain = 5000, mw_shm = all_succeed,
     mw_uds = \<lparr>ua_socket = True, ua_bind = True, ua_listen = True\<rparr>, mw_can_open = (\<lambda>_. True), mw_layout_bytes = 200000\<rparr>"

theorem consumer_reports_every_chunk_witness:
  "\<exists>r files' (m :: hot_metrics) evs. consumer_main ''vhp'' [(KFrameShm, ''/f'')] sample_world \<lparr>mf_shm = Map.empty, mf_sockets = {}\<rparr> = Some (r, files')
    \<and> mr_code r = 0 \<and> printed (mr_stdout r) = map event_line evs \<and> m_chunks m = of_nat (length evs) + m_event_drops m"
proof -
  have opt: "consumer_parse_args [(KFrameShm, ''/f'')] = Some (consumer_defaults\<lparr>co_frame_shm := ''/f''\<rparr>)"
    by (simp add: consumer_parse_args_def)
  have max: "co_max_sessions (consumer_defaults\<lparr>co_frame_shm := ''/f''\<rparr>) < kTombstone"
    by (simp add: consumer_defaults_def kTombstone_def)
  have w: "\<forall>fs \<in> set (mw_arrivals sample_world). \<forall>f \<in> set fs. frame_ok f" "kEventRingCapacity < mw_drain sample_world"
    "sa_open (mw_shm sample_world) \<and> sa_truncate (mw_shm sample_world) \<and> sa_map (mw_shm sample_world)"
    using sample_frames_ok by (simp_all add: sample_world_def kEventRingCapacity_def all_succeed_def)
  from consumer_reports_every_chunk [OF opt max w(1,2) disjI2 [OF w(3)], of "''vhp''" "\<lparr>mf_shm = Map.empty, mf_sockets = {}\<rparr>"]
  show ?thesis by blast
qed

text \<open>C9: A run of the consumer that cannot start: a segment that cannot be created gives status 1 and the
  error text, with the publisher joined, nothing printed, and no segment left under the name unless the
  mapping is what failed; a socket that cannot be listened on ends an empty run with status 0, a report
  of no frames and nothing printed.\<close>

theorem consumer_failures:
  assumes "consumer_parse_args args = Some opt" "co_max_sessions opt < kTombstone" "kEventRingCapacity < mw_drain w"
  shows "(co_uds_path opt = [] \<and> \<not> (sa_open (mw_shm w) \<and> sa_truncate (mw_shm w) \<and> sa_map (mw_shm w)) \<longrightarrow>
      (\<exists>text files'. consumer_main argv args w files
          = Some (\<lparr>mr_code = 1, mr_stdout = [Flushed], mr_stderr = ''[vhp] fatal: '' @ text @ newline, mr_csv = []\<rparr>, files')
        \<and> (mf_shm files' (co_frame_shm opt) = None \<longleftrightarrow> \<not> (sa_open (mw_shm w) \<and> sa_truncate (mw_shm w)))))
    \<and> (co_uds_path opt \<noteq> [] \<and> snd (uds_start (mw_uds w) (co_uds_path opt) (mf_sockets files)) \<noteq> None \<longrightarrow>
      (\<exists>r files' m. consumer_main argv args w files = Some (r, files') \<and> mr_code r = 0 \<and> printed (mr_stdout r) = []
        \<and> mr_stderr r = report m (co_frame_ms opt) ''uds'' \<and> m_frames m = 0 \<and> m_chunks m = 0))"
    (is "?unmapped \<and> ?unheard")
proof
  obtain m where m: "metrics_new = Some m" using metrics_new_ok by blast
  have flushed: "join_publisher w (start_publisher, mw_turns w) = Some [Flushed]" using join_start assms(3) by simp
  show ?unmapped
    using assms(3) by (auto simp: consumer_main_def assms(1) m run_shm_def shm_create_def Let_def flushed split: option.splits)
  show ?unheard
  proof
    assume u: "co_uds_path opt \<noteq> [] \<and> snd (uds_start (mw_uds w) (co_uds_path opt) (mf_sockets files)) \<noteq> None"
    then obtain sockets call where sc: "uds_start (mw_uds w) (co_uds_path opt) (mf_sockets files) = (sockets, Some call)"
      by (cases "uds_start (mw_uds w) (co_uds_path opt) (mf_sockets files)") auto
    obtain s where s: "hot_loop (uds_io (mw_reader_clock w)) opt (mw_config_ns w) (mw_start_ns w) [] (mw_end_ns w)
          (\<lparr>in_queue = ring_new kFrameRingCapacity zero_frame, in_full_drops = m_ring_full_drops m, in_clock = 0\<rparr>, [])
          (start_publisher, mw_turns w) m = Some s"
        "hl_events s = (start_publisher, mw_turns w)" "m_frames (hl_metrics s) = m_frames m" "m_chunks (hl_metrics s) = m_chunks m"
      using hot_loop_no_turns [OF assms(2)] by metis
    show "\<exists>r files' m. consumer_main argv args w files = Some (r, files') \<and> mr_code r = 0 \<and> printed (mr_stdout r) = []
        \<and> mr_stderr r = report m (co_frame_ms opt) ''uds'' \<and> m_frames m = 0 \<and> m_chunks m = 0"
      using u s metrics_new_zero(1,3) [OF m] assms(3)
      by (auto simp: consumer_main_def assms(1) m run_uds_def sc close_main_def flushed printed_def
          intro!: exI [of _ "(hl_metrics s)\<lparr>m_ring_full_drops := in_full_drops (fst (hl_frames s))\<rparr>"])
  qed
qed

theorem consumer_failures_witness:
  "\<exists>r files' m. consumer_main ''vhp'' [(KUds, ''/s'')] (sample_world\<lparr>mw_uds := \<lparr>ua_socket = True, ua_bind = False, ua_listen = True\<rparr>\<rparr>)
      \<lparr>mf_shm = Map.empty, mf_sockets = {}\<rparr> = Some (r, files')
    \<and> mr_code r = 0 \<and> printed (mr_stdout r) = [] \<and> mr_stderr r = report m 20 ''uds'' \<and> m_frames m = 0"
proof -
  have "consumer_parse_args [(KUds, ''/s'')] = Some (consumer_defaults\<lparr>co_uds_path := ''/s''\<rparr>)"
    by (simp add: consumer_parse_args_def)
  from consumer_failures [OF this, of "sample_world\<lparr>mw_uds := \<lparr>ua_socket = True, ua_bind = False, ua_listen = True\<rparr>\<rparr>" "''vhp''"
      "\<lparr>mf_shm = Map.empty, mf_sockets = {}\<rparr>"]
  show ?thesis
    by (auto simp: consumer_defaults_def kTombstone_def sample_world_def kEventRingCapacity_def uds_start_def)
qed

text \<open>C10: The socket file comes and goes with the reader when its path fits the address: after \<open>start\<close> and
  \<open>stop\<close> nothing is left and the next start finds the name free. A longer path is cut by \<open>strncpy\<close> while
  \<open>unlink\<close> gets all of it, so the cut name stays behind and every later start fails to bind.\<close>

theorem socket_file_life_cycle:
  assumes "uds_start sys path files = (files', None)"
  shows "if length path \<le> 107
    then uds_stop path files' = files - {path} \<and> snd (uds_start sys path (uds_stop path files')) = None
    else take 107 path \<in> uds_stop path files' \<and> snd (uds_start sys path (uds_stop path files')) = Some ''bind''"
proof -
  have f: "files' = insert (sun_path path) (files - {path})" "ua_socket sys" "ua_bind sys" "ua_listen sys"
    using assms by (auto simp: uds_start_def Let_def split: if_splits)
  show ?thesis
  proof (cases "length path \<le> 107")
    case True
    then have "sun_path path = path" by (simp add: sun_path_def)
    then show ?thesis using True f by (auto simp: uds_stop_def uds_start_def)
  next
    case False
    then have "length (sun_path path) \<noteq> length path" by (simp add: sun_path_def)
    then have "sun_path path \<noteq> path" by metis
    then show ?thesis using False f by (auto simp: uds_stop_def uds_start_def sun_path_def)
  qed
qed

theorem socket_file_life_cycle_witness:
  "let path = replicate 108 (CHR ''x''); sys = \<lparr>ua_socket = True, ua_bind = True, ua_listen = True\<rparr>;
     files = fst (uds_start sys path {})
   in snd (uds_start sys path (uds_stop path files)) = Some ''bind''"
proof -
  define path where "path = replicate 108 (CHR ''x'')"
  define sys where "sys = \<lparr>ua_socket = True, ua_bind = True, ua_listen = True\<rparr>"
  have "uds_start sys path {} = (fst (uds_start sys path {}), None)" by (simp add: uds_start_def sys_def)
  from socket_file_life_cycle [OF this] show ?thesis unfolding path_def [symmetric] sys_def [symmetric]
    by (simp add: Let_def path_def)
qed

end
