(* ===== verification/Hot_Record.thy ===== *)
theory Hot_Record
  imports Hot_Props
begin

text \<open>
  The hot loop with a history: a log beside each queue (\<open>logged\<close>) does not change a run. \<open>recording\<close> writes
  down what each pop returned and each event the loop emitted, accepted or not. Forgetting the history
  gives the run on the queues themselves, so statements about the history are statements about the program's run. The frames of
  a run with the ticks of their turns (\<open>heard\<close>) are what the loop worked on.
\<close>

section \<open>Queues with a log\<close>

text \<open>A log beside each queue, kept with every pop, size and push by the functions given.\<close>

definition logged :: "('p \<Rightarrow> audio_frame option \<Rightarrow> 'p) \<Rightarrow> ('p \<Rightarrow> nat \<Rightarrow> 'p) \<Rightarrow> ('v \<Rightarrow> chunk_event \<Rightarrow> 'v)
    \<Rightarrow> ('q, 'e) hot_io \<Rightarrow> ('q \<times> 'p, 'e \<times> 'v) hot_io" where
  "logged popped sized pushed io =
    \<lparr>io_pop = (\<lambda>q. case io_pop io (fst q) of (q', x) \<Rightarrow> ((q', popped (snd q) x), x)),
     io_size = (\<lambda>q. case io_size io (fst q) of (q', n) \<Rightarrow> ((q', sized (snd q) n), n)),
     io_push = (\<lambda>e v. case io_push io (fst e) v of (e', r) \<Rightarrow> ((e', pushed (snd e) v), r))\<rparr>"

lemma logged_ops [simp]:
  "io_pop (logged popped sized pushed io) q
    = ((fst (io_pop io (fst q)), popped (snd q) (snd (io_pop io (fst q)))), snd (io_pop io (fst q)))"
  "io_size (logged popped sized pushed io) q
    = ((fst (io_size io (fst q)), sized (snd q) (snd (io_size io (fst q)))), snd (io_size io (fst q)))"
  "io_push (logged popped sized pushed io) e v
    = ((fst (io_push io (fst e) v), pushed (snd e) v), snd (io_push io (fst e) v))"
  by (simp_all add: logged_def case_prod_beta)

definition forget :: "('q \<times> 'p, 'e \<times> 'v) hot \<Rightarrow> ('q, 'e) hot" where
  "forget s = \<lparr>hl_frames = fst (hl_frames s), hl_events = fst (hl_events s), hl_metrics = hl_metrics s,
     hl_sessions = hl_sessions s, hl_prev_observation_ns = hl_prev_observation_ns s,
     hl_observed_depth = hl_observed_depth s, hl_next_sweep_ns = hl_next_sweep_ns s\<rparr>"

lemma forget_fields [simp]:
  "hl_frames (forget s) = fst (hl_frames s)" "hl_events (forget s) = fst (hl_events s)"
  "hl_metrics (forget s) = hl_metrics s" "hl_sessions (forget s) = hl_sessions s"
  "hl_prev_observation_ns (forget s) = hl_prev_observation_ns s" "hl_observed_depth (forget s) = hl_observed_depth s"
  "hl_next_sweep_ns (forget s) = hl_next_sweep_ns s"
  by (simp_all add: forget_def)

lemma forget_updates [simp]:
  "forget (s\<lparr>hl_frames := q\<rparr>) = (forget s)\<lparr>hl_frames := fst q\<rparr>"
  "forget (s\<lparr>hl_events := e\<rparr>) = (forget s)\<lparr>hl_events := fst e\<rparr>"
  "forget (s\<lparr>hl_metrics := m\<rparr>) = (forget s)\<lparr>hl_metrics := m\<rparr>"
  "forget (s\<lparr>hl_sessions := t\<rparr>) = (forget s)\<lparr>hl_sessions := t\<rparr>"
  "forget (s\<lparr>hl_prev_observation_ns := x\<rparr>) = (forget s)\<lparr>hl_prev_observation_ns := x\<rparr>"
  "forget (s\<lparr>hl_observed_depth := x\<rparr>) = (forget s)\<lparr>hl_observed_depth := x\<rparr>"
  "forget (s\<lparr>hl_next_sweep_ns := x\<rparr>) = (forget s)\<lparr>hl_next_sweep_ns := x\<rparr>"
  by (simp_all add: forget_def)

text \<open>One lemma per step of the loop, for any way of keeping the log.\<close>

named_theorems forgets "steps of the hot loop commute with forgetting the history"

locale log_keeping =
  fixes popped :: "'p \<Rightarrow> audio_frame option \<Rightarrow> 'p" and sized :: "'p \<Rightarrow> nat \<Rightarrow> 'p"
    and pushed :: "'v \<Rightarrow> chunk_event \<Rightarrow> 'v"
begin

lemma forget_emit [forgets]: "forget (emit_event (logged popped sized pushed io) s ev) = emit_event io (forget s) ev"
  by (simp add: emit_event_def Let_def split: prod.split)

lemma forget_emits [forgets]: "forget (foldl (emit_event (logged popped sized pushed io)) s evs) = foldl (emit_event io) (forget s) evs"
  by (induction evs arbitrary: s) (simp_all add: forgets)

lemma metrics_emits [forgets]:
  "hl_metrics (foldl (emit_event (logged popped sized pushed io)) s evs) = hl_metrics (foldl (emit_event io) (forget s) evs)"
  by (metis forget_emits forget_fields(3))

lemma forget_observe [forgets]: "forget (observe_depth t s) = observe_depth t (forget s)"
  by (simp add: observe_depth_def Let_def)

lemma forget_depth [forgets]: "forget (note_depth (logged popped sized pushed io) s) = note_depth io (forget s)"
  by (simp add: note_depth_def Let_def split: prod.split)

lemma forget_cadence [forgets]: "forget (note_cadence cfg t i s) = note_cadence cfg t i (forget s)"
  by (simp add: note_cadence_def Let_def)

lemma forget_sequence [forgets]: "forget (note_sequence q i s) = note_sequence q i (forget s)"
  by (simp add: note_sequence_def Let_def)

lemma forget_sweep [forgets]:
  "hot_sweep io cfg t (forget s) = map_option forget (hot_sweep (logged popped sized pushed io) cfg t s)"
  by (cases "expire_idle (hl_sessions s) t (hc_idle_ns cfg)") (auto simp: hot_sweep_def forgets)

lemma forget_assemble [forgets]:
  "assemble_frame io tk f i (forget s) = map_option forget (assemble_frame (logged popped sized pushed io) tk f i s)"
  by (cases "on_frame (ss_assembler (at_session s i)) f (tk_dequeue_ns tk)")
    (auto simp: assemble_frame_def Let_def forgets split: option.split)

lemma forget_frame [forgets]:
  "hot_frame io cfg tk f (forget s) = map_option forget (hot_frame (logged popped sized pushed io) cfg tk f s)"
proof -
  define s1 where "s1 = note_depth (logged popped sized pushed io) (on_metrics (note_transport (tk_dequeue_ns tk) f) s)"
  have s1: "note_depth io (on_metrics (note_transport (tk_dequeue_ns tk) f) (forget s)) = forget s1"
    by (simp add: s1_def forgets)
  show ?thesis
    unfolding hot_frame_def Let_def s1 unfolding s1_def [symmetric] forget_fields
    by (auto simp: forgets forget_assemble [symmetric] split: prod.split option.split)
qed

lemma forget_turn [forgets]:
  "hot_turn io cfg tk (forget s) = map_option (\<lambda>(s, go). (forget s, go)) (hot_turn (logged popped sized pushed io) cfg tk s)"
proof -
  define s1 where "s1 = observe_depth (tk_loop_ns tk) s"
  have s1: "observe_depth (tk_loop_ns tk) (forget s) = forget s1" by (simp add: s1_def forgets)
  show ?thesis
  proof (cases "hot_sweep (logged popped sized pushed io) cfg (tk_loop_ns tk) s1")
    case None
    then show ?thesis unfolding hot_turn_def Let_def s1 s1_def [symmetric] by (simp add: forgets)
  next
    case (Some s2)
    have f: "hot_frame io cfg tk f ((forget s2)\<lparr>hl_frames := q\<rparr>)
        = map_option forget (hot_frame (logged popped sized pushed io) cfg tk f (s2\<lparr>hl_frames := (q, l)\<rparr>))" for f q l
      using forget_frame [of io cfg tk f "s2\<lparr>hl_frames := (q, l)\<rparr>"] by simp
    show ?thesis
      unfolding hot_turn_def Let_def s1 s1_def [symmetric]
      by (simp add: forgets Some f [where l = "popped (snd (hl_frames s2)) (snd (io_pop io (fst (hl_frames s2))))"] option.map_comp comp_def
          case_prod_beta split: option.split)
  qed
qed

lemma forget_turns [forgets]: "hot_turns io cfg tks (forget s) = map_option forget (hot_turns (logged popped sized pushed io) cfg tks s)"
proof (induction tks arbitrary: s)
  case (Cons tk tks)
  then show ?case by (cases "hot_turn (logged popped sized pushed io) cfg tk s") (auto simp: forgets split: prod.split)
qed simp

lemma forget_finish [forgets]: "hot_finish io t (forget s) = map_option forget (hot_finish (logged popped sized pushed io) t s)"
  by (cases "flush_all (hl_sessions s) t") (auto simp: hot_finish_def forgets Let_def)

theorem hot_loop_logged:
  "hot_loop io opt t0 t1 tks t2 (fst q) (fst e) m = map_option forget (hot_loop (logged popped sized pushed io) opt t0 t1 tks t2 q e m)"
proof -
  have "hot_start opt (fst q) (fst e) m t1 = forget (hot_start opt q e m t1)" by (simp add: hot_start_def forget_def)
  then show ?thesis
    by (cases "hot_turns (logged popped sized pushed io) (hot_configure opt t0) tks (hot_start opt q e m t1)")
      (simp_all add: hot_loop_def forgets)
qed

end

section \<open>The history\<close>

type_synonym 'q logged_frames = "'q \<times> audio_frame option list"
type_synonym 'e logged_events = "'e \<times> chunk_event list"

definition recording :: "('q, 'e) hot_io \<Rightarrow> ('q logged_frames, 'e logged_events) hot_io" where
  "recording = logged (\<lambda>l x. l @ [x]) (\<lambda>l n. l) (\<lambda>l v. l @ [v])"

lemma recording_ops [simp]:
  "io_pop (recording io) q = ((fst (io_pop io (fst q)), snd q @ [snd (io_pop io (fst q))]), snd (io_pop io (fst q)))"
  "io_size (recording io) q = ((fst (io_size io (fst q)), snd q), snd (io_size io (fst q)))"
  "io_push (recording io) e v = ((fst (io_push io (fst e) v), snd e @ [v]), snd (io_push io (fst e) v))"
  by (simp_all add: recording_def)

interpretation history: log_keeping "\<lambda>l x. l @ [x]" "\<lambda>l n. l" "\<lambda>l v. l @ [v]" .

lemma hot_loop_recorded:
  "hot_loop io opt t0 t1 tks t2 (fst q) (fst e) m = map_option forget (hot_loop (recording io) opt t0 t1 tks t2 q e m)"
  unfolding recording_def by (rule history.hot_loop_logged)

section \<open>What a run heard\<close>

text \<open>The frames popped, each with the tick of its turn.\<close>

definition heard :: "audio_frame option list \<Rightarrow> tick list \<Rightarrow> (audio_frame \<times> tick) list" where
  "heard ps tks = concat (map (\<lambda>(p, tk). case p of None \<Rightarrow> [] | Some f \<Rightarrow> [(f, tk)]) (zip ps tks))"

lemma heard_Nil [simp]: "heard [] tks = []"
  by (simp add: heard_def)

lemma heard_append: "length ps = length tks \<Longrightarrow> heard (ps @ qs) (tks @ uks) = heard ps tks @ heard qs uks"
  by (simp add: heard_def)

lemma heard_ended: "length ps = length tks \<Longrightarrow> heard ps (tks @ uks) = heard ps tks"
  using heard_append [of ps tks "[]" uks] by simp

lemma heard_one [simp]: "heard [p] [tk] = (case p of None \<Rightarrow> [] | Some f \<Rightarrow> [(f, tk)])"
  by (simp add: heard_def)

section \<open>Taking a recorded run apart\<close>

lemma emit_history [simp]: "snd (hl_events (emit_event (recording io) s ev)) = snd (hl_events s) @ [ev]"
  by (simp add: emit_event_queues)

lemma emits_history [simp]: "snd (hl_events (foldl (emit_event (recording io)) s evs)) = snd (hl_events s) @ evs"
  by (induction evs arbitrary: s) simp_all

lemma sweep_frames: "hot_sweep io cfg t s = Some s' \<Longrightarrow> hl_frames s' = hl_frames s"
  by (auto simp: hot_sweep_def split: if_splits bind_splits)

lemma frame_history:
  "hot_frame (recording io) cfg tk f s = Some s' \<Longrightarrow> snd (hl_frames s') = snd (hl_frames s)"
  by (auto simp: hot_frame_def assemble_frame_def Let_def split: prod.splits option.splits bind_splits)

text \<open>A turn that goes on: the sweep, the pop and, if there is one, the frame.\<close>

definition next_frame :: "('q, 'e) hot_io \<Rightarrow> ('q logged_frames, 'v) hot \<Rightarrow> audio_frame option" where
  "next_frame io s = snd (io_pop io (fst (hl_frames s)))"

definition pop_frames :: "('q, 'e) hot_io \<Rightarrow> ('q logged_frames, 'v) hot \<Rightarrow> ('q logged_frames, 'v) hot" where
  "pop_frames io s = s\<lparr>hl_frames := (fst (io_pop io (fst (hl_frames s))), snd (hl_frames s) @ [next_frame io s])\<rparr>"

lemma recorded_turn:
  assumes "hot_turn (recording io) cfg tk s = Some (s', go)"
  shows "\<not> go \<Longrightarrow> s' = observe_depth (tk_loop_ns tk) s"
    "go \<Longrightarrow> \<exists>s1. hot_sweep (recording io) cfg (tk_loop_ns tk) (observe_depth (tk_loop_ns tk) s) = Some s1
      \<and> (case next_frame io s1 of None \<Rightarrow> s' = (pop_frames io s1)\<lparr>hl_observed_depth := 0\<rparr>
         | Some f \<Rightarrow> hot_frame (recording io) cfg tk f (pop_frames io s1) = Some s')"
  using assms
  by (auto simp: hot_turn_def Let_def next_frame_def pop_frames_def split: if_splits bind_splits option.splits)

lemma recorded_step:
  assumes "hot_turn (recording io) cfg tk s = Some (s', True)"
  obtains s1 where "hot_sweep (recording io) cfg (tk_loop_ns tk) (observe_depth (tk_loop_ns tk) s) = Some s1"
    "hl_frames s1 = hl_frames s" "snd (hl_frames s') = snd (hl_frames s) @ [next_frame io s1]"
    "case next_frame io s1 of None \<Rightarrow> s' = (pop_frames io s1)\<lparr>hl_observed_depth := 0\<rparr>
     | Some f \<Rightarrow> hot_frame (recording io) cfg tk f (pop_frames io s1) = Some s'"
proof -
  from recorded_turn(2) [OF assms TrueI] obtain s1 where
    s1: "hot_sweep (recording io) cfg (tk_loop_ns tk) (observe_depth (tk_loop_ns tk) s) = Some s1"
      "case next_frame io s1 of None \<Rightarrow> s' = (pop_frames io s1)\<lparr>hl_observed_depth := 0\<rparr>
       | Some f \<Rightarrow> hot_frame (recording io) cfg tk f (pop_frames io s1) = Some s'" by blast
  have "snd (hl_frames s') = snd (hl_frames s1) @ [next_frame io s1]"
    using s1(2) frame_history [of io cfg tk _ "pop_frames io s1" s'] by (auto simp: pop_frames_def split: option.splits)
  then show ?thesis using that s1 sweep_frames [OF s1(1)] by simp
qed

text \<open>
  Induction over the turns of a run, with the ticks of the turns that popped: a turn the deadline ends
  observes the depth and pops nothing.
\<close>

lemma recorded_turns:
  assumes run: "hot_turns (recording io) cfg tks s = Some s'"
    and start: "I past s" "length (snd (hl_frames s)) = length past"
    and stop: "\<And>past s t. I past s \<Longrightarrow> I past (observe_depth t s)"
    and turn: "\<And>past s tk s'. I past s \<Longrightarrow> length (snd (hl_frames s)) = length past
      \<Longrightarrow> hot_turn (recording io) cfg tk s = Some (s', True) \<Longrightarrow> I (past @ [tk]) s'"
  shows "\<exists>done rest. past @ tks = done @ rest \<and> length (snd (hl_frames s')) = length done \<and> I done s'"
  using run start
proof (induction tks arbitrary: past s)
  case Nil
  then show ?case by auto
next
  case (Cons tk tks)
  then obtain s1 go where s1: "hot_turn (recording io) cfg tk s = Some (s1, go)"
      "(if go then hot_turns (recording io) cfg tks s1 else Some s1) = Some s'"
    by (auto split: bind_splits)
  show ?case
  proof (cases go)
    case True
    then have t: "hot_turn (recording io) cfg tk s = Some (s1, True)" "hot_turns (recording io) cfg tks s1 = Some s'"
      using s1 by simp_all
    have "length (snd (hl_frames s1)) = length (past @ [tk])" by (rule recorded_step [OF t(1)]) (use Cons.prems(3) in simp)
    from Cons.IH [OF t(2) turn [OF Cons.prems(2,3) t(1)] this] show ?thesis by simp
  next
    case False
    then have "s' = observe_depth (tk_loop_ns tk) s" using recorded_turn(1) [OF s1(1)] s1(2) by simp
    then show ?thesis using stop [OF Cons.prems(2)] Cons.prems(3) by (intro exI [of _ past] exI [of _ "tk # tks"]) simp
  qed
qed

section \<open>The transport latencies\<close>

definition stamped :: "audio_frame \<times> tick \<Rightarrow> bool" where
  "stamped x \<longleftrightarrow> fh_t_produce_ns (hdr (fst x)) \<noteq> 0 \<and> fh_t_produce_ns (hdr (fst x)) \<le> tk_dequeue_ns (snd x)"

definition latency :: "audio_frame \<times> tick \<Rightarrow> u64" where
  "latency x = tk_dequeue_ns (snd x) - fh_t_produce_ns (hdr (fst x))"

lemma emit_transport [simp]: "m_transport (hl_metrics (emit_event io s ev)) = m_transport (hl_metrics s)"
  by (simp add: emit_event_def Let_def split: prod.split)

lemma emits_transport [simp]: "m_transport (hl_metrics (foldl (emit_event io) s evs)) = m_transport (hl_metrics s)"
  by (induction evs arbitrary: s) simp_all

lemma notes_transport [simp]:
  "m_transport (hl_metrics (observe_depth t s)) = m_transport (hl_metrics s)"
  "m_transport (hl_metrics (note_depth io s)) = m_transport (hl_metrics s)"
  "m_transport (hl_metrics (note_cadence cfg t i s)) = m_transport (hl_metrics s)"
  "m_transport (hl_metrics (note_sequence q i s)) = m_transport (hl_metrics s)"
  "m_transport (note_endpoint ss ev m) = m_transport m"
  by (simp_all add: observe_depth_def note_depth_def note_cadence_def note_sequence_def note_endpoint_def Let_def split: prod.split)

lemma sweep_transport:
  "hot_sweep io cfg t s = Some s' \<Longrightarrow> m_transport (hl_metrics s') = m_transport (hl_metrics s)"
  by (auto simp: hot_sweep_def split: if_splits bind_splits)

lemma frame_transport:
  "hot_frame io cfg tk f s = Some s' \<Longrightarrow> m_transport (hl_metrics s')
    = foldl hist_record (m_transport (hl_metrics s)) (map latency (filter stamped [(f, tk)]))"
  by (auto simp: hot_frame_def assemble_frame_def note_transport_def stamped_def latency_def Let_def
      split: prod.splits option.splits bind_splits)

lemma turns_transport:
  assumes "hot_turns (recording io) cfg tks s = Some s'" "snd (hl_frames s) = []"
  shows "m_transport (hl_metrics s')
    = foldl hist_record (m_transport (hl_metrics s)) (map latency (filter stamped (heard (snd (hl_frames s')) tks)))"
proof -
  define h where "h = m_transport (hl_metrics s)"
  define I where "I = (\<lambda>past (s :: ('a \<times> audio_frame option list, 'b \<times> chunk_event list) hot). m_transport (hl_metrics s)
    = foldl hist_record h (map latency (filter stamped (heard (snd (hl_frames s)) past))))"
  have "\<exists>done rest. [] @ tks = done @ rest \<and> length (snd (hl_frames s')) = length done \<and> I done s'"
  proof (rule recorded_turns [OF assms(1)])
    show "I [] s" "length (snd (hl_frames s)) = length []" using assms(2) by (simp_all add: I_def h_def)
    show "I past (observe_depth t s)" if "I past s" for past s t using that by (simp add: I_def)
    show "I (past @ [tk]) s2"
      if i: "I past s" "length (snd (hl_frames s)) = length past" "hot_turn (recording io) cfg tk s = Some (s2, True)" for past s tk s2
    proof -
      from recorded_step [OF i(3)] obtain s1 where
        s1: "hot_sweep (recording io) cfg (tk_loop_ns tk) (observe_depth (tk_loop_ns tk) s) = Some s1"
          "snd (hl_frames s2) = snd (hl_frames s) @ [next_frame io s1]"
          "case next_frame io s1 of None \<Rightarrow> s2 = (pop_frames io s1)\<lparr>hl_observed_depth := 0\<rparr>
           | Some f \<Rightarrow> hot_frame (recording io) cfg tk f (pop_frames io s1) = Some s2" by metis
      have "m_transport (hl_metrics s1) = m_transport (hl_metrics s)" using sweep_transport [OF s1(1)] by simp
      moreover have "m_transport (hl_metrics s2) = foldl hist_record (m_transport (hl_metrics s1))
          (map latency (filter stamped (heard [next_frame io s1] [tk])))"
        using s1(3) frame_transport [of "recording io" cfg tk _ "pop_frames io s1" s2]
        by (auto simp: pop_frames_def split: option.splits)
      ultimately show ?thesis using i(1,2) s1(2) by (simp add: I_def heard_append)
    qed
  qed
  then show ?thesis unfolding I_def h_def append_Nil using heard_ended by metis
qed

text \<open>The whole run: the histogram of the report is that of the latencies of the stamped frames heard.\<close>

definition transport_latencies :: "audio_frame option list \<Rightarrow> tick list \<Rightarrow> u64 list" where
  "transport_latencies ps tks = map latency (filter stamped (heard ps tks))"

lemma loop_transport:
  assumes "hot_loop (recording io) opt t0 t1 tks t2 (frames, []) events m = Some r"
  shows "m_transport (hl_metrics r) = foldl hist_record (m_transport m) (transport_latencies (snd (hl_frames r)) tks)"
proof -
  obtain s where s: "hot_turns (recording io) (hot_configure opt t0) tks (hot_start opt (frames, []) events m t1) = Some s"
      "hot_finish (recording io) t2 s = Some r"
    using assms by (auto simp: hot_loop_def split: bind_splits)
  have "hl_frames r = hl_frames s" "m_transport (hl_metrics r) = m_transport (hl_metrics s)"
    using s(2) by (auto simp: hot_finish_def Let_def split: bind_splits)
  then show ?thesis using turns_transport [OF s(1)] by (simp add: hot_start_def transport_latencies_def)
qed

lemma length_heard: "length (heard ps tks) \<le> length ps"
proof (induction ps arbitrary: tks)
  case (Cons p ps)
  then show ?case
    by (cases tks; cases p) (simp_all add: heard_def le_SucI)
qed simp

lemma length_latencies: "length (transport_latencies ps tks) \<le> length ps"
  using order_trans [OF length_filter_le length_heard] by (simp add: transport_latencies_def)

end
