(* ===== verification/Hot_Isolation.thy ===== *)
theory Hot_Isolation
  imports Hot_Record
begin

text \<open>
  Calls do not disturb each other: as long as the calls fit the table and none falls silent, each call's
  chunks over the whole run, the final flush included, are those a chunk assembler of its own would
  produce from that call's frames alone, however the frames of the calls are interleaved and whatever
  the queues do.
\<close>

section \<open>One admitted frame\<close>

text \<open>What a session remembers of its latest frame: when it was dequeued and its sequence number.\<close>

definition trail :: "session \<Rightarrow> u64 \<times> u64 option" where
  "trail ss = (ss_prev_frame_ns ss, if ss_have_last_seq ss then Some (ss_last_seq ss) else None)"

lemma trail_eqI:
  "ss_prev_frame_ns ss = ss_prev_frame_ns ss' \<Longrightarrow> ss_have_last_seq ss = ss_have_last_seq ss'
    \<Longrightarrow> ss_last_seq ss = ss_last_seq ss' \<Longrightarrow> trail ss = trail ss'"
  by (simp add: trail_def)

lemma trail_opened: "trail (opened_session ss sid now) = (0, None)"
  by (simp add: trail_def opened_session_def)

text \<open>What the sequence number \<open>seq\<close> after \<open>before\<close>, and a frame at \<open>now\<close> after one at \<open>prev\<close>, add to the metrics.\<close>

definition seq_gap :: "u64 option \<Rightarrow> u64 \<Rightarrow> u64" where
  "seq_gap before seq = (case before of None \<Rightarrow> 0 | Some q \<Rightarrow> if seq > q + 1 then seq - q - 1 else 0)"

definition deviation :: "u64 \<Rightarrow> u64 \<Rightarrow> u64 \<Rightarrow> u64 list" where
  "deviation nominal prev now = (if prev = 0 then []
     else [if now - prev > nominal then now - prev - nominal else nominal - (now - prev)])"

lemma acquire_admits:
  assumes "table_ok t" "view t sid \<noteq> None \<or> card (dom (view t)) < unat (st_max t)"
  shows "\<exists>t' i. acquire t sid now = (t', Some i) \<and> (view t sid = Some i \<or> view t sid = None \<and> i \<notin> live_set t)
    \<and> i < unat (st_max t) \<and> view t' = (view t)(sid \<mapsto> i) \<and> st_max t' = st_max t \<and> ss_id (sess t' i) = sid
    \<and> (\<forall>j. ss_assembler (sess t' j) = ss_assembler (sess t j))
    \<and> (\<forall>j. ss_active (sess t' j) = (ss_active (sess t j) \<or> j = i))
    \<and> (\<forall>j. ss_last_frame_ns (sess t' j) = (if j = i then now else ss_last_frame_ns (sess t j)))
    \<and> (\<forall>j. trail (sess t' j) = (if j = i \<and> view t sid = None then (0, None) else trail (sess t j)))"
proof -
  have inv: "table_inv t" using assms(1) by (simp add: table_ok_def)
  then have len: "length (st_sessions t) = unat (st_max t)" and ix: "index_ok t"
    by (simp_all add: table_inv_def shape_ok_def)
  show ?thesis
  proof (cases "view t sid")
    case (Some i)
    have k: "keeps_identity (\<lambda>s. s\<lparr>ss_last_frame_ns := now\<rparr>)" by (simp add: keeps_identity_def)
    have i: "i < unat (st_max t)" "ss_active (sess t i)" "ss_id (sess t i) = sid"
      using Some unfolding view_Some [OF ix] by auto
    show ?thesis
      unfolding acquire_live [OF inv Some] using i Some len update_session_inv(2) [OF inv k, of i]
      by (intro exI [of _ "update_session t i (\<lambda>s. s\<lparr>ss_last_frame_ns := now\<rparr>)"] exI [of _ i])
        (auto simp: sess_update map_upd_triv trail_def)
  next
    case None
    then have "st_free t \<noteq> []" using assms(2) card_view_room(3) [OF inv] by auto
    from acquire_new [OF assms(1) None this, of now] obtain i t' where a: "acquire t sid now = (t', Some i)"
        "st_max t' = st_max t" "view t' = (view t)(sid \<mapsto> i)" "i \<notin> live_set t" "i < unat (st_max t)"
        "\<forall>j. sess t' j = (if j = i then opened_session (sess t i) sid now else sess t j)"
      by blast
    show ?thesis using a None by (intro exI [of _ t'] exI [of _ i]) (auto simp: trail_opened)
  qed
qed

lemma emit_counts:
  "m_seq_gaps (hl_metrics (emit_event io s ev)) = m_seq_gaps (hl_metrics s)"
  "m_jitter (hl_metrics (emit_event io s ev)) = m_jitter (hl_metrics s)"
  by (simp_all add: emit_event_def Let_def split: prod.split)

lemma emits_counts:
  "m_seq_gaps (hl_metrics (foldl (emit_event io) s evs)) = m_seq_gaps (hl_metrics s)"
  "m_jitter (hl_metrics (foldl (emit_event io) s evs)) = m_jitter (hl_metrics s)"
  by (induction evs arbitrary: s) (simp_all add: emit_counts)

text \<open>The tail of the frame's handling writes the call's session and at most one event.\<close>

lemma assemble_admitted:
  assumes of: "on_frame (ss_assembler (at_session s i)) f (tk_dequeue_ns tk) = Some (b, ev)"
    and i: "i < length (st_sessions (hl_sessions s))"
  shows "\<exists>s'. assemble_frame io tk f i s = Some s'
    \<and> hl_sessions s' = update_session (hl_sessions s) i (\<lambda>ss. note_loud (fh_t_produce_ns (hdr f)) (ss\<lparr>ss_assembler := b\<rparr>))
    \<and> hl_frames s' = hl_frames s \<and> hl_next_sweep_ns s' = hl_next_sweep_ns s
    \<and> hl_events s' = (case ev of None \<Rightarrow> hl_events s
        | Some e \<Rightarrow> fst (io_push io (hl_events s) (e\<lparr>ce_session_id := ss_id (at_session s i)\<rparr>)))
    \<and> m_seq_gaps (hl_metrics s') = m_seq_gaps (hl_metrics s) \<and> m_jitter (hl_metrics s') = m_jitter (hl_metrics s)
    \<and> m_frames_refused (hl_metrics s') = m_frames_refused (hl_metrics s)"
proof -
  define g where "g = (\<lambda>ss. note_loud (fh_t_produce_ns (hdr f)) (ss\<lparr>ss_assembler := b\<rparr>))"
  define s4 where "s4 = on_metrics (\<lambda>m. m\<lparr>m_service := hist_record (m_service m) (tk_done_ns tk - tk_dequeue_ns tk),
      m_frames := m_frames m + 1\<rparr>) (s\<lparr>hl_sessions := update_session (hl_sessions s) i g\<rparr>)"
  define tag where "tag = (\<lambda>e :: chunk_event. e\<lparr>ce_session_id := ss_id (at_session s4 i)\<rparr>)"
  have id: "ss_id (sess (update_session (hl_sessions s) i g) i) = ss_id (at_session s i)"
    using i by (simp add: sess_update g_def note_loud_identity(1) [unfolded keeps_identity_def])
  have "assemble_frame io tk f i s = Some (case ev of None \<Rightarrow> s4
      | Some e \<Rightarrow> emit_event io (on_metrics (note_endpoint (at_session s4 i) (tag e)) s4) (tag e))"
    unfolding assemble_frame_def of s4_def g_def tag_def Let_def by (simp split: option.split)
  moreover have "hl_sessions s4 = update_session (hl_sessions s) i g" "hl_frames s4 = hl_frames s"
      "hl_events s4 = hl_events s" "hl_next_sweep_ns s4 = hl_next_sweep_ns s"
      "m_seq_gaps (hl_metrics s4) = m_seq_gaps (hl_metrics s)" "m_jitter (hl_metrics s4) = m_jitter (hl_metrics s)"
      "m_frames_refused (hl_metrics s4) = m_frames_refused (hl_metrics s)"
    by (simp_all add: s4_def)
  ultimately show ?thesis
    unfolding g_def [symmetric] by (cases ev) (simp_all add: emit_event_queues tag_def id emit_counts note_endpoint_def)
qed

text \<open>What the notes before the assembler leave of the table, the queues and the sweep time.\<close>

definition noted :: "('q, 'e) hot_io \<Rightarrow> hot_config \<Rightarrow> tick \<Rightarrow> audio_frame \<Rightarrow> session_table \<Rightarrow> nat \<Rightarrow> ('q, 'e) hot \<Rightarrow> ('q, 'e) hot" where
  "noted io cfg tk f t i s = note_sequence (f_seq f) i (note_cadence cfg (tk_dequeue_ns tk) i
     ((note_depth io (on_metrics (note_transport (tk_dequeue_ns tk) f) s))\<lparr>hl_sessions := t\<rparr>))"

definition noted_session :: "tick \<Rightarrow> audio_frame \<Rightarrow> session \<Rightarrow> session" where
  "noted_session tk f ss = ss\<lparr>ss_prev_frame_ns := tk_dequeue_ns tk, ss_last_seq := f_seq f, ss_have_last_seq := True,
     ss_frames := ss_frames ss + 1\<rparr>"

lemma noted_fields:
  assumes "i < length (st_sessions t)"
  shows "hl_sessions (noted io cfg tk f t i s) = update_session t i (noted_session tk f)"
    "hl_frames (noted io cfg tk f t i s) = fst (io_size io (hl_frames s))"
    "hl_events (noted io cfg tk f t i s) = hl_events s" "hl_next_sweep_ns (noted io cfg tk f t i s) = hl_next_sweep_ns s"
  using assms
  by (simp_all add: noted_def update_session_def noted_session_def)
    (simp_all add: note_sequence_def note_cadence_def note_depth_def Let_def split: prod.split)

lemma noted_counts:
  assumes "i < length (st_sessions t)"
  shows "m_seq_gaps (hl_metrics (noted io cfg tk f t i s)) = m_seq_gaps (hl_metrics s) + seq_gap (snd (trail (sess t i))) (f_seq f)"
    "m_jitter (hl_metrics (noted io cfg tk f t i s)) = foldl (\<lambda>h d. record_with_expected_interval h d (hc_nominal_ns cfg))
       (m_jitter (hl_metrics s)) (deviation (hc_nominal_ns cfg) (fst (trail (sess t i))) (tk_dequeue_ns tk))"
    "m_frames_refused (hl_metrics (noted io cfg tk f t i s)) = m_frames_refused (hl_metrics s)"
  using assms
  by (auto simp: noted_def note_sequence_def note_cadence_def note_depth_def note_transport_def trail_def seq_gap_def deviation_def
      sess_update Let_def split: prod.split)

lemma noted_session_trail: "trail (noted_session tk f ss) = (tk_dequeue_ns tk, Some (f_seq f))"
  by (simp add: noted_session_def trail_def)

lemma note_loud_trail: "trail (note_loud t (ss\<lparr>ss_assembler := b\<rparr>)) = trail ss"
  by (simp add: note_loud_def trail_def Let_def)

lemma noted_session_identity: "keeps_identity (noted_session tk f)" "ss_assembler (noted_session tk f ss) = ss_assembler ss"
    "ss_last_frame_ns (noted_session tk f ss) = ss_last_frame_ns ss"
  by (simp_all add: keeps_identity_def noted_session_def)

lemma note_loud_last: "ss_last_frame_ns (note_loud t ss) = ss_last_frame_ns ss"
  by (simp add: note_loud_def Let_def)

lemma hot_frame_acquired:
  "acquire (hl_sessions s) (fh_session_id (hdr f)) (tk_dequeue_ns tk) = (t, Some i)
    \<Longrightarrow> hot_frame io cfg tk f s = assemble_frame io tk f i (noted io cfg tk f t i s)"
  by (simp add: hot_frame_def noted_def Let_def)

lemma hot_frame_admitted:
  assumes safe: "table_safe (hl_sessions s)" and f: "frame_ok f" "sid = fh_session_id (hdr f)"
    and fits: "view (hl_sessions s) sid \<noteq> None \<or> card (dom (view (hl_sessions s))) < unat (st_max (hl_sessions s))"
  shows "\<exists>s' i a ev. hot_frame io cfg tk f s = Some s'
    \<and> on_frame (ss_assembler (at_session s i)) f (tk_dequeue_ns tk) = Some (a, ev)
    \<and> (view (hl_sessions s) sid = Some i \<or> view (hl_sessions s) sid = None \<and> i \<notin> live_set (hl_sessions s))
    \<and> i < unat (st_max (hl_sessions s)) \<and> view (hl_sessions s') = (view (hl_sessions s))(sid \<mapsto> i)
    \<and> st_max (hl_sessions s') = st_max (hl_sessions s) \<and> table_safe (hl_sessions s')
    \<and> hl_frames s' = fst (io_size io (hl_frames s)) \<and> hl_next_sweep_ns s' = hl_next_sweep_ns s
    \<and> hl_events s' = (case ev of None \<Rightarrow> hl_events s | Some e \<Rightarrow> fst (io_push io (hl_events s) (e\<lparr>ce_session_id := sid\<rparr>)))
    \<and> (\<forall>j < unat (st_max (hl_sessions s)). ss_assembler (at_session s' j) = (if j = i then a else ss_assembler (at_session s j)))
    \<and> (\<forall>j < unat (st_max (hl_sessions s)). ss_active (at_session s' j) = (ss_active (at_session s j) \<or> j = i))
    \<and> (\<forall>j < unat (st_max (hl_sessions s)). ss_last_frame_ns (at_session s' j)
          = (if j = i then tk_dequeue_ns tk else ss_last_frame_ns (at_session s j)))
    \<and> (\<forall>j < unat (st_max (hl_sessions s)). trail (at_session s' j)
          = (if j = i then (tk_dequeue_ns tk, Some (f_seq f)) else trail (at_session s j)))
    \<and> m_frames_refused (hl_metrics s') = m_frames_refused (hl_metrics s)
    \<and> (let p = (if view (hl_sessions s) sid = None then (0, None) else trail (at_session s i))
       in m_seq_gaps (hl_metrics s') = m_seq_gaps (hl_metrics s) + seq_gap (snd p) (f_seq f)
         \<and> m_jitter (hl_metrics s') = foldl (\<lambda>h d. record_with_expected_interval h d (hc_nominal_ns cfg))
            (m_jitter (hl_metrics s)) (deviation (hc_nominal_ns cfg) (fst p) (tk_dequeue_ns tk)))"
proof -
  define t0 where "t0 = hl_sessions s"
  have ok: "table_ok t0" using safe by (simp add: table_safe_def t0_def)
  from acquire_admits [OF ok fits [folded t0_def], of "tk_dequeue_ns tk"] obtain t i
    where a: "acquire t0 sid (tk_dequeue_ns tk) = (t, Some i)" "view t0 sid = Some i \<or> view t0 sid = None \<and> i \<notin> live_set t0"
      "i < unat (st_max t0)" "view t = (view t0)(sid \<mapsto> i)" "st_max t = st_max t0" "ss_id (sess t i) = sid"
      "\<And>j. ss_assembler (sess t j) = ss_assembler (sess t0 j)" "\<And>j. ss_active (sess t j) = (ss_active (sess t0 j) \<or> j = i)"
      "\<And>j. ss_last_frame_ns (sess t j) = (if j = i then tk_dequeue_ns tk else ss_last_frame_ns (sess t0 j))"
      "\<And>j. trail (sess t j) = (if j = i \<and> view t0 sid = None then (0, None) else trail (sess t0 j))"
    by blast
  have ts: "table_safe t" using acquire_safe [OF safe [folded t0_def], of sid "tk_dequeue_ns tk"] a(1) by simp
  have i: "i < length (st_sessions t)" "length (st_sessions t) = unat (st_max t0)"
    using table_safe_shape [OF ts] a(3,5) by simp_all
  have "pre_ok (ss_assembler (sess t0 i))" using safe a(3) by (simp add: table_safe_def t0_def)
  from on_frame_pre_ok [OF f(1) this] obtain b ev
    where of: "on_frame (ss_assembler (sess t0 i)) f (tk_dequeue_ns tk) = Some (b, ev)" "pre_ok b" by blast
  define s2 where "s2 = noted io cfg tk f t i s"
  note s2 = noted_fields [OF i(1), of io cfg tk f s, folded s2_def]
  note c2 = noted_counts [OF i(1), of io cfg tk f s, folded s2_def]
  define g where "g = (\<lambda>ss. note_loud (fh_t_produce_ns (hdr f)) (ss\<lparr>ss_assembler := b\<rparr>))"
  note k = noted_session_identity(1) [of tk f] note_loud_identity(1) [of "fh_t_produce_ns (hdr f)" b, folded g_def]
  have asm: "ss_assembler (g ss) = b" "ss_last_frame_ns (g ss) = ss_last_frame_ns ss" for ss
    by (simp_all add: g_def note_loud_identity(2) note_loud_last)
  have at: "ss_assembler (at_session s2 i) = ss_assembler (sess t0 i)" "ss_id (at_session s2 i) = sid"
    using i(1) a(6,7) k(1) by (simp_all add: s2 sess_update noted_session_identity(2) keeps_identity_def)
  define t3 where "t3 = update_session (update_session t i (noted_session tk f)) i g"
  have "on_frame (ss_assembler (at_session s2 i)) f (tk_dequeue_ns tk) = Some (b, ev)"
    "i < length (st_sessions (hl_sessions s2))" using of(1) at(1) i(1) by (simp_all add: s2 update_session_def)
  from assemble_admitted [OF this, folded g_def, of io] hot_frame_acquired [OF a(1) [unfolded t0_def f(2)], of io cfg]
  obtain s' where s': "hot_frame io cfg tk f s = Some s'" "hl_sessions s' = t3"
      "hl_frames s' = fst (io_size io (hl_frames s))" "hl_next_sweep_ns s' = hl_next_sweep_ns s"
      "hl_events s' = (case ev of None \<Rightarrow> hl_events s | Some e \<Rightarrow> fst (io_push io (hl_events s) (e\<lparr>ce_session_id := sid\<rparr>)))"
      "m_seq_gaps (hl_metrics s') = m_seq_gaps (hl_metrics s2)" "m_jitter (hl_metrics s') = m_jitter (hl_metrics s2)"
      "m_frames_refused (hl_metrics s') = m_frames_refused (hl_metrics s2)"
    unfolding s2_def [symmetric] at(2) unfolding s2 t3_def [symmetric] by auto
  have t3: "table_safe t3" "view t3 = view t" "st_max t3 = st_max t0"
    unfolding t3_def
  proof -
    show "table_safe (update_session (update_session t i (noted_session tk f)) i g)"
      by (intro inv_intros k ts) (simp_all add: asm of(2) noted_session_identity(2))
    show "view (update_session (update_session t i (noted_session tk f)) i g) = view t"
      using ts k by (simp add: update_session_inv table_safe_def table_ok_def)
  qed (simp add: a(5))
  have as3: "ss_assembler (sess t3 j) = (if j = i then b else ss_assembler (sess t0 j))"
    "ss_active (sess t3 j) = (ss_active (sess t0 j) \<or> j = i)"
    "ss_last_frame_ns (sess t3 j) = (if j = i then tk_dequeue_ns tk else ss_last_frame_ns (sess t0 j))" for j
    using k i(1) a(7-9)
    by (cases "j = i"; simp add: t3_def sess_update asm noted_session_identity(3) keeps_identity_def update_session_def)+
  have tr3: "trail (sess t3 j) = (if j = i then (tk_dequeue_ns tk, Some (f_seq f)) else trail (sess t0 j))" for j
    using i(1) a(10) by (simp add: t3_def sess_update g_def note_loud_trail noted_session_trail)
  show ?thesis
    using s' of(1) a(2-5) t3 as3 tr3 c2 a(10) [of i] unfolding t0_def [symmetric] Let_def
    by (intro exI [of _ s'] exI [of _ i] exI [of _ b] exI [of _ ev]) simp
qed

section \<open>The calls of a run\<close>

definition call_frames :: "u32 \<Rightarrow> (audio_frame \<times> tick) list \<Rightarrow> (audio_frame \<times> u64) list" where
  "call_frames sid xs = map (\<lambda>(f, tk). (f, tk_dequeue_ns tk)) (filter (\<lambda>(f, tk). fh_session_id (hdr f) = sid) xs)"

definition call_ids :: "(audio_frame \<times> tick) list \<Rightarrow> u32 set" where
  "call_ids xs = (\<lambda>(f, tk). fh_session_id (hdr f)) ` set xs"

text \<open>When the latest frame of a call came out of the queue.\<close>

definition last_heard :: "u32 \<Rightarrow> (audio_frame \<times> tick) list \<Rightarrow> u64" where
  "last_heard sid xs = snd (last (call_frames sid xs))"

definition tagged :: "u32 \<Rightarrow> chunk_event option list \<Rightarrow> chunk_event list" where
  "tagged sid evs = map (\<lambda>e. e\<lparr>ce_session_id := sid\<rparr>) (outs evs)"

text \<open>
  The figures of the report that depend on a call's previous frame, from the frames of each call alone:
  the sequence numbers missing between consecutive ones, and how far the time between consecutive
  frames is from the nominal one (no figure for a first frame, or one after a frame at time 0).
\<close>

definition last_seq :: "u32 \<Rightarrow> (audio_frame \<times> tick) list \<Rightarrow> u64" where
  "last_seq sid xs = f_seq (fst (last (call_frames sid xs)))"

fun missed :: "u64 list \<Rightarrow> u64" where
  "missed (q # q' # qs) = seq_gap (Some q) q' + missed (q' # qs)"
| "missed _ = 0"

definition call_seqs :: "u32 \<Rightarrow> (audio_frame \<times> tick) list \<Rightarrow> u64 list" where
  "call_seqs sid xs = map (\<lambda>x. f_seq (fst x)) (call_frames sid xs)"

definition missed_frames :: "(audio_frame \<times> tick) list \<Rightarrow> u64" where
  "missed_frames xs = (\<Sum>sid \<in> call_ids xs. missed (call_seqs sid xs))"

definition call_deviation :: "u64 \<Rightarrow> (audio_frame \<times> tick) list \<Rightarrow> audio_frame \<times> tick \<Rightarrow> u64 list" where
  "call_deviation nominal past x = (case x of (f, tk) \<Rightarrow> let sid = fh_session_id (hdr f)
     in deviation nominal (if sid \<in> call_ids past then last_heard sid past else 0) (tk_dequeue_ns tk))"

definition deviations :: "u64 \<Rightarrow> (audio_frame \<times> tick) list \<Rightarrow> u64 list" where
  "deviations nominal xs = concat (map (\<lambda>n. call_deviation nominal (take n xs) (xs ! n)) [0..<length xs])"

text \<open>The calls fit the table, and at every turn every call so far was heard less than the idle time ago.\<close>

definition undisturbed :: "nat \<Rightarrow> u64 \<Rightarrow> audio_frame option list \<Rightarrow> tick list \<Rightarrow> bool" where
  "undisturbed cap idle ps tks \<longleftrightarrow> card (call_ids (heard ps tks)) \<le> cap
    \<and> (\<forall>n < length ps. \<forall>sid \<in> call_ids (heard (take n ps) (take n tks)).
         tk_loop_ns (tks ! n) - last_heard sid (heard (take n ps) (take n tks)) < idle)"

lemma call_ids_simps [simp]:
  "call_ids [] = {}" "call_ids (xs @ ys) = call_ids xs \<union> call_ids ys" "call_ids [(f, tk)] = {fh_session_id (hdr f)}"
  "finite (call_ids xs)"
  by (auto simp: call_ids_def)

lemma call_frames_snoc:
  "call_frames sid (xs @ [(f, tk)]) = call_frames sid xs @ (if fh_session_id (hdr f) = sid then [(f, tk_dequeue_ns tk)] else [])"
  by (simp add: call_frames_def)

lemma last_heard_snoc:
  "last_heard sid (xs @ [(f, tk)]) = (if fh_session_id (hdr f) = sid then tk_dequeue_ns tk else last_heard sid xs)"
  by (simp add: last_heard_def call_frames_snoc)

lemma last_seq_snoc:
  "last_seq sid (xs @ [(f, tk)]) = (if fh_session_id (hdr f) = sid then f_seq f else last_seq sid xs)"
  by (simp add: last_seq_def call_frames_snoc)

lemma call_frames_empty: "call_frames sid xs = [] \<longleftrightarrow> sid \<notin> call_ids xs"
  by (force simp: call_frames_def call_ids_def filter_empty_conv)

lemma missed_snoc: "missed (qs @ [q]) = missed qs + seq_gap (if qs = [] then None else Some (last qs)) q"
proof (induction qs rule: missed.induct)
  case (1 p q qs)
  then show ?case by (simp add: add.assoc)
qed (simp_all add: seq_gap_def)

text \<open>In a call whose sequence numbers increase, what is missing is what was not heard between the first and the last.\<close>

lemma missed_increasing:
  "sorted_wrt (<) qs \<Longrightarrow> qs \<noteq> [] \<Longrightarrow> missed qs = last qs - hd qs + 1 - of_nat (length qs)"
proof (induction qs rule: missed.induct)
  case (1 q q' qs)
  have "q < q'" using 1(2) by simp
  then have "q + 1 \<le> q'" by (rule inc_le)
  then have g: "seq_gap (Some q) q' = q' - q - 1" by (auto simp: seq_gap_def not_less)
  define l where "l = last (q' # qs)"
  have IH: "missed (q' # qs) = l - q' + 1 - of_nat (length (q' # qs))" using 1 by (simp add: l_def)
  have "last (q # q' # qs) = l" by (simp add: l_def)
  then show ?case unfolding missed.simps(1) g IH by simp
qed simp_all

lemma missed_frames_increasing:
  assumes "\<forall>sid \<in> call_ids xs. sorted_wrt (<) (call_seqs sid xs)"
  shows "missed_frames xs = (\<Sum>sid \<in> call_ids xs. last (call_seqs sid xs) - hd (call_seqs sid xs) + 1 - of_nat (length (call_seqs sid xs)))"
  unfolding missed_frames_def
proof (rule sum.cong [OF refl])
  fix sid assume "sid \<in> call_ids xs"
  then have "call_seqs sid xs \<noteq> []" using call_frames_empty [of sid xs] by (simp add: call_seqs_def)
  then show "missed (call_seqs sid xs) = last (call_seqs sid xs) - hd (call_seqs sid xs) + 1 - of_nat (length (call_seqs sid xs))"
    using assms \<open>sid \<in> call_ids xs\<close> missed_increasing by blast
qed

lemma missed_frames_snoc:
  assumes "fh_session_id (hdr f) = sid"
  shows "missed_frames (xs @ [(f, tk)]) = missed_frames xs
    + seq_gap (if sid \<in> call_ids xs then Some (last_seq sid xs) else None) (f_seq f)"
proof -
  define g where "g = (\<lambda>xs k. missed (call_seqs k xs))"
  have other: "g (xs @ [(f, tk)]) k = g xs k" if "k \<noteq> sid" for k
    using that assms by (simp add: g_def call_seqs_def call_frames_snoc)
  have own: "g (xs @ [(f, tk)]) sid = g xs sid + seq_gap (if sid \<in> call_ids xs then Some (last_seq sid xs) else None) (f_seq f)"
    using assms by (simp add: g_def call_seqs_def call_frames_snoc missed_snoc call_frames_empty last_seq_def last_map)
  have ids: "call_ids (xs @ [(f, tk)]) = insert sid (call_ids xs)" using assms by auto
  have total: "missed_frames ys = sum (g ys) (call_ids ys)" for ys by (simp add: missed_frames_def g_def)
  have rest: "sum (g (xs @ [(f, tk)])) (call_ids xs - {sid}) = sum (g xs) (call_ids xs - {sid})"
    by (intro sum.cong) (simp_all add: other)
  have split: "sum (g xs) (call_ids xs) = g xs sid + sum (g xs) (call_ids xs - {sid})"
  proof (cases "sid \<in> call_ids xs")
    case False
    then have "g xs sid = 0" by (simp add: g_def call_seqs_def call_frames_empty [symmetric])
    then show ?thesis using False by simp
  qed (simp add: sum.remove [of _ sid])
  have "missed_frames (xs @ [(f, tk)]) = g (xs @ [(f, tk)]) sid + sum (g (xs @ [(f, tk)])) (call_ids xs - {sid})"
    unfolding total ids by (simp add: sum.insert_remove)
  then show ?thesis unfolding own rest total split by (simp only: ac_simps)
qed

lemma deviations_snoc: "deviations nominal (xs @ [x]) = deviations nominal xs @ call_deviation nominal xs x"
  by (simp add: deviations_def) (intro arg_cong [where f = concat] map_cong; simp add: nth_append)

lemma undisturbed_before:
  assumes "undisturbed cap idle (ps @ [p]) (tks @ [tk])" "length ps = length tks"
  shows "undisturbed cap idle ps tks" "card (call_ids (heard ps tks @ heard [p] [tk])) \<le> cap"
    "sid \<in> call_ids (heard ps tks) \<Longrightarrow> tk_loop_ns tk - last_heard sid (heard ps tks) < idle"
proof -
  have h: "heard (ps @ [p]) (tks @ [tk]) = heard ps tks @ heard [p] [tk]" by (rule heard_append [OF assms(2)])
  show c: "card (call_ids (heard ps tks @ heard [p] [tk])) \<le> cap" using assms(1) by (simp add: undisturbed_def h)
  have n: "tk_loop_ns ((tks @ [tk]) ! n) - last_heard sid (heard (take n (ps @ [p])) (take n (tks @ [tk]))) < idle"
    if "n < length (ps @ [p])" "sid \<in> call_ids (heard (take n (ps @ [p])) (take n (tks @ [tk])))" for n sid
    using assms(1) that unfolding undisturbed_def by blast
  show "tk_loop_ns tk - last_heard sid (heard ps tks) < idle" if "sid \<in> call_ids (heard ps tks)"
    using n [of "length ps" sid] that assms(2) by simp
  have "card (call_ids (heard ps tks)) \<le> cap"
    by (rule order_trans [OF card_mono c]) simp_all
  moreover have "tk_loop_ns (tks ! n) - last_heard sid (heard (take n ps) (take n tks)) < idle"
    if "n < length ps" "sid \<in> call_ids (heard (take n ps) (take n tks))" for n sid
    using n [of n sid] that assms(2) by (simp add: nth_append)
  ultimately show "undisturbed cap idle ps tks" by (simp add: undisturbed_def)
qed

lemma undisturbed_ended:
  assumes "length ps = length done"
  shows "undisturbed cap idle ps (done @ rest) = undisturbed cap idle ps done"
  using assms by (auto simp: undisturbed_def heard_ended nth_append)

section \<open>One turn\<close>

definition own_assembler :: "chunker_config \<Rightarrow> ('q, 'e) hot \<Rightarrow> u32 \<Rightarrow> assembler" where
  "own_assembler c s sid = (case view (hl_sessions s) sid of None \<Rightarrow> asm_new c | Some i \<Rightarrow> ss_assembler (at_session s i))"

text \<open>After the frames \<open>xs\<close>, every call is where its own assembler would be.\<close>

definition isolated :: "chunker_config \<Rightarrow> (audio_frame \<times> tick) list \<Rightarrow> ('q, 'e logged_events) hot \<Rightarrow> bool" where
  "isolated c xs s \<longleftrightarrow> table_safe (hl_sessions s) \<and> dom (view (hl_sessions s)) = call_ids xs
    \<and> (\<forall>i < unat (st_max (hl_sessions s)). \<not> ss_active (at_session s i) \<longrightarrow> ss_assembler (at_session s i) = asm_new c)
    \<and> (\<forall>sid i. view (hl_sessions s) sid = Some i \<longrightarrow> ss_last_frame_ns (at_session s i) = last_heard sid xs)
    \<and> (\<forall>sid. \<exists>evs. asm_run (asm_new c) (call_frames sid xs) = Some (own_assembler c s sid, evs)
         \<and> filter (\<lambda>e. ce_session_id e = sid) (snd (hl_events s)) = tagged sid evs)"

text \<open>And its previous frame and the figures of the metrics are those of its own frames.\<close>

definition followed :: "u64 \<Rightarrow> hot_metrics \<Rightarrow> (audio_frame \<times> tick) list \<Rightarrow> ('q, 'e) hot \<Rightarrow> bool" where
  "followed nominal m0 xs s \<longleftrightarrow>
    (\<forall>sid i. view (hl_sessions s) sid = Some i \<longrightarrow> trail (at_session s i) = (last_heard sid xs, Some (last_seq sid xs)))
    \<and> m_frames_refused (hl_metrics s) = m_frames_refused m0
    \<and> m_seq_gaps (hl_metrics s) = m_seq_gaps m0 + missed_frames xs
    \<and> m_jitter (hl_metrics s) = foldl (\<lambda>h d. record_with_expected_interval h d nominal) (m_jitter m0) (deviations nominal xs)"

lemma isolated_cong:
  assumes "hl_sessions s' = hl_sessions s" "hl_events s' = hl_events s" "isolated c xs s"
  shows "isolated c xs s'"
  using assms(3) unfolding isolated_def own_assembler_def assms(1,2) .

lemma followed_cong:
  assumes "hl_sessions s' = hl_sessions s" "m_frames_refused (hl_metrics s') = m_frames_refused (hl_metrics s)"
    "m_seq_gaps (hl_metrics s') = m_seq_gaps (hl_metrics s)" "m_jitter (hl_metrics s') = m_jitter (hl_metrics s)"
    "followed nominal m0 xs s"
  shows "followed nominal m0 xs s'"
  using assms(5) unfolding followed_def assms(1-4) .

lemma observe_figures [simp]:
  "m_seq_gaps (hl_metrics (observe_depth t s)) = m_seq_gaps (hl_metrics s)"
  "m_jitter (hl_metrics (observe_depth t s)) = m_jitter (hl_metrics s)"
  by (simp_all add: observe_depth_def Let_def)

text \<open>A call's index is not the one the frame of another call went to.\<close>

lemma other_index:
  assumes ix: "index_ok t" and i: "view t sid = Some i \<or> view t sid = None \<and> i \<notin> live_set t"
    and k: "k \<noteq> sid" and v: "view t k = Some j"
  shows "j \<noteq> i" "j < unat (st_max t)"
proof -
  have j: "j < unat (st_max t)" "j \<in> live_set t" using v unfolding view_Some [OF ix] by (simp_all add: live_set_def)
  show "j \<noteq> i"
  proof
    assume "j = i"
    then have "view t sid = view t k" using i j(2) v by auto
    then show False using view_inj [OF ix] v k by (metis domI inj_on_eq_iff)
  qed
  show "j < unat (st_max t)" by (rule j(1))
qed

lemma own_assembler_other:
  assumes ix: "index_ok t" and i: "view t sid = Some i \<or> view t sid = None \<and> i \<notin> live_set t"
    and v: "view (hl_sessions s') = (view t)(sid \<mapsto> i)"
    and asm: "\<And>j. j < unat (st_max t) \<Longrightarrow> ss_assembler (at_session s' j) = (if j = i then a else ss_assembler (sess t j))"
    and k: "k \<noteq> sid" and t: "hl_sessions s = t"
  shows "own_assembler c s' k = own_assembler c s k"
proof (cases "view t k")
  case (Some j)
  then show ?thesis using other_index [OF ix i k Some] k by (simp add: own_assembler_def v asm t)
qed (use k in \<open>simp add: own_assembler_def v t\<close>)

text \<open>What a frame of call \<open>sid\<close> adds to its own call and to another one.\<close>

lemma call_step_own:
  assumes "asm_run (asm_new c) (call_frames sid xs) = Some (b, evs)" "filter (\<lambda>e. ce_session_id e = sid) out = tagged sid evs"
    "on_frame b f (tk_dequeue_ns tk) = Some (a, ev)" "fh_session_id (hdr f) = sid"
  shows "asm_run (asm_new c) (call_frames sid (xs @ [(f, tk)])) = Some (a, evs @ [ev])"
    "filter (\<lambda>e. ce_session_id e = sid) (out @ tagged sid [ev]) = tagged sid (evs @ [ev])"
proof -
  show "asm_run (asm_new c) (call_frames sid (xs @ [(f, tk)])) = Some (a, evs @ [ev])"
    using assms(1,3,4) by (simp add: call_frames_snoc asm_run_append)
  have "filter (\<lambda>e. ce_session_id e = sid) (tagged sid [ev]) = tagged sid [ev]"
    by (cases ev) (simp_all add: tagged_def)
  then show "filter (\<lambda>e. ce_session_id e = sid) (out @ tagged sid [ev]) = tagged sid (evs @ [ev])"
    using assms(2) by (simp add: tagged_def)
qed

lemma call_step_other:
  assumes "fh_session_id (hdr f) = sid" "k \<noteq> sid"
  shows "call_frames k (xs @ [(f, tk)]) = call_frames k xs"
    "filter (\<lambda>e. ce_session_id e = k) (out @ tagged sid [ev]) = filter (\<lambda>e. ce_session_id e = k) out"
  using assms by (cases ev; simp add: call_frames_snoc tagged_def)+

text \<open>The frame of a call that fits: its session, the assembler's answer and what is left as it was.\<close>

lemma heard_frame:
  assumes iso: "isolated c xs s" and f: "frame_ok f" and sid: "sid = fh_session_id (hdr f)"
    and fits: "card (call_ids (xs @ [(f, tk)])) \<le> unat (st_max (hl_sessions s))"
    and run: "hot_frame (recording io) cfg tk f s = Some s'" and t: "t = hl_sessions s"
  obtains i a ev where "on_frame (ss_assembler (sess t i)) f (tk_dequeue_ns tk) = Some (a, ev)"
    "view t sid = Some i \<or> view t sid = None \<and> i \<notin> live_set t" "i < unat (st_max t)"
    "view (hl_sessions s') = (view t)(sid \<mapsto> i)" "st_max (hl_sessions s') = st_max t" "table_safe (hl_sessions s')"
    "snd (hl_events s') = snd (hl_events s) @ tagged sid [ev]"
    "\<And>j. j < unat (st_max t) \<Longrightarrow> ss_assembler (at_session s' j) = (if j = i then a else ss_assembler (sess t j))"
    "\<And>j. j < unat (st_max t) \<Longrightarrow> ss_active (at_session s' j) = (ss_active (sess t j) \<or> j = i)"
    "\<And>j. j < unat (st_max t) \<Longrightarrow> ss_last_frame_ns (at_session s' j) = (if j = i then tk_dequeue_ns tk else ss_last_frame_ns (sess t j))"
    "\<And>j. j < unat (st_max t) \<Longrightarrow> trail (at_session s' j) = (if j = i then (tk_dequeue_ns tk, Some (f_seq f)) else trail (sess t j))"
    "m_frames_refused (hl_metrics s') = m_frames_refused (hl_metrics s)"
    "let p = (if view t sid = None then (0, None) else trail (sess t i))
     in m_seq_gaps (hl_metrics s') = m_seq_gaps (hl_metrics s) + seq_gap (snd p) (f_seq f)
       \<and> m_jitter (hl_metrics s') = foldl (\<lambda>h d. record_with_expected_interval h d (hc_nominal_ns cfg))
          (m_jitter (hl_metrics s)) (deviation (hc_nominal_ns cfg) (fst p) (tk_dequeue_ns tk))"
proof -
  have safe: "table_safe (hl_sessions s)" and dom: "dom (view t) = call_ids xs" using iso by (simp_all add: isolated_def t)
  have ids: "call_ids (xs @ [(f, tk)]) = insert sid (dom (view t))" by (simp add: dom sid)
  have room: "view t sid \<noteq> None \<or> card (dom (view t)) < unat (st_max t)"
  proof (cases "sid \<in> dom (view t)")
    case False
    then have "card (insert sid (dom (view t))) = Suc (card (dom (view t)))" by simp
    then show ?thesis using fits unfolding ids t by simp
  qed auto
  from hot_frame_admitted [OF safe f sid room [unfolded t], of "recording io" cfg tk, unfolded run, folded t]
  obtain i a ev where h: "on_frame (ss_assembler (sess t i)) f (tk_dequeue_ns tk) = Some (a, ev)"
      "view t sid = Some i \<or> view t sid = None \<and> i \<notin> live_set t" "i < unat (st_max t)"
      "view (hl_sessions s') = (view t)(sid \<mapsto> i)" "st_max (hl_sessions s') = st_max t" "table_safe (hl_sessions s')"
      "hl_events s' = (case ev of None \<Rightarrow> hl_events s | Some e \<Rightarrow> fst (io_push (recording io) (hl_events s) (e\<lparr>ce_session_id := sid\<rparr>)))"
      "\<forall>j < unat (st_max t). ss_assembler (at_session s' j) = (if j = i then a else ss_assembler (sess t j))"
      "\<forall>j < unat (st_max t). ss_active (at_session s' j) = (ss_active (sess t j) \<or> j = i)"
      "\<forall>j < unat (st_max t). ss_last_frame_ns (at_session s' j) = (if j = i then tk_dequeue_ns tk else ss_last_frame_ns (sess t j))"
      "\<forall>j < unat (st_max t). trail (at_session s' j) = (if j = i then (tk_dequeue_ns tk, Some (f_seq f)) else trail (sess t j))"
      "m_frames_refused (hl_metrics s') = m_frames_refused (hl_metrics s)"
      "let p = (if view t sid = None then (0, None) else trail (sess t i))
       in m_seq_gaps (hl_metrics s') = m_seq_gaps (hl_metrics s) + seq_gap (snd p) (f_seq f)
         \<and> m_jitter (hl_metrics s') = foldl (\<lambda>h d. record_with_expected_interval h d (hc_nominal_ns cfg))
            (m_jitter (hl_metrics s)) (deviation (hc_nominal_ns cfg) (fst p) (tk_dequeue_ns tk))"
    unfolding option.inject by blast
  have "snd (hl_events s') = snd (hl_events s) @ tagged sid [ev]"
    using h(7) by (cases ev) (simp_all add: tagged_def)
  then show ?thesis using that [OF h(1-6) _ _ _ _ _ h(12,13)] h(8-11) by blast
qed

lemma isolated_frame:
  assumes iso: "isolated c xs s" and f: "frame_ok f"
    and fits: "card (call_ids (xs @ [(f, tk)])) \<le> unat (st_max (hl_sessions s))"
    and run: "hot_frame (recording io) cfg tk f s = Some s'"
  shows "isolated c (xs @ [(f, tk)]) s'" "st_max (hl_sessions s') = st_max (hl_sessions s)"
proof -
  define t0 sid where "t0 = hl_sessions s" and "sid = fh_session_id (hdr f)"
  have safe: "table_safe t0" and dom: "dom (view t0) = call_ids xs"
    and fresh: "\<And>i. i < unat (st_max t0) \<Longrightarrow> \<not> ss_active (sess t0 i) \<Longrightarrow> ss_assembler (sess t0 i) = asm_new c"
    and last: "\<And>k i. view t0 k = Some i \<Longrightarrow> ss_last_frame_ns (sess t0 i) = last_heard k xs"
    using iso by (simp_all add: isolated_def t0_def)
  have ix: "index_ok t0" using safe by (simp add: table_safe_def table_ok_def table_inv_def)
  obtain i a ev where h: "on_frame (ss_assembler (sess t0 i)) f (tk_dequeue_ns tk) = Some (a, ev)"
      "view t0 sid = Some i \<or> view t0 sid = None \<and> i \<notin> live_set t0" "i < unat (st_max t0)"
      "view (hl_sessions s') = (view t0)(sid \<mapsto> i)" "st_max (hl_sessions s') = st_max t0" "table_safe (hl_sessions s')"
      "snd (hl_events s') = snd (hl_events s) @ tagged sid [ev]"
      "\<And>j. j < unat (st_max t0) \<Longrightarrow> ss_assembler (at_session s' j) = (if j = i then a else ss_assembler (sess t0 j))"
      "\<And>j. j < unat (st_max t0) \<Longrightarrow> ss_active (at_session s' j) = (ss_active (sess t0 j) \<or> j = i)"
      "\<And>j. j < unat (st_max t0) \<Longrightarrow> ss_last_frame_ns (at_session s' j) = (if j = i then tk_dequeue_ns tk else ss_last_frame_ns (sess t0 j))"
    by (rule heard_frame [OF iso f sid_def fits run t0_def]) blast
  show "st_max (hl_sessions s') = st_max (hl_sessions s)" using h(5) by (simp add: t0_def)
  have own: "own_assembler c s sid = ss_assembler (sess t0 i)"
    using h(2,3) fresh [OF h(3)] by (auto simp: own_assembler_def live_set_def t0_def [symmetric])
  have each: "\<exists>evs. asm_run (asm_new c) (call_frames k (xs @ [(f, tk)])) = Some (own_assembler c s' k, evs)
      \<and> filter (\<lambda>e. ce_session_id e = k) (snd (hl_events s')) = tagged k evs" for k
  proof -
    obtain evs where k: "asm_run (asm_new c) (call_frames k xs) = Some (own_assembler c s k, evs)"
        "filter (\<lambda>e. ce_session_id e = k) (snd (hl_events s)) = tagged k evs"
      using iso unfolding isolated_def by blast
    show ?thesis
    proof (cases "k = sid")
      case True
      have "own_assembler c s' sid = a" by (simp add: own_assembler_def h(3,4,8))
      then show ?thesis
        using call_step_own [OF k [unfolded True own] h(1) sid_def [symmetric]] unfolding True h(7) by auto
    next
      case False
      have "own_assembler c s' k = own_assembler c s k"
        by (rule own_assembler_other [OF ix h(2,4,8) False]) (simp_all add: t0_def)
      then show ?thesis using k unfolding h(7) call_step_other [OF sid_def [symmetric] False] by auto
    qed
  qed
  have "ss_last_frame_ns (at_session s' j) = last_heard k (xs @ [(f, tk)])" if v: "view (hl_sessions s') k = Some j" for k j
    using v h(3,4,10) other_index [OF ix h(2), of k j] last [of k j] by (cases "k = sid") (simp_all add: last_heard_snoc sid_def [symmetric])
  then show "isolated c (xs @ [(f, tk)]) s'"
    unfolding isolated_def using h(6) each h(4,5,8,9) fresh dom by (simp add: sid_def)
qed

lemma followed_frame:
  assumes iso: "isolated c xs s" and f: "frame_ok f"
    and fits: "card (call_ids (xs @ [(f, tk)])) \<le> unat (st_max (hl_sessions s))"
    and run: "hot_frame (recording io) cfg tk f s = Some s'" and fol: "followed (hc_nominal_ns cfg) m0 xs s"
  shows "followed (hc_nominal_ns cfg) m0 (xs @ [(f, tk)]) s'"
proof -
  define t0 sid where "t0 = hl_sessions s" and "sid = fh_session_id (hdr f)"
  have dom: "dom (view t0) = call_ids xs" and ix: "index_ok t0"
    using iso by (simp_all add: isolated_def t0_def table_safe_def table_ok_def table_inv_def)
  have tr: "trail (sess t0 j) = (last_heard k xs, Some (last_seq k xs))" if "view t0 k = Some j" for k j
    using that fol by (simp add: followed_def t0_def)
  obtain i where h: "view t0 sid = Some i \<or> view t0 sid = None \<and> i \<notin> live_set t0" "i < unat (st_max t0)"
      "view (hl_sessions s') = (view t0)(sid \<mapsto> i)"
      "\<And>j. j < unat (st_max t0) \<Longrightarrow> trail (at_session s' j) = (if j = i then (tk_dequeue_ns tk, Some (f_seq f)) else trail (sess t0 j))"
      "m_frames_refused (hl_metrics s') = m_frames_refused (hl_metrics s)"
      "let p = (if view t0 sid = None then (0, None) else trail (sess t0 i))
       in m_seq_gaps (hl_metrics s') = m_seq_gaps (hl_metrics s) + seq_gap (snd p) (f_seq f)
         \<and> m_jitter (hl_metrics s') = foldl (\<lambda>h d. record_with_expected_interval h d (hc_nominal_ns cfg))
            (m_jitter (hl_metrics s)) (deviation (hc_nominal_ns cfg) (fst p) (tk_dequeue_ns tk))"
    by (rule heard_frame [OF iso f sid_def fits run t0_def]) blast
  have p: "(if view t0 sid = None then (0, None) else trail (sess t0 i))
      = (if sid \<in> call_ids xs then last_heard sid xs else 0, if sid \<in> call_ids xs then Some (last_seq sid xs) else None)"
    using h(1) tr [of sid i] dom by auto
  have "trail (at_session s' j) = (last_heard k (xs @ [(f, tk)]), Some (last_seq k (xs @ [(f, tk)])))"
    if v: "view (hl_sessions s') k = Some j" for k j
    using v h(2-4) other_index [OF ix h(1), of k j] tr [of k j]
    by (cases "k = sid") (simp_all add: last_heard_snoc last_seq_snoc sid_def [symmetric])
  then show ?thesis
    using fol h(5,6) unfolding p Let_def fst_conv snd_conv
    by (simp add: followed_def missed_frames_snoc [OF sid_def [symmetric]] deviations_snoc call_deviation_def sid_def [symmetric] Let_def)
qed

text \<open>A sweep that finds no idle call changes nothing.\<close>

lemma quiet_sweep:
  assumes safe: "table_safe t" and no: "\<And>j. j < unat (st_max t) \<Longrightarrow> \<not> is_idle now idle (sess t j)"
  obtains t' where "expire_idle t now idle = Some (t', [])" "table_safe t'" "view t' = view t" "st_max t' = st_max t"
    "\<And>j. j < unat (st_max t) \<Longrightarrow> sess t' j = sess t j"
proof -
  have ti: "table_inv t" and ix: "index_ok t" and len: "length (st_sessions t) = unat (st_max t)"
    using safe table_safe_shape [OF safe] by (auto simp: table_safe_def table_ok_def table_inv_def)
  define p where "p = is_idle now idle"
  obtain t' evs where e: "expire_idle t now idle = Some (t', evs)" "swept p now t t' evs"
    using expire_idle_ok [OF ti] unfolding p_def by blast
  have "filter p (st_sessions t) = []" using no len by (auto simp: p_def filter_empty_conv in_set_conv_nth)
  then have same: "evs = []" "st_max t' = st_max t" "\<And>j. j < unat (st_max t) \<Longrightarrow> sess t' j = sess t j"
    using e(2) no by (auto simp: p_def swept_def)
  have "view t' sid = view t sid" for sid
  proof -
    have "\<And>s. p s \<Longrightarrow> ss_active s" by (simp add: p_def is_idle_def)
    note sv = swept_view(1) [OF ti e(2) this, of sid]
    show ?thesis
    proof (cases "view t sid")
      case (Some i)
      then have "\<not> p (sess t i)" using no [of i] unfolding view_Some [OF ix] by (simp add: p_def)
      then show ?thesis using sv Some by simp
    qed (simp add: sv)
  qed
  then show ?thesis using that [OF e(1) [unfolded same(1)] swept_safe [OF safe e(2)]] same(2,3) by blast
qed

lemma isolated_sweep:
  assumes iso: "isolated c xs s" and busy: "\<And>sid. sid \<in> call_ids xs \<Longrightarrow> now - last_heard sid xs < hc_idle_ns cfg"
    and run: "hot_sweep (recording io) cfg now s = Some s'"
  shows "isolated c xs s'" "st_max (hl_sessions s') = st_max (hl_sessions s)" "followed nominal m0 xs s \<Longrightarrow> followed nominal m0 xs s'"
proof -
  define t where "t = hl_sessions s"
  have safe: "table_safe t" and dom: "dom (view t) = call_ids xs"
    and last: "\<And>k i. view t k = Some i \<Longrightarrow> ss_last_frame_ns (sess t i) = last_heard k xs"
    using iso by (simp_all add: isolated_def t_def)
  have ix: "index_ok t" using safe by (simp add: table_safe_def table_ok_def table_inv_def)
  have no: "\<not> is_idle now (hc_idle_ns cfg) (sess t j)" if "j < unat (st_max t)" for j
  proof
    assume a: "is_idle now (hc_idle_ns cfg) (sess t j)"
    then have "view t (ss_id (sess t j)) = Some j" unfolding view_Some [OF ix] using that by (simp add: is_idle_def)
    then have "now - ss_last_frame_ns (sess t j) < hc_idle_ns cfg" using busy [of "ss_id (sess t j)"] dom last by force
    then show False using a by (simp add: is_idle_def)
  qed
  obtain t' where t': "expire_idle t now (hc_idle_ns cfg) = Some (t', [])" "table_safe t'" "view t' = view t" "st_max t' = st_max t"
      "\<And>j. j < unat (st_max t) \<Longrightarrow> sess t' j = sess t j"
    by (rule quiet_sweep [OF safe no]) blast+
  have at: "sess t' i = sess t i" if "view t sid = Some i" for sid i
    using that t'(5) unfolding view_Some [OF ix] by simp
  define x where "x = s\<lparr>hl_sessions := t'\<rparr>"
  have own: "own_assembler c x k = own_assembler c s k" for k
    using at [of k] by (cases "view t k") (simp_all add: own_assembler_def x_def t'(3) t_def [symmetric])
  have "ss_last_frame_ns (at_session x i) = last_heard k xs" if "view (hl_sessions x) k = Some i" for k i
    using that last [of k i] at [of k i] by (simp add: x_def t'(3))
  then have i: "isolated c xs x"
    using iso own t'(2-5) unfolding isolated_def by (simp add: x_def t_def)
  have s': "s' = s \<or> s' = x\<lparr>hl_next_sweep_ns := now + kSweepIntervalNs\<rparr>"
    using run t'(1) by (auto simp: hot_sweep_def x_def t_def [symmetric] split: if_splits)
  show "isolated c xs s'" "st_max (hl_sessions s') = st_max (hl_sessions s)"
    using s' i iso t'(4) isolated_cong [of "x\<lparr>hl_next_sweep_ns := now + kSweepIntervalNs\<rparr>" x] by (auto simp: x_def t_def)
  assume "followed nominal m0 xs s"
  then have "followed nominal m0 xs x" using at by (simp add: followed_def x_def t'(3) t_def [symmetric])
  then show "followed nominal m0 xs s'"
    using s' \<open>followed nominal m0 xs s\<close> followed_cong [of "x\<lparr>hl_next_sweep_ns := now + kSweepIntervalNs\<rparr>" x] by auto
qed

section \<open>The run\<close>

context hot_queues begin

lemma frame_keeps_ok:
  assumes "hot_frame (recording io) cfg tk f s = Some s'" "ok (fst (hl_frames s))"
  shows "ok (fst (hl_frames s'))"
  using assms size_ok [of "fst (hl_frames s)"]
  by (auto simp: hot_frame_def assemble_frame_def Let_def split: prod.splits option.splits bind_splits)

lemma isolated_turn:
  assumes iso: "isolated c (heard (snd (hl_frames s)) past) s" "ok (fst (hl_frames s))"
    and len: "length (snd (hl_frames s)) = length past" and turn: "hot_turn (recording io) cfg tk s = Some (s', True)"
    and und: "undisturbed (unat (st_max (hl_sessions s))) (hc_idle_ns cfg) (snd (hl_frames s')) (past @ [tk])"
    and fol: "followed (hc_nominal_ns cfg) m0 (heard (snd (hl_frames s)) past) s"
  shows "isolated c (heard (snd (hl_frames s')) (past @ [tk])) s'" "st_max (hl_sessions s') = st_max (hl_sessions s)"
    "followed (hc_nominal_ns cfg) m0 (heard (snd (hl_frames s')) (past @ [tk])) s'"
proof -
  define xs where "xs = heard (snd (hl_frames s)) past"
  from recorded_step [OF turn] obtain s1 where
    s1: "hot_sweep (recording io) cfg (tk_loop_ns tk) (observe_depth (tk_loop_ns tk) s) = Some s1" "hl_frames s1 = hl_frames s"
      "snd (hl_frames s') = snd (hl_frames s) @ [next_frame io s1]"
      "case next_frame io s1 of None \<Rightarrow> s' = (pop_frames io s1)\<lparr>hl_observed_depth := 0\<rparr>
       | Some f \<Rightarrow> hot_frame (recording io) cfg tk f (pop_frames io s1) = Some s'" by metis
  note u = undisturbed_before [OF und [unfolded s1(3)] len, folded xs_def]
  have h: "heard (snd (hl_frames s')) (past @ [tk]) = xs @ heard [next_frame io s1] [tk]"
    unfolding s1(3) heard_append [OF len] xs_def ..
  have i0: "isolated c xs (observe_depth (tk_loop_ns tk) s)" using iso(1) by (auto intro: isolated_cong simp: xs_def)
  have f0: "followed (hc_nominal_ns cfg) m0 xs (observe_depth (tk_loop_ns tk) s)" using fol by (auto intro: followed_cong simp: xs_def)
  from isolated_sweep [OF i0 u(3) s1(1)] f0 have i1: "isolated c xs s1" "st_max (hl_sessions s1) = st_max (hl_sessions s)"
      "followed (hc_nominal_ns cfg) m0 xs s1" by simp_all
  then have i2: "isolated c xs (pop_frames io s1)" "followed (hc_nominal_ns cfg) m0 xs (pop_frames io s1)"
    by (auto intro: isolated_cong followed_cong simp: pop_frames_def)
  have st: "isolated c (heard (snd (hl_frames s')) (past @ [tk])) s' \<and> st_max (hl_sessions s') = st_max (hl_sessions s)
    \<and> followed (hc_nominal_ns cfg) m0 (heard (snd (hl_frames s')) (past @ [tk])) s'"
  proof (cases "next_frame io s1")
    case None
    then have "s' = (pop_frames io s1)\<lparr>hl_observed_depth := 0\<rparr>" using s1(4) by simp
    then show ?thesis
      using i1(2) isolated_cong [OF _ _ i2(1), of s'] followed_cong [OF _ _ _ _ i2(2), of s'] None unfolding h by (simp add: pop_frames_def)
  next
    case (Some f)
    then have f: "hot_frame (recording io) cfg tk f (pop_frames io s1) = Some s'" using s1(4) by simp
    have "frame_ok f" using pop_frame [OF iso(2)] Some by (simp add: next_frame_def s1(2))
    from isolated_frame [OF i2(1) this _ f] followed_frame [OF i2(1) this _ f i2(2)] u(2) Some i1(2) show ?thesis
      unfolding h by (simp add: pop_frames_def)
  qed
  then show "isolated c (heard (snd (hl_frames s')) (past @ [tk])) s'" "st_max (hl_sessions s') = st_max (hl_sessions s)"
    "followed (hc_nominal_ns cfg) m0 (heard (snd (hl_frames s')) (past @ [tk])) s'" by simp_all
qed

lemma turn_keeps_ok:
  assumes "hot_turn (recording io) cfg tk s = Some (s', True)" "ok (fst (hl_frames s))"
  shows "ok (fst (hl_frames s'))"
proof -
  from recorded_step [OF assms(1)] obtain s1 where
    s1: "hl_frames s1 = hl_frames s" "case next_frame io s1 of None \<Rightarrow> s' = (pop_frames io s1)\<lparr>hl_observed_depth := 0\<rparr>
       | Some f \<Rightarrow> hot_frame (recording io) cfg tk f (pop_frames io s1) = Some s'" by metis
  have "ok (fst (hl_frames (pop_frames io s1)))" using pop_ok [OF assms(2)] by (simp add: pop_frames_def s1(1))
  then show ?thesis using s1(2) frame_keeps_ok [of cfg tk _ "pop_frames io s1" s'] by (auto split: option.splits)
qed

lemma isolated_turns:
  assumes run: "hot_turns (recording io) cfg tks s = Some s'" and s: "isolated c [] s" "ok (fst (hl_frames s))" "snd (hl_frames s) = []"
      "followed (hc_nominal_ns cfg) m0 [] s"
    and und: "undisturbed (unat (st_max (hl_sessions s))) (hc_idle_ns cfg) (snd (hl_frames s')) tks"
  shows "isolated c (heard (snd (hl_frames s')) tks) s'" "followed (hc_nominal_ns cfg) m0 (heard (snd (hl_frames s')) tks) s'"
proof -
  define n where "n = unat (st_max (hl_sessions s))"
  define I where "I = (\<lambda>past (s :: ('q logged_frames, 'e logged_events) hot). ok (fst (hl_frames s))
    \<and> (undisturbed n (hc_idle_ns cfg) (snd (hl_frames s)) past \<longrightarrow>
        isolated c (heard (snd (hl_frames s)) past) s \<and> followed (hc_nominal_ns cfg) m0 (heard (snd (hl_frames s)) past) s
        \<and> unat (st_max (hl_sessions s)) = n))"
  have "\<exists>past rest. [] @ tks = past @ rest \<and> length (snd (hl_frames s')) = length past \<and> I past s'"
  proof (rule recorded_turns [OF run])
    show "I [] s" "length (snd (hl_frames s)) = length []" using s by (simp_all add: I_def n_def)
    show "I past (observe_depth t s)" if "I past s" for past s t
      using that isolated_cong [of "observe_depth t s" s] followed_cong [of "observe_depth t s" s] by (simp add: I_def)
    show "I (past @ [tk]) s2"
      if i: "I past s" "length (snd (hl_frames s)) = length past" "hot_turn (recording io) cfg tk s = Some (s2, True)" for past s tk s2
    proof -
      obtain p where p: "snd (hl_frames s2) = snd (hl_frames s) @ [p]" by (rule recorded_step [OF i(3)])
      have ok: "ok (fst (hl_frames s))" using i(1) by (simp add: I_def)
      have "isolated c (heard (snd (hl_frames s2)) (past @ [tk])) s2
          \<and> followed (hc_nominal_ns cfg) m0 (heard (snd (hl_frames s2)) (past @ [tk])) s2 \<and> unat (st_max (hl_sessions s2)) = n"
        if u: "undisturbed n (hc_idle_ns cfg) (snd (hl_frames s2)) (past @ [tk])"
      proof -
        from i(1) undisturbed_before(1) [OF u [unfolded p] i(2)]
        have "isolated c (heard (snd (hl_frames s)) past) s" "unat (st_max (hl_sessions s)) = n"
          "followed (hc_nominal_ns cfg) m0 (heard (snd (hl_frames s)) past) s" by (simp_all add: I_def)
        with isolated_turn [OF this(1) ok i(2,3) _ this(3)] u show ?thesis by simp
      qed
      then show ?thesis using turn_keeps_ok [OF i(3) ok] by (simp add: I_def)
    qed
  qed
  then obtain past rest where d: "tks = past @ rest" "length (snd (hl_frames s')) = length past" "I past s'" by auto
  then show "isolated c (heard (snd (hl_frames s')) tks) s'" "followed (hc_nominal_ns cfg) m0 (heard (snd (hl_frames s')) tks) s'"
    using und by (simp_all add: I_def undisturbed_ended heard_ended n_def)
qed

end

lemma turns_history:
  assumes "hot_turns (recording io) cfg tks s = Some s'" "snd (hl_frames s) = []"
  shows "length (snd (hl_frames s')) \<le> length tks"
  using recorded_turns [OF assms(1), where I = "\<lambda>_ _. True" and past = "[]"] assms(2) by auto

lemma loop_history:
  assumes "hot_loop (recording io) opt t0 t1 tks t2 (frames, []) events m = Some r"
  shows "length (snd (hl_frames r)) \<le> length tks"
proof -
  obtain s where s: "hot_turns (recording io) (hot_configure opt t0) tks (hot_start opt (frames, []) events m t1) = Some s"
      "hot_finish (recording io) t2 s = Some r"
    using assms by (auto simp: hot_loop_def split: bind_splits)
  have "hl_frames r = hl_frames s" using s(2) by (auto simp: hot_finish_def Let_def split: bind_splits)
  then show ?thesis using turns_history [OF s(1)] by (simp add: hot_start_def)
qed

section \<open>The flush at the end\<close>

lemma filter_only:
  assumes "i < length xs" "\<And>j. j < length xs \<Longrightarrow> P (xs ! j) \<longleftrightarrow> j = i"
  shows "filter P xs = [xs ! i]"
proof -
  have xs: "xs = take i xs @ xs ! i # drop (Suc i) xs" using assms(1) by (rule id_take_nth_drop)
  have "filter P (take i xs) = []" "filter P (drop (Suc i) xs) = []"
    using assms by (auto simp: filter_empty_conv in_set_conv_nth)
  then show ?thesis using assms by (subst xs) simp
qed

lemma flushed_of_call:
  assumes "index_ok t" "length (st_sessions t) = unat (st_max t)"
  shows "filter (\<lambda>e. ce_session_id e = sid) (concat (map (tail_events now) (filter ss_active (st_sessions t))))
    = (case view t sid of None \<Rightarrow> [] | Some i \<Rightarrow> tagged sid [snd (flush (ss_assembler (sess t i)) now)])"
proof -
  have "filter (\<lambda>e. ce_session_id e = sid) (tail_events now s) = (if ss_id s = sid then tail_events now s else [])" for s
    by (simp add: tail_events_def split: option.split)
  then have "filter (\<lambda>e. ce_session_id e = sid) (concat (map (tail_events now) ss))
      = concat (map (tail_events now) (filter (\<lambda>s. ss_id s = sid) ss))" for ss
    by (induction ss) simp_all
  then have e: "filter (\<lambda>e. ce_session_id e = sid) (concat (map (tail_events now) (filter ss_active (st_sessions t))))
      = concat (map (tail_events now) (filter (\<lambda>s. ss_active s \<and> ss_id s = sid) (st_sessions t)))"
    by (simp add: conj_commute)
  show ?thesis
  proof (cases "view t sid")
    case None
    then have "filter (\<lambda>s. ss_active s \<and> ss_id s = sid) (st_sessions t) = []"
      using view_None [OF assms(1)] assms(2) by (auto simp: filter_empty_conv in_set_conv_nth)
    then show ?thesis unfolding e None by simp
  next
    case (Some i)
    note v = Some [unfolded view_Some [OF assms(1)]]
    have "filter (\<lambda>s. ss_active s \<and> ss_id s = sid) (st_sessions t) = [sess t i]"
      using v assms by (intro filter_only) (auto simp: index_ok_def)
    then show ?thesis unfolding e Some using v by (simp add: tail_events_def tagged_def split: option.split)
  qed
qed

lemma flush_new: "snd (flush (asm_new c) now) = None"
  by (simp add: flush_def asm_new_def)

lemma isolated_finish:
  assumes iso: "isolated c xs s" and run: "hot_finish (recording io) now s = Some s'"
  shows "\<exists>a evs. asm_run (asm_new c) (call_frames sid xs) = Some (a, evs)
    \<and> filter (\<lambda>e. ce_session_id e = sid) (snd (hl_events s')) = tagged sid (evs @ [snd (flush a now)])"
proof -
  define t where "t = hl_sessions s"
  have safe: "table_safe t" using iso by (simp add: isolated_def t_def)
  have ti: "table_inv t" and ix: "index_ok t" using safe by (auto simp: table_safe_def table_ok_def table_inv_def)
  obtain t' fl where e: "flush_all t now = Some (t', fl)" "swept ss_active now t t' fl" using flush_all_ok [OF ti] by blast
  have out: "snd (hl_events s') = snd (hl_events s) @ concat (map (tail_events now) (filter ss_active (st_sessions t)))"
    using run e by (auto simp: hot_finish_def t_def [symmetric] swept_def Let_def)
  obtain evs where evs: "asm_run (asm_new c) (call_frames sid xs) = Some (own_assembler c s sid, evs)"
      "filter (\<lambda>e. ce_session_id e = sid) (snd (hl_events s)) = tagged sid evs"
    using iso unfolding isolated_def by blast
  have "filter (\<lambda>e. ce_session_id e = sid) (concat (map (tail_events now) (filter ss_active (st_sessions t))))
      = tagged sid [snd (flush (own_assembler c s sid) now)]"
    unfolding flushed_of_call [OF ix table_safe_shape [OF safe]]
    by (cases "view t sid") (simp_all add: own_assembler_def flush_new tagged_def t_def [symmetric])
  then show ?thesis using evs out by (simp add: tagged_def)
qed

context hot_queues begin

lemma calls_isolated:
  assumes "ok frames" "co_max_sessions opt < kTombstone"
    "hot_loop (recording io) opt t0 t1 tks t2 (frames, []) (events, []) m = Some r"
    "undisturbed (capacity_of (co_max_sessions opt)) (hc_idle_ns (hot_configure opt t0)) (snd (hl_frames r)) tks"
  shows "\<exists>a evs. asm_run (asm_new (hot_chunker opt)) (call_frames sid (heard (snd (hl_frames r)) tks)) = Some (a, evs)
    \<and> filter (\<lambda>e. ce_session_id e = sid) (snd (hl_events r)) = tagged sid (evs @ [snd (flush a t2)])"
    "m_frames_refused (hl_metrics r) = m_frames_refused m"
    "m_seq_gaps (hl_metrics r) = m_seq_gaps m + missed_frames (heard (snd (hl_frames r)) tks)"
    "m_jitter (hl_metrics r) = foldl (\<lambda>h d. record_with_expected_interval h d (hc_nominal_ns (hot_configure opt t0)))
       (m_jitter m) (deviations (hc_nominal_ns (hot_configure opt t0)) (heard (snd (hl_frames r)) tks))"
proof -
  define s0 :: "('q logged_frames, 'e logged_events) hot" where "s0 = hot_start opt (frames, []) (events, []) m t1"
  obtain s1 where s1: "hot_turns (recording io) (hot_configure opt t0) tks s0 = Some s1" "hot_finish (recording io) t2 s1 = Some r"
    using assms(3) by (auto simp: hot_loop_def s0_def split: bind_splits)
  have f: "hl_frames r = hl_frames s1" "m_frames_refused (hl_metrics r) = m_frames_refused (hl_metrics s1)"
      "m_seq_gaps (hl_metrics r) = m_seq_gaps (hl_metrics s1)" "m_jitter (hl_metrics r) = m_jitter (hl_metrics s1)"
    using s1(2) by (auto simp: hot_finish_def Let_def emits_counts split: bind_splits)
  define t where "t = table_new (co_max_sessions opt) (hot_chunker opt)"
  have "ss_assembler (sess t i) = asm_new (hot_chunker opt)" if "i < unat (st_max t)" for i
    using that by (simp add: t_def table_new_def Let_def session_new_def)
  then have i0: "isolated (hot_chunker opt) [] s0"
    using table_safe_new [OF assms(2), of "hot_chunker opt"] view_new [OF assms(2), of "hot_chunker opt"]
    by (simp add: isolated_def s0_def hot_start_def call_frames_def own_assembler_def tagged_def t_def [symmetric])
  have f0: "followed (hc_nominal_ns (hot_configure opt t0)) m [] s0"
    using view_new [OF assms(2), of "hot_chunker opt"]
    by (simp add: followed_def s0_def hot_start_def missed_frames_def deviations_def)
  have cap: "unat (st_max (hl_sessions s0)) = capacity_of (co_max_sessions opt)"
    using reach_ok [OF assms(2) reach_new] by (simp add: s0_def hot_start_def)
  have q: "ok (fst (hl_frames s0))" "snd (hl_frames s0) = []" using assms(1) by (simp_all add: s0_def hot_start_def)
  note run = isolated_turns [OF s1(1) i0 q f0, unfolded cap, OF assms(4) [unfolded f(1)]]
  show "\<exists>a evs. asm_run (asm_new (hot_chunker opt)) (call_frames sid (heard (snd (hl_frames r)) tks)) = Some (a, evs)
      \<and> filter (\<lambda>e. ce_session_id e = sid) (snd (hl_events r)) = tagged sid (evs @ [snd (flush a t2)])"
    unfolding f(1) by (rule isolated_finish [OF run(1) s1(2)])
  show "m_frames_refused (hl_metrics r) = m_frames_refused m"
    "m_seq_gaps (hl_metrics r) = m_seq_gaps m + missed_frames (heard (snd (hl_frames r)) tks)"
    "m_jitter (hl_metrics r) = foldl (\<lambda>h d. record_with_expected_interval h d (hc_nominal_ns (hot_configure opt t0)))
       (m_jitter m) (deviations (hc_nominal_ns (hot_configure opt t0)) (heard (snd (hl_frames r)) tks))"
    using run(2) unfolding f by (simp_all add: followed_def)
qed

text \<open>With the history, a run from empty metrics always returns.\<close>

lemma recorded_run:
  assumes "ok frames" "co_max_sessions opt < kTombstone" "metrics_new = Some m"
  obtains r where "hot_loop (recording io) opt t0 t1 tks t2 (frames, []) (events, []) m = Some r"
    "hot_loop io opt t0 t1 tks t2 frames events m = Some (forget r)" "length (snd (hl_frames r)) \<le> length tks"
proof -
  obtain s where "hot_loop io opt t0 t1 tks t2 frames events m = Some s"
    using hot_loop_inv [OF assms(1,2) metrics_new_zero(1-4) [OF assms(3)]] by blast
  moreover from this obtain r where r: "hot_loop (recording io) opt t0 t1 tks t2 (frames, []) (events, []) m = Some r" "s = forget r"
    using hot_loop_recorded [of io opt t0 t1 tks t2 "(frames, [])" "(events, [])" m]
    by (cases "hot_loop (recording io) opt t0 t1 tks t2 (frames, []) (events, []) m") auto
  moreover have "length (snd (hl_frames r)) \<le> length tks" by (rule loop_history [OF r(1)])
  ultimately show ?thesis using that by blast
qed

end

section \<open>Properties\<close>

text \<open>C1: Calls do not disturb each other. Over a whole run of the loop, sweeps, deadline and final flush
  included, whatever arrives when and however the frames of the calls interleave: if the calls fit the
  session table and none falls silent for the idle time, the chunks emitted for a call are, in order,
  exactly those a chunk assembler fed with that call's frames alone would close, its flush at the end
  included, with the call's id filled in. The history that says what was popped and emitted does not
  change the run.\<close>

theorem calls_do_not_interfere:
  assumes "valid_capacity c" "\<forall>fs \<in> set arrivals. \<forall>f \<in> set fs. frame_ok f"
    "co_max_sessions opt < kTombstone" "metrics_new = Some m"
  shows "\<exists>r. hot_loop (recording shared_io) opt t0 t1 tks t2 ((ring_new c zero_frame, arrivals), []) ((ring_new d ev, drains), []) m = Some r
    \<and> hot_loop shared_io opt t0 t1 tks t2 (ring_new c zero_frame, arrivals) (ring_new d ev, drains) m = Some (forget r)
    \<and> (undisturbed (capacity_of (co_max_sessions opt)) (hc_idle_ns (hot_configure opt t0)) (snd (hl_frames r)) tks \<longrightarrow>
       (\<forall>sid. \<exists>a evs. asm_run (asm_new (hot_chunker opt)) (call_frames sid (heard (snd (hl_frames r)) tks)) = Some (a, evs)
         \<and> filter (\<lambda>e. ce_session_id e = sid) (snd (hl_events r)) = tagged sid (evs @ [snd (flush a t2)])))"
proof -
  have ok: "frames_ok c (ring_new c zero_frame, arrivals)" by (rule frames_ok_new [OF assms(1,2)])
  obtain r where r: "hot_loop (recording shared_io) opt t0 t1 tks t2 ((ring_new c zero_frame, arrivals), []) ((ring_new d ev, drains), []) m = Some r"
      "hot_loop shared_io opt t0 t1 tks t2 (ring_new c zero_frame, arrivals) (ring_new d ev, drains) m = Some (forget r)"
    using shared.recorded_run [OF ok assms(3,4), of t0 t1 tks t2 "(ring_new d ev, drains)"] by blast
  then show ?thesis using shared.calls_isolated [OF ok assms(3) r(1)] by blast
qed

lemma undisturbed_two:
  assumes "length ps \<le> 2" "2 \<le> cap" "tk_loop_ns tk' - tk_dequeue_ns tk < idle"
  shows "undisturbed cap idle ps [tk, tk']"
proof -
  have short: "card (call_ids (heard [p] [tk] @ heard [p'] [tk'])) \<le> 2" for p p'
    by (cases p; cases p') (simp_all add: call_ids_def card_insert_if)
  have one: "tk_loop_ns tk' - last_heard sid (heard [p] [tk]) < idle" if "sid \<in> call_ids (heard [p] [tk])" for sid p
    using that assms(3) by (cases p) (simp_all add: last_heard_def call_frames_def)
  consider "ps = []" | p where "ps = [p]" | p p' where "ps = [p, p']"
    using assms(1) by (cases ps; cases "tl ps") auto
  then show ?thesis
  proof cases
    case (2 p)
    have "card (call_ids (heard [p] [tk, tk'])) \<le> 2" by (cases p) (simp_all add: heard_def)
    then show ?thesis using assms(2) by (simp add: undisturbed_def 2)
  next
    case (3 p p')
    have h: "heard [p, p'] [tk, tk'] = heard [p] [tk] @ heard [p'] [tk']" using heard_append [of "[p]" "[tk]" "[p']" "[tk']"] by simp
    show ?thesis
      using short [of p p'] one [of _ p] assms(2) unfolding undisturbed_def 3 h by (simp add: less_Suc_eq numeral_2_eq_2 del: heard_one)
  qed (simp add: undisturbed_def)
qed

lemma default_idle: "hc_idle_ns (hot_configure consumer_defaults t) = 2000000000"
proof -
  have "fmul 2000 1000000 = 2000000000" using rnd_of_int [of 2000000000] by (simp add: fmul_def)
  then show ?thesis by (simp add: hot_configure_def consumer_defaults_def u64_of_f_def f_trunc_def)
qed

theorem calls_do_not_interfere_witness:
  "\<exists>m r. metrics_new = Some m
    \<and> hot_loop shared_io consumer_defaults 5 5
        [\<lparr>tk_loop_ns = 6, tk_dequeue_ns = 7, tk_done_ns = 8\<rparr>, \<lparr>tk_loop_ns = 9, tk_dequeue_ns = 9, tk_done_ns = 9\<rparr>] 9
        (ring_new 2 zero_frame, [[loud_frame 1], [quiet_sample 2]]) (ring_new 2 zero_event, []) m = Some (forget r)
    \<and> (\<exists>a evs. asm_run (asm_new (hot_chunker consumer_defaults)) (call_frames 0 (heard (snd (hl_frames r))
            [\<lparr>tk_loop_ns = 6, tk_dequeue_ns = 7, tk_done_ns = 8\<rparr>, \<lparr>tk_loop_ns = 9, tk_dequeue_ns = 9, tk_done_ns = 9\<rparr>])) = Some (a, evs)
         \<and> filter (\<lambda>e. ce_session_id e = 0) (snd (hl_events r)) = tagged 0 (evs @ [snd (flush a 9)]))"
proof -
  define tk tk' where "tk = \<lparr>tk_loop_ns = 6, tk_dequeue_ns = 7, tk_done_ns = 8\<rparr>"
    and "tk' = \<lparr>tk_loop_ns = 9, tk_dequeue_ns = 9, tk_done_ns = 9\<rparr>"
  obtain m where m: "metrics_new = Some m" using metrics_new_ok by blast
  have c: "valid_capacity 2" using valid_capacity_pow2_iff [of 1] by simp
  have k: "co_max_sessions consumer_defaults < kTombstone" by (simp add: consumer_defaults_def kTombstone_def)
  have f: "\<forall>fs \<in> set [[loud_frame 1], [quiet_sample 2]]. \<forall>f \<in> set fs. frame_ok f" using sample_frames_ok by simp
  obtain r where r: "hot_loop (recording shared_io) consumer_defaults 5 5 [tk, tk'] 9
      ((ring_new 2 zero_frame, [[loud_frame 1], [quiet_sample 2]]), []) ((ring_new 2 zero_event, []), []) m = Some r"
      "hot_loop shared_io consumer_defaults 5 5 [tk, tk'] 9 (ring_new 2 zero_frame, [[loud_frame 1], [quiet_sample 2]])
        (ring_new 2 zero_event, []) m = Some (forget r)"
      "undisturbed (capacity_of (co_max_sessions consumer_defaults)) (hc_idle_ns (hot_configure consumer_defaults 5))
        (snd (hl_frames r)) [tk, tk'] \<longrightarrow>
       (\<forall>sid. \<exists>a evs. asm_run (asm_new (hot_chunker consumer_defaults)) (call_frames sid (heard (snd (hl_frames r)) [tk, tk'])) = Some (a, evs)
         \<and> filter (\<lambda>e. ce_session_id e = sid) (snd (hl_events r)) = tagged sid (evs @ [snd (flush a 9)]))"
    using calls_do_not_interfere [OF c f k m] by blast
  have "length (snd (hl_frames r)) \<le> length [tk, tk']" by (rule loop_history [OF r(1)])
  then have "undisturbed (capacity_of (co_max_sessions consumer_defaults)) (hc_idle_ns (hot_configure consumer_defaults 5))
      (snd (hl_frames r)) [tk, tk']"
    by (intro undisturbed_two) (simp_all add: default_idle capacity_of_def tk_def tk'_def, simp add: consumer_defaults_def)
  then show ?thesis using r(2,3) m unfolding tk_def [symmetric] tk'_def [symmetric] by blast
qed

end
