(* ===== verification/Consumer_Calls.thy ===== *)
theory Consumer_Calls
  imports Consumer_Props Hot_Isolation Histogram_Theorems "HOL-Library.Sublist"
begin

text \<open>
  The consumer as a whole, call by call: what arrives, what the hot loop hears of it, the chunks it emits
  and the lines the publisher prints, for both ways of feeding it.
\<close>

section \<open>Queues that account for their contents\<close>

text \<open>What the chunks emitted for a call are, given the frames heard.\<close>

definition call_chunks :: "consumer_options \<Rightarrow> tick list \<Rightarrow> u64 \<Rightarrow> audio_frame option list \<Rightarrow> chunk_event list \<Rightarrow> u32 \<Rightarrow> bool" where
  "call_chunks opt tks t_end ps emitted sid \<longleftrightarrow> (\<exists>a chunks.
     asm_run (asm_new (hot_chunker opt)) (call_frames sid (heard ps tks)) = Some (a, chunks)
     \<and> filter (\<lambda>e. ce_session_id e = sid) emitted = tagged sid (chunks @ [snd (flush a t_end)]))"

text \<open>What the figures that relate a frame to the previous one of its call are.\<close>

definition call_figures :: "consumer_options \<Rightarrow> u64 \<Rightarrow> tick list \<Rightarrow> hot_metrics \<Rightarrow> hot_metrics \<Rightarrow> audio_frame option list \<Rightarrow> bool" where
  "call_figures opt t_config tks m0 m ps \<longleftrightarrow> m_frames_refused m = 0 \<and> m_seq_gaps m = missed_frames (heard ps tks)
     \<and> m_jitter m = foldl (\<lambda>h d. record_with_expected_interval h d (hc_nominal_ns (hot_configure opt t_config)))
         (m_jitter m0) (deviations (hc_nominal_ns (hot_configure opt t_config)) (heard ps tks))"

text \<open>How the metrics of a run, the frames it popped, the chunks it emitted and those accepted fit together.\<close>

definition run_accounts :: "consumer_options \<Rightarrow> u64 \<Rightarrow> tick list \<Rightarrow> u64 \<Rightarrow> hot_metrics \<Rightarrow> hot_metrics
    \<Rightarrow> audio_frame option list \<Rightarrow> chunk_event list \<Rightarrow> chunk_event list \<Rightarrow> bool" where
  "run_accounts opt t_config tks t_end m0 m ps emitted evs \<longleftrightarrow>
     m_transport m = foldl hist_record (m_transport m0) (transport_latencies ps tks) \<and>
     m_frames m + m_frames_refused m = of_nat (length (outs ps))
     \<and> subseq evs emitted \<and> m_chunks m = of_nat (length emitted) \<and> m_event_drops m = of_nat (length emitted - length evs)
     \<and> (undisturbed (capacity_of (co_max_sessions opt)) (hc_idle_ns (hot_configure opt t_config)) ps tks \<longrightarrow>
        (\<forall>sid. call_chunks opt tks t_end ps emitted sid) \<and> call_figures opt t_config tks m0 m ps)"

text \<open>
  The frames a queue still holds or will be given (\<open>pending\<close>), up to what the reader fills in (\<open>key\<close>), come
  out in order; the event side knows what it accepted.
\<close>

locale logged_queues = hot_queues io ok pops sent room
  for io :: "('q, 'e) hot_io" and ok :: "'q \<Rightarrow> bool" and pops :: "'q \<Rightarrow> u64" and sent :: "'e \<Rightarrow> u64" and room :: nat +
  fixes key :: "audio_frame \<Rightarrow> audio_frame" and pending :: "'q \<Rightarrow> audio_frame list" and accepted :: "'e \<Rightarrow> chunk_event list"
  assumes pop_pending: "ok q \<Longrightarrow> subseq (map key (outs [snd (io_pop io q)] @ pending (fst (io_pop io q)))) (map key (pending q))"
    and size_pending: "ok q \<Longrightarrow> subseq (map key (pending (fst (io_size io q)))) (map key (pending q))"
    and push_accepted: "accepted (fst (io_push io e v)) = accepted e @ (if snd (io_push io e v) = KFull then [] else [v])"

context hot_queues begin

text \<open>The recording queues keep the same contract; the pops are those of the history.\<close>

lemma recorded_queues:
  "hot_queues (recording io) (\<lambda>q. ok (fst q)) (\<lambda>q. of_nat (length (outs (snd q)))) (\<lambda>e. sent (fst e)) room"
proof (unfold_locales, goal_cases)
  case (1 q)
  then show ?case using pop_ok [OF 1] by (cases "snd (io_pop io (fst q))") simp_all
qed (use pop_frame size_ok push_counts in simp_all)

lemma recorded_frames:
  assumes "ok frames" "co_max_sessions opt < kTombstone" "metrics_new = Some m"
    "hot_loop (recording io) opt t0 t1 tks t2 (frames, []) (events, []) m = Some r"
  shows "m_frames (hl_metrics r) + m_frames_refused (hl_metrics r) = of_nat (length (outs (snd (hl_frames r))))"
  using hot_queues.hot_loop_inv [OF recorded_queues _ assms(2) metrics_new_zero(1-4) [OF assms(3)],
      of "(frames, [])" t0 t1 tks t2 "(events, [])"] assms(1,4) by auto

end

lemma no_gaps_yet: "metrics_new = Some m \<Longrightarrow> m_seq_gaps m = 0"
  by (auto simp: metrics_new_def split: bind_splits)

context logged_queues begin

definition accounted :: "audio_frame list \<Rightarrow> 'q logged_frames \<Rightarrow> u64 \<times> u64 \<times> 'e logged_events \<Rightarrow> bool" where
  "accounted start q x = (case x of (chunks, drops, e) \<Rightarrow> ok (fst q)
     \<and> subseq (map key (outs (snd q) @ pending (fst q))) (map key start)
     \<and> subseq (accepted (fst e)) (snd e) \<and> chunks = of_nat (length (snd e))
     \<and> drops = of_nat (length (snd e) - length (accepted (fst e))))"

lemma accounted_kept: "kept (recording io) (accounted start)"
  unfolding kept_def
proof (intro allI impI conjI)
  fix q x assume "accounted start q x"
  then obtain chunks drops e where x: "x = (chunks, drops, e)" "ok (fst q)"
      "subseq (map key (outs (snd q) @ pending (fst q))) (map key start)" "subseq (accepted (fst e)) (snd e)"
      "chunks = of_nat (length (snd e))" "drops = of_nat (length (snd e) - length (accepted (fst e)))"
    by (cases x) (auto simp: accounted_def)
  have ext: "subseq (map key (outs (snd q) @ fs)) (map key start)" if "subseq (map key fs) (map key (pending (fst q)))" for fs
    by (rule subseq_order.order_trans [OF _ x(3)]) (simp add: that subseq_append')
  show "accounted start (fst (io_pop (recording io) q)) x"
    using pop_ok [OF x(2)] ext [OF pop_pending [OF x(2)]] x(4-6) by (simp add: accounted_def x(1))
  show "accounted start (fst (io_size (recording io) q)) x"
    using size_ok [OF x(2)] ext [OF size_pending [OF x(2)]] x(4-6) by (simp add: accounted_def x(1))
  show "accounted start q (push_tally (recording io) x v)" for v
    using x(2-6) push_accepted [of "fst e" v] list_emb_length [OF x(4)] subseq_rev_drop_many [OF x(4)]
    by (cases "snd (io_push io (fst e) v)") (simp_all add: accounted_def push_tally_def x(1) Suc_diff_le)
qed

text \<open>The run, its history and each call in it.\<close>

lemma loop_calls:
  assumes "ok frames" "co_max_sessions opt < kTombstone" "metrics_new = Some m" "accepted events = []"
  obtains r where "hot_loop (recording io) opt t0 t1 tks t2 (frames, []) (events, []) m = Some r"
    "hot_loop io opt t0 t1 tks t2 frames events m = Some (forget r)"
    "subseq (map key (outs (snd (hl_frames r)))) (map key (pending frames))"
    "run_accounts opt t0 tks t2 m (hl_metrics r) (snd (hl_frames r)) (snd (hl_events r)) (accepted (fst (hl_events r)))"
proof -
  from recorded_run [OF assms(1-3), of t0 t1 tks t2 events]
  obtain r where r: "hot_loop (recording io) opt t0 t1 tks t2 (frames, []) (events, []) m = Some r"
      "hot_loop io opt t0 t1 tks t2 frames events m = Some (forget r)" by blast
  have "accounted (pending frames) (hl_frames r) (tally r)"
    by (rule hot_loop_keeps [OF accounted_kept _ r(1)])
      (simp add: accounted_def assms(1,4) metrics_new_zero [OF assms(3)])
  then have a: "subseq (map key (outs (snd (hl_frames r))) @ map key (pending (fst (hl_frames r)))) (map key (pending frames))"
      "subseq (accepted (fst (hl_events r))) (snd (hl_events r))" "m_chunks (hl_metrics r) = of_nat (length (snd (hl_events r)))"
      "m_event_drops (hl_metrics r) = of_nat (length (snd (hl_events r)) - length (accepted (fst (hl_events r))))"
    by (simp_all add: accounted_def tally_def)
  have "subseq (map key (outs (snd (hl_frames r)))) (map key (pending frames))"
    by (rule subseq_order.order_trans [OF subseq_rev_drop_many a(1)]) simp
  then show ?thesis
    using that [OF r] loop_transport [OF r(1)] recorded_frames [OF assms(1-3) r(1)] a(2-4) calls_isolated [OF assms(1,2) r(1)]
    unfolding run_accounts_def call_chunks_def call_figures_def by (simp add: metrics_new_zero(2) [OF assms(3)] no_gaps_yet [OF assms(3)])
qed

end

section \<open>The two transports\<close>

definition left_in_ring :: "audio_frame ring \<times> audio_frame list list \<Rightarrow> audio_frame list" where
  "left_in_ring q = ring_items (fst q) @ concat (snd q)"

lemma subseq_tail: "subseq xs ys \<Longrightarrow> subseq (xs @ zs) (ys @ zs)"
  by simp

lemma push_items:
  assumes "ring_wf r"
  shows "ring_wf (fst (try_push r v))" "subseq (ring_items (fst (try_push r v))) (ring_items r @ [v])"
proof -
  obtain T h tc hc where "ring_at r T h tc hc" using assms by (auto simp: ring_wf_def)
  note p = try_push_at [OF this, of v]
  show "ring_wf (fst (try_push r v))" using p by blast
  show "subseq (ring_items (fst (try_push r v))) (ring_items r @ [v])"
    using p by (cases "length (ring_items r) < length (rg_slots r)") (simp_all add: subseq_rev_drop_many)
qed

lemma pop_items:
  assumes "ring_wf r"
  shows "subseq (outs [snd (try_pop r)] @ ring_items (fst (try_pop r))) (ring_items r)"
proof -
  obtain T h tc hc where "ring_at r T h tc hc" using assms by (auto simp: ring_wf_def)
  from try_pop_at [OF this] show ?thesis by (cases "ring_items r") simp_all
qed

lemma pushes_items:
  "ring_wf r \<Longrightarrow> subseq (ring_items (foldl (\<lambda>r f. fst (try_push r f)) r fs)) (ring_items r @ fs)"
proof (induction fs arbitrary: r)
  case (Cons f fs)
  note p = push_items [OF Cons.prems, of f]
  have "subseq (ring_items (fst (try_push r f)) @ fs) (ring_items r @ f # fs)" using subseq_tail [OF p(2), of fs] by simp
  then show ?case using subseq_order.order_trans [OF Cons.IH [OF p(1)]] by simp
qed simp

lemma arrive_items: "frames_ok c q \<Longrightarrow> subseq (left_in_ring (arrive q)) (left_in_ring q)"
  using subseq_tail [OF pushes_items, of "fst q" "hd (snd q)" "concat (tl (snd q))"]
  by (cases q rule: arrive.cases) (simp_all add: left_in_ring_def frames_ok_def)

lemma shared_pop_items:
  assumes "frames_ok c q"
  shows "subseq (outs [snd (io_pop shared_io q)] @ left_in_ring (fst (io_pop shared_io q))) (left_in_ring q)"
proof -
  obtain r later where a: "arrive q = (r, later)" by (cases "arrive q")
  then have "ring_wf r" using arrive_ok(1) [OF assms] by (simp add: frames_ok_def)
  from subseq_tail [OF pop_items [OF this]]
  have "subseq ((outs [snd (try_pop r)] @ ring_items (fst (try_pop r))) @ concat later) (ring_items r @ concat later)" .
  also have "subseq (ring_items r @ concat later) (left_in_ring q)" using arrive_items [OF assms] by (simp add: a left_in_ring_def)
  finally show ?thesis by (simp add: shared_io_def a left_in_ring_def case_prod_beta)
qed

lemma push_logged:
  "pb_accepted (fst (fst (push_to_publisher e v))) = pb_accepted (fst e) @ (if snd (push_to_publisher e v) = KFull then [] else [v])"
proof -
  obtain p later where r: "publisher_runs e = (p, later)" by (cases "publisher_runs e")
  then have "pb_accepted p = pb_accepted (fst e)"
    using publish_turns_accepted by (cases e rule: publisher_runs.cases) (auto simp: running_tick_def)
  then show ?thesis by (simp add: push_to_publisher_def push_event_def r split: prod.split)
qed

interpretation shm_calls: logged_queues shm_io "frames_ok c" "\<lambda>q. consumed (fst q)" published c "\<lambda>f. f" left_in_ring
    "\<lambda>e. pb_accepted (fst e)" for c
proof (unfold_locales, goal_cases)
  case (1 q)
  then show ?case using shared_pop_items by (simp add: shm_io_def)
next
  case (2 q)
  then show ?case using arrive_items [of c q] by (simp add: shm_io_def shared_io_def case_prod_beta)
next
  case (3 e v)
  then show ?case using push_logged by (simp add: shm_io_def)
qed

text \<open>The reader of the socket fills in the capture time of a frame that has none.\<close>

definition unstamped :: "audio_frame \<Rightarrow> audio_frame" where
  "unstamped f = f\<lparr>hdr := (hdr f)\<lparr>fh_t_produce_ns := 0\<rparr>\<rparr>"

definition left_at_reader :: "reader_side \<Rightarrow> audio_frame list" where
  "left_at_reader q = left_in_ring (in_queue (fst q), snd q)"

lemma take_frame_items:
  "\<exists>f'. in_queue (take_frame try_push now st f) = fst (try_push (in_queue st) f') \<and> unstamped f' = unstamped f"
proof -
  obtain st1 f1 where s: "stamp_frame now st f = (st1, f1)" by (cases "stamp_frame now st f")
  then have "in_queue st1 = in_queue st" "unstamped f1 = unstamped f"
    by (auto simp: stamp_frame_def unstamped_def split: if_splits)
  then show ?thesis
    using s by (intro exI [of _ f1]) (simp add: take_frame_def offer_frame_def Let_def split: prod.split)
qed

lemma take_frames_items:
  "ring_wf (in_queue st) \<Longrightarrow> subseq (map unstamped (ring_items (in_queue (foldl (take_frame try_push now) st fs))))
     (map unstamped (ring_items (in_queue st) @ fs))"
proof (induction fs arbitrary: st)
  case (Cons f fs)
  obtain f' where f: "in_queue (take_frame try_push now st f) = fst (try_push (in_queue st) f')" "unstamped f' = unstamped f"
    using take_frame_items by blast
  note p = push_items [OF Cons.prems, of f']
  have "subseq (map unstamped (ring_items (fst (try_push (in_queue st) f')) @ fs)) (map unstamped (ring_items (in_queue st) @ f # fs))"
    using subseq_tail [OF subseq_map [OF p(2)], of unstamped "map unstamped fs"] f(2) by simp
  then show ?case using subseq_order.order_trans [OF Cons.IH [of "take_frame try_push now st f"]] p(1) f(1) by simp
qed simp

lemma reader_items:
  "reader_ok c q \<Longrightarrow> subseq (map unstamped (left_at_reader (reader_runs now q))) (map unstamped (left_at_reader q))"
  using subseq_tail [OF take_frames_items, of "fst q" now "hd (snd q)" "map unstamped (concat (tl (snd q)))"]
  by (cases "(now, q)" rule: reader_runs.cases) (simp_all add: left_at_reader_def left_in_ring_def reader_ok_def frames_ok_def)

lemma reader_pop_items:
  assumes "reader_ok c q"
  shows "subseq (map unstamped (outs [snd (io_pop (uds_io now) q)] @ left_at_reader (fst (io_pop (uds_io now) q)))) (map unstamped (left_at_reader q))"
proof -
  obtain st later where a: "reader_runs now q = (st, later)" by (cases "reader_runs now q")
  then have "ring_wf (in_queue st)" using reader_runs_ok [OF assms, of now] by (simp add: reader_ok_def frames_ok_def)
  from subseq_tail [OF pop_items [OF this], of "concat later"]
  have "subseq (map unstamped ((outs [snd (try_pop (in_queue st))] @ ring_items (fst (try_pop (in_queue st)))) @ concat later))
      (map unstamped (left_at_reader (reader_runs now q)))"
    unfolding a left_at_reader_def left_in_ring_def fst_conv snd_conv by (rule subseq_map)
  also have "subseq (map unstamped (left_at_reader (reader_runs now q))) (map unstamped (left_at_reader q))" by (rule reader_items [OF assms])
  finally show ?thesis by (simp add: uds_io_def a left_at_reader_def left_in_ring_def case_prod_beta)
qed

interpretation uds_calls: logged_queues "uds_io now" "reader_ok c" "\<lambda>q. consumed (in_queue (fst q))" published c unstamped
    left_at_reader "\<lambda>e. pb_accepted (fst e)" for now c
proof (unfold_locales, goal_cases)
  case (1 q)
  then show ?case by (rule reader_pop_items)
next
  case (2 q)
  then show ?case using reader_items [of c q now] by (simp add: uds_io_def left_at_reader_def case_prod_beta)
next
  case (3 e v)
  then show ?case using push_logged by (simp add: uds_io_def)
qed

section \<open>The calls of a run of main\<close>

text \<open>The frames the hot loop of a run popped and the chunks it emitted.\<close>

definition consumer_history :: "consumer_options \<Rightarrow> main_world \<Rightarrow> (audio_frame option list \<times> chunk_event list) option" where
  "consumer_history opt w = do {
     m \<leftarrow> metrics_new;
     if co_uds_path opt = [] then
       map_option (\<lambda>h. (snd (hl_frames h), snd (hl_events h)))
         (hot_loop (recording shm_io) opt (mw_config_ns w) (mw_start_ns w) (mw_ticks w) (mw_end_ns w)
            ((ring_new kFrameRingCapacity zero_frame, mw_arrivals w), []) ((start_publisher, mw_turns w), []) m)
     else
       map_option (\<lambda>h. (snd (hl_frames h), snd (hl_events h)))
         (hot_loop (recording (uds_io (mw_reader_clock w))) opt (mw_config_ns w) (mw_start_ns w) (mw_ticks w) (mw_end_ns w)
            ((reader_start m, mw_arrivals w), []) ((start_publisher, mw_turns w), []) m)
   }"

text \<open>What both branches of \<open>main\<close> guarantee.\<close>

definition calls_accounted :: "consumer_options \<Rightarrow> main_world \<Rightarrow> (main_result \<times> main_files) option \<Rightarrow> bool" where
  "calls_accounted opt w run \<longleftrightarrow> (\<exists>ps emitted r files' m0 m evs. metrics_new = Some m0
    \<and> consumer_history opt w = Some (ps, emitted) \<and> run = Some (r, files') \<and> mr_code r = 0
    \<and> mr_stderr r = report m (co_frame_ms opt) (if co_uds_path opt = [] then ''shm'' else ''uds'')
    \<and> (if co_uds_path opt = [] then subseq (outs ps) (concat (mw_arrivals w))
       else subseq (map unstamped (outs ps)) (map unstamped (concat (mw_arrivals w))))
    \<and> mr_csv r = dump_csv (mw_can_open w) opt m \<and> mr_stdout r \<noteq> [] \<and> last (mr_stdout r) = Flushed
    \<and> printed (mr_stdout r) = map event_line evs
    \<and> run_accounts opt (mw_config_ns w) (mw_ticks w) (mw_end_ns w) m0 m ps emitted evs)"

lemma publisher_starts_empty: "pb_accepted (fst (start_publisher, turns)) = []"
  by (simp add: start_publisher_def publish_start_def)

lemma shm_calls_accounted:
  assumes "consumer_parse_args args = Some opt" "co_max_sessions opt < kTombstone"
    "\<forall>fs \<in> set (mw_arrivals w). \<forall>f \<in> set fs. frame_ok f" "kEventRingCapacity < mw_drain w" "co_uds_path opt = []"
    "sa_open (mw_shm w)" "sa_truncate (mw_shm w)" "sa_map (mw_shm w)"
  shows "calls_accounted opt w (consumer_main argv args w files)"
proof -
  define t0 tks t2 where "t0 = mw_config_ns w" and "tks = mw_ticks w" and "t2 = mw_end_ns w"
  obtain m0 where m0: "metrics_new = Some m0" using metrics_new_ok by blast
  have ok: "frames_ok kFrameRingCapacity (ring_new kFrameRingCapacity zero_frame, mw_arrivals w)"
    by (rule frames_ok_new [OF valid_capacities(1) assms(3)])
  obtain h where h: "hot_loop (recording shm_io) opt t0 (mw_start_ns w) tks t2
        ((ring_new kFrameRingCapacity zero_frame, mw_arrivals w), []) ((start_publisher, mw_turns w), []) m0 = Some h"
      "hot_loop shm_io opt t0 (mw_start_ns w) tks t2
        (ring_new kFrameRingCapacity zero_frame, mw_arrivals w) (start_publisher, mw_turns w) m0 = Some (forget h)"
      "subseq (map (\<lambda>f. f) (outs (snd (hl_frames h)))) (map (\<lambda>f. f) (left_in_ring (ring_new kFrameRingCapacity zero_frame, mw_arrivals w)))"
      "run_accounts opt t0 tks t2 m0 (hl_metrics h) (snd (hl_frames h)) (snd (hl_events h)) (pb_accepted (fst (fst (hl_events h))))"
    by (rule shm_calls.loop_calls [OF ok assms(2) m0 publisher_starts_empty])
  note run = run_shm_loop [OF assms(6-8) h(2) [unfolded t0_def tks_def t2_def], of files, simplified]
  from close_main_ok [OF conjunct2 [OF run] assms(4), of opt "hl_metrics h"] obtain r where
    "close_main opt w (hl_metrics h) (fst (hl_events h)) = Some r" "mr_code r = 0"
    "mr_stderr r = report (hl_metrics h) (co_frame_ms opt) (if co_uds_path opt = [] then ''shm'' else ''uds'')"
    "mr_csv r = dump_csv (mw_can_open w) opt (hl_metrics h)" "mr_stdout r \<noteq> []" "last (mr_stdout r) = Flushed"
    "printed (mr_stdout r) = map event_line (pb_accepted (fst (fst (hl_events h))))" by blast
  with h run assms(5) show ?thesis
    unfolding calls_accounted_def
    by (auto simp: assms(1) m0 consumer_history_def consumer_main_def t0_def tks_def t2_def left_in_ring_def op_simps
        intro!: exI [of _ "hl_metrics h"])
qed

lemma run_accounts_shed [simp]:
  "run_accounts opt t0 tks t2 m0 (m\<lparr>m_ring_full_drops := shed\<rparr>) ps emitted evs = run_accounts opt t0 tks t2 m0 m ps emitted evs"
  by (simp add: run_accounts_def call_figures_def)

lemma uds_calls_accounted:
  assumes "consumer_parse_args args = Some opt" "co_max_sessions opt < kTombstone"
    "\<forall>fs \<in> set (mw_arrivals w). \<forall>f \<in> set fs. frame_ok f" "kEventRingCapacity < mw_drain w" "co_uds_path opt \<noteq> []"
    "uds_start (mw_uds w) (co_uds_path opt) (mf_sockets files) = (sockets, None)"
  shows "calls_accounted opt w (consumer_main argv args w files)"
proof -
  define t0 tks t2 where "t0 = mw_config_ns w" and "tks = mw_ticks w" and "t2 = mw_end_ns w"
  obtain m0 where m0: "metrics_new = Some m0" using metrics_new_ok by blast
  obtain h where h: "hot_loop (recording (uds_io (mw_reader_clock w))) opt t0 (mw_start_ns w) tks t2
        ((reader_start m0, mw_arrivals w), []) ((start_publisher, mw_turns w), []) m0 = Some h"
      "hot_loop (uds_io (mw_reader_clock w)) opt t0 (mw_start_ns w) tks t2
        (reader_start m0, mw_arrivals w) (start_publisher, mw_turns w) m0 = Some (forget h)"
      "subseq (map unstamped (outs (snd (hl_frames h)))) (map unstamped (left_at_reader (reader_start m0, mw_arrivals w)))"
      "run_accounts opt t0 tks t2 m0 (hl_metrics h) (snd (hl_frames h)) (snd (hl_events h)) (pb_accepted (fst (fst (hl_events h))))"
    by (rule uds_calls.loop_calls [OF reader_start_ok [OF assms(3)] assms(2) m0 publisher_starts_empty])
  from run_uds_loop [OF assms(6), of m0 "forget h"] h(2) obtain shed where
    run: "run_uds opt w m0 files = Some ((hl_metrics h)\<lparr>m_ring_full_drops := shed\<rparr>, fst (hl_events h),
      files\<lparr>mf_sockets := uds_stop (co_uds_path opt) sockets\<rparr>)" "publisher_ok (fst (hl_events h))"
    by (auto simp: t0_def tks_def t2_def)
  from close_main_ok [OF run(2) assms(4), of opt "(hl_metrics h)\<lparr>m_ring_full_drops := shed\<rparr>"] obtain r where
    "close_main opt w ((hl_metrics h)\<lparr>m_ring_full_drops := shed\<rparr>) (fst (hl_events h)) = Some r" "mr_code r = 0"
    "mr_stderr r = report ((hl_metrics h)\<lparr>m_ring_full_drops := shed\<rparr>) (co_frame_ms opt) (if co_uds_path opt = [] then ''shm'' else ''uds'')"
    "mr_csv r = dump_csv (mw_can_open w) opt ((hl_metrics h)\<lparr>m_ring_full_drops := shed\<rparr>)" "mr_stdout r \<noteq> []" "last (mr_stdout r) = Flushed"
    "printed (mr_stdout r) = map event_line (pb_accepted (fst (fst (hl_events h))))" by blast
  with h run(1) assms(5) show ?thesis
    unfolding calls_accounted_def
    by (auto simp: assms(1) m0 consumer_history_def consumer_main_def t0_def tks_def t2_def left_at_reader_def left_in_ring_def
        reader_start_def op_simps intro!: exI [of _ "(hl_metrics h)\<lparr>m_ring_full_drops := shed\<rparr>"])
qed

lemma main_calls_accounted:
  assumes "consumer_parse_args args = Some opt" "co_max_sessions opt < kTombstone"
    "\<forall>fs \<in> set (mw_arrivals w). \<forall>f \<in> set fs. frame_ok f" "kEventRingCapacity < mw_drain w"
    "if co_uds_path opt = [] then sa_open (mw_shm w) \<and> sa_truncate (mw_shm w) \<and> sa_map (mw_shm w)
     else snd (uds_start (mw_uds w) (co_uds_path opt) (mf_sockets files)) = None"
  shows "calls_accounted opt w (consumer_main argv args w files)"
proof (cases "co_uds_path opt = []")
  case True
  then show ?thesis using assms(5) by (intro shm_calls_accounted [OF assms(1-4)]) simp_all
next
  case False
  then obtain sockets where "uds_start (mw_uds w) (co_uds_path opt) (mf_sockets files) = (sockets, None)"
    using assms(5) by (cases "uds_start (mw_uds w) (co_uds_path opt) (mf_sockets files)") auto
  then show ?thesis by (rule uds_calls_accounted [OF assms(1-4) False])
qed

lemma history_length:
  assumes "consumer_history opt w = Some (ps, emitted)"
  shows "length ps \<le> length (mw_ticks w)"
proof -
  obtain m where m: "metrics_new = Some m" using metrics_new_ok by blast
  show ?thesis using assms by (auto simp: consumer_history_def m split: if_splits dest!: loop_history)
qed

section \<open>Properties\<close>

text \<open>C2: From the frames that arrive to the lines that are printed. Whichever way the consumer is fed and
  however its threads interleave, \<open>main\<close> returns 0 once the publisher has had a turn per slot of the event
  ring and one more, and its output accounts for every step: what the hot
  loop hears is a subsequence of what arrived (with the capture time filled in by the reader of the
  socket) and is counted in the report as processed or refused; the lines printed are, in order, the
  chunks emitted less the counted drops, flushed at the end, and the CSV files hold the figures of the
  report; and when the calls fit the table and none falls silent, the
  chunks emitted for a call are exactly those of an assembler that hears this call alone.\<close>

theorem consumer_prints_every_call:
  assumes "consumer_parse_args args = Some opt" "co_max_sessions opt < kTombstone"
    "\<forall>fs \<in> set (mw_arrivals w). \<forall>f \<in> set fs. frame_ok f" "kEventRingCapacity < mw_drain w"
    "if co_uds_path opt = [] then sa_open (mw_shm w) \<and> sa_truncate (mw_shm w) \<and> sa_map (mw_shm w)
     else snd (uds_start (mw_uds w) (co_uds_path opt) (mf_sockets files)) = None"
  shows "\<exists>ps emitted r files' m evs. consumer_history opt w = Some (ps, emitted)
    \<and> consumer_main argv args w files = Some (r, files') \<and> mr_code r = 0
    \<and> mr_stderr r = report m (co_frame_ms opt) (if co_uds_path opt = [] then ''shm'' else ''uds'')
    \<and> (if co_uds_path opt = [] then subseq (outs ps) (concat (mw_arrivals w))
       else subseq (map unstamped (outs ps)) (map unstamped (concat (mw_arrivals w))))
    \<and> m_frames m + m_frames_refused m = of_nat (length (outs ps))
    \<and> m_chunks m = of_nat (length emitted) \<and> m_event_drops m = of_nat (length emitted - length evs)
    \<and> subseq evs emitted \<and> printed (mr_stdout r) = map event_line evs
    \<and> mr_csv r = dump_csv (mw_can_open w) opt m \<and> mr_stdout r \<noteq> [] \<and> last (mr_stdout r) = Flushed
    \<and> (undisturbed (capacity_of (co_max_sessions opt)) (hc_idle_ns (hot_configure opt (mw_config_ns w))) ps (mw_ticks w) \<longrightarrow>
       (\<forall>sid. call_chunks opt (mw_ticks w) (mw_end_ns w) ps emitted sid))"
  using main_calls_accounted [OF assms] unfolding calls_accounted_def run_accounts_def by blast

definition sample_calls :: main_world where
  "sample_calls = sample_world\<lparr>mw_arrivals := [[loud_frame 1], [quiet_sample 2]],
     mw_ticks := [\<lparr>tk_loop_ns = 6, tk_dequeue_ns = 7, tk_done_ns = 8\<rparr>, \<lparr>tk_loop_ns = 9, tk_dequeue_ns = 9, tk_done_ns = 9\<rparr>]\<rparr>"

definition sample_call_options :: consumer_options where
  "sample_call_options = consumer_defaults\<lparr>co_uds_path := ''/s''\<rparr>"

lemma sample_calls_facts:
  "consumer_parse_args [(KUds, ''/s'')] = Some sample_call_options" "co_max_sessions sample_call_options < kTombstone"
  "\<forall>fs \<in> set (mw_arrivals sample_calls). \<forall>f \<in> set fs. frame_ok f" "kEventRingCapacity < mw_drain sample_calls"
  "if co_uds_path sample_call_options = [] then sa_open (mw_shm sample_calls) \<and> sa_truncate (mw_shm sample_calls) \<and> sa_map (mw_shm sample_calls)
   else snd (uds_start (mw_uds sample_calls) (co_uds_path sample_call_options) (mf_sockets \<lparr>mf_shm = Map.empty, mf_sockets = {}\<rparr>)) = None"
  "co_uds_path sample_call_options \<noteq> []" "co_frame_ms sample_call_options = 20"
  using sample_frames_ok
  by (simp_all add: consumer_parse_args_def sample_call_options_def consumer_defaults_def kTombstone_def sample_calls_def sample_world_def
      kEventRingCapacity_def uds_start_def)

lemma sample_calls_undisturbed:
  assumes "consumer_history sample_call_options sample_calls = Some (ps, emitted)"
  shows "undisturbed (capacity_of (co_max_sessions sample_call_options)) (hc_idle_ns (hot_configure sample_call_options (mw_config_ns sample_calls)))
    ps (mw_ticks sample_calls)"
  using history_length [OF assms] default_idle
  by (simp add: sample_calls_def capacity_of_def sample_call_options_def hot_configure_def consumer_defaults_def)
    (intro undisturbed_two; simp)

theorem consumer_prints_every_call_witness:
  "\<exists>ps emitted r files' (m :: hot_metrics) evs. consumer_history sample_call_options sample_calls = Some (ps, emitted)
    \<and> consumer_main ''vhp'' [(KUds, ''/s'')] sample_calls \<lparr>mf_shm = Map.empty, mf_sockets = {}\<rparr> = Some (r, files')
    \<and> mr_code r = 0 \<and> mr_stderr r = report m 20 ''uds'' \<and> m_chunks m = of_nat (length emitted)
    \<and> subseq evs emitted \<and> printed (mr_stdout r) = map event_line evs
    \<and> call_chunks sample_call_options (mw_ticks sample_calls) (mw_end_ns sample_calls) ps emitted 0"
  using consumer_prints_every_call [OF sample_calls_facts(1-5), of "''vhp''"] sample_calls_facts(6,7) sample_calls_undisturbed
  by (simp split del: if_split) blast

text \<open>C11: The per-call figures of the report are those of each call alone. When the calls fit the table and
  none falls silent, no frame is refused, the gaps are the sequence numbers missing between consecutive
  frames of the same call (in a call whose numbers increase, what was not heard between its first and its
  last frame), and the jitter histogram holds, with the missed samples filled in, how far the time between
  consecutive frames of a call is from the nominal one: interleaving calls is not counted as jitter or loss.\<close>

theorem consumer_call_figures:
  assumes "consumer_parse_args args = Some opt" "co_max_sessions opt < kTombstone"
    "\<forall>fs \<in> set (mw_arrivals w). \<forall>f \<in> set fs. frame_ok f" "kEventRingCapacity < mw_drain w"
    "if co_uds_path opt = [] then sa_open (mw_shm w) \<and> sa_truncate (mw_shm w) \<and> sa_map (mw_shm w)
     else snd (uds_start (mw_uds w) (co_uds_path opt) (mf_sockets files)) = None"
  shows "\<exists>ps emitted r files' m m0. consumer_history opt w = Some (ps, emitted)
    \<and> consumer_main argv args w files = Some (r, files') \<and> metrics_new = Some m0
    \<and> mr_stderr r = report m (co_frame_ms opt) (if co_uds_path opt = [] then ''shm'' else ''uds'')
    \<and> (undisturbed (capacity_of (co_max_sessions opt)) (hc_idle_ns (hot_configure opt (mw_config_ns w))) ps (mw_ticks w) \<longrightarrow>
       m_frames_refused m = 0 \<and> m_frames m = of_nat (length (outs ps))
       \<and> m_seq_gaps m = missed_frames (heard ps (mw_ticks w))
       \<and> ((\<forall>sid \<in> call_ids (heard ps (mw_ticks w)). sorted_wrt (<) (call_seqs sid (heard ps (mw_ticks w)))) \<longrightarrow>
           m_seq_gaps m = (\<Sum>sid \<in> call_ids (heard ps (mw_ticks w)). last (call_seqs sid (heard ps (mw_ticks w)))
             - hd (call_seqs sid (heard ps (mw_ticks w))) + 1 - of_nat (length (call_seqs sid (heard ps (mw_ticks w))))))
       \<and> m_jitter m = foldl (\<lambda>h d. record_with_expected_interval h d (hc_nominal_ns (hot_configure opt (mw_config_ns w))))
           (m_jitter m0) (deviations (hc_nominal_ns (hot_configure opt (mw_config_ns w))) (heard ps (mw_ticks w))))"
proof -
  from main_calls_accounted [OF assms, of argv, unfolded calls_accounted_def] obtain ps emitted r files' m0 m evs where
    h: "metrics_new = Some m0" "consumer_history opt w = Some (ps, emitted)" "consumer_main argv args w files = Some (r, files')"
      "mr_stderr r = report m (co_frame_ms opt) (if co_uds_path opt = [] then ''shm'' else ''uds'')"
    and a: "run_accounts opt (mw_config_ns w) (mw_ticks w) (mw_end_ns w) m0 m ps emitted evs" by blast
  have "m_frames m + m_frames_refused m = of_nat (length (outs ps))" using a by (simp add: run_accounts_def)
  moreover have "undisturbed (capacity_of (co_max_sessions opt)) (hc_idle_ns (hot_configure opt (mw_config_ns w))) ps (mw_ticks w)
      \<Longrightarrow> call_figures opt (mw_config_ns w) (mw_ticks w) m0 m ps" using a by (simp add: run_accounts_def)
  ultimately show ?thesis
    using h missed_frames_increasing [of "heard ps (mw_ticks w)"]
    by (intro exI [of _ ps] exI [of _ emitted] exI [of _ r] exI [of _ files'] exI [of _ m] exI [of _ m0])
      (auto simp: call_figures_def)
qed

theorem consumer_call_figures_witness:
  "\<exists>ps emitted r files' (m :: hot_metrics). consumer_history sample_call_options sample_calls = Some (ps, emitted)
    \<and> consumer_main ''vhp'' [(KUds, ''/s'')] sample_calls \<lparr>mf_shm = Map.empty, mf_sockets = {}\<rparr> = Some (r, files')
    \<and> mr_stderr r = report m 20 ''uds'' \<and> m_frames_refused m = 0 \<and> m_frames m = of_nat (length (outs ps))
    \<and> m_seq_gaps m = missed_frames (heard ps (mw_ticks sample_calls))"
  using consumer_call_figures [OF sample_calls_facts(1-5), of "''vhp''"] sample_calls_facts(6,7) sample_calls_undisturbed
  by (simp split del: if_split) blast

text \<open>C12: The latencies the program reports are those of the frames it heard: the transport histogram of the
  report counts, for every frame heard with a capture time not after its dequeue, the time in between;
  what exceeds the range of the histogram (at least a second) is in its overflow counter, and each
  percentile of the rest is the order statistic of its rank (in double precision) rounded up by less than one part in 1024.\<close>

theorem consumer_latencies_true:
  assumes "consumer_parse_args args = Some opt" "co_max_sessions opt < kTombstone"
    "\<forall>fs \<in> set (mw_arrivals w). \<forall>f \<in> set fs. frame_ok f" "kEventRingCapacity < mw_drain w"
    "if co_uds_path opt = [] then sa_open (mw_shm w) \<and> sa_truncate (mw_shm w) \<and> sa_map (mw_shm w)
     else snd (uds_start (mw_uds w) (co_uds_path opt) (mf_sockets files)) = None"
    and "length (mw_ticks w) < 2 ^ 53" "0 \<le> p" "p \<le> 100"
  shows "\<exists>ps emitted r files' m h0 ws. consumer_history opt w = Some (ps, emitted)
    \<and> consumer_main argv args w files = Some (r, files')
    \<and> mr_stderr r = report m (co_frame_ms opt) (if co_uds_path opt = [] then ''shm'' else ''uds'')
    \<and> hist_default 1000000000 = Some h0 \<and> ws = filter (tracked h0) (transport_latencies ps (mw_ticks w))
    \<and> unat (hist_count (m_transport m)) = length ws
    \<and> unat (h_overflow (m_transport m)) + length ws = length (transport_latencies ps (mw_ticks w))
    \<and> (ws \<noteq> [] \<longrightarrow> close_percentile ws p (value_at_percentile (m_transport m) p))"
proof -
  from main_calls_accounted [OF assms(1-5), of argv, unfolded calls_accounted_def] obtain ps emitted r files' m0 m evs where
    m0: "metrics_new = Some m0" and h: "consumer_history opt w = Some (ps, emitted)" "consumer_main argv args w files = Some (r, files')"
      "mr_stderr r = report m (co_frame_ms opt) (if co_uds_path opt = [] then ''shm'' else ''uds'')"
    and a: "run_accounts opt (mw_config_ns w) (mw_ticks w) (mw_end_ns w) m0 m ps emitted evs" by blast
  define vs ws where "vs = transport_latencies ps (mw_ticks w)" and "ws = filter (tracked (m_transport m0)) vs"
  have h0: "hist_default 1000000000 = Some (m_transport m0)" using m0 by (auto simp: metrics_new_def split: bind_splits)
  have len: "length vs < 2 ^ 53" using length_latencies [of ps "mw_ticks w"] history_length [OF h(1)] assms(6) by (simp add: vs_def)
  have t: "m_transport m = foldl hist_record (m_transport m0) vs" using a by (simp add: run_accounts_def vs_def)
  have c: "unat (hist_count (m_transport m)) = length ws"
    "unat (h_overflow (m_transport m)) = length (filter (\<lambda>v. \<not> tracked (m_transport m0) v) vs)"
    using records_counted [OF h0, of vs] len by (simp_all add: t ws_def)
  have "close_percentile ws p (value_at_percentile (m_transport m) p)" if "ws \<noteq> []"
    unfolding t by (rule percentile_close [OF h0 len ws_def [symmetric] that assms(7,8)])
  then show ?thesis
    using h h0 c sum_length_filter_compl [of "tracked (m_transport m0)" vs]
    by (intro exI [of _ ps] exI [of _ emitted] exI [of _ r] exI [of _ files'] exI [of _ m] exI [of _ "m_transport m0"] exI [of _ ws])
      (simp add: ws_def vs_def add.commute)
qed

theorem consumer_latencies_true_witness:
  "\<exists>ps emitted r files' (m :: hot_metrics) h0. consumer_history sample_call_options sample_calls = Some (ps, emitted)
    \<and> consumer_main ''vhp'' [(KUds, ''/s'')] sample_calls \<lparr>mf_shm = Map.empty, mf_sockets = {}\<rparr> = Some (r, files')
    \<and> mr_stderr r = report m 20 ''uds'' \<and> hist_default 1000000000 = Some h0
    \<and> unat (hist_count (m_transport m)) = length (filter (tracked h0) (transport_latencies ps (mw_ticks sample_calls)))"
proof -
  have "length (mw_ticks sample_calls) < 2 ^ 53" by (simp add: sample_calls_def)
  from consumer_latencies_true [OF sample_calls_facts(1-5) this, of 50 "''vhp''"] sample_calls_facts(6,7) show ?thesis
    by (simp split del: if_split) blast
qed

end
