(* ===== verification/Producer.thy ===== *)
theory Producer
  imports Wire Options Spsc_Ring "HOL-Library.Sublist"
begin

text \<open>
  The load generator \<open>src/vhp_producer.cpp\<close>: the xorshift noise source, the utterance schedule, the
  paced loop over sequence numbers and sessions, and the two sinks a frame can go to, the frame ring
  and the unix socket.

  Clock readings enter as the readings each turn takes (\<open>producer_tick\<close>); the end of the list of ticks
  is \<open>g_running\<close> turning false. The kernel decides how many bytes a \<open>write\<close> accepts: \<open>us_accepts\<close> says,
  call by call. \<^const>\<open>None\<close> is undefined behaviour: a conversion to \<open>int16_t\<close> out of range, a store
  outside the payload, a frame length of zero milliseconds as a divisor. A double converted to an unsigned
  integer that cannot hold it is undefined in C++ too, but wraps here (\<open>Float64\<close>): no theorem
  depends on which value results.
\<close>

section \<open>Noise\<close>

definition rng_new :: "u64 \<Rightarrow> u64" where
  "rng_new seed = (if seed \<noteq> 0 then seed else 0x9E3779B97F4A7C15)"

definition rng_next :: "u64 \<Rightarrow> u64 \<times> u64" where
  "rng_next state =
    (let state = state XOR drop_bit 12 state;
         state = state XOR push_bit 25 state;
         state = state XOR drop_bit 27 state
     in (state, state * 0x2545F4914F6CDD1D))"

definition rng_uniform :: "u64 \<Rightarrow> u64 \<times> double" where
  "rng_uniform state =
    (let (state, x) = rng_next state
     in (state, fsub (fdiv (f_of_int (sint (drop_bit 11 x))) (f_of_u64 (push_bit 52 1))) 1))"

text \<open>\<open>static_cast<std::int16_t>\<close> of a double.\<close>

definition i16_of_f :: "double \<Rightarrow> 16 word option" where
  "i16_of_f x = (let n = f_trunc x in if - 32768 \<le> n \<and> n \<le> 32767 then Some (word_of_int n) else None)"

definition noise_sample :: "double \<Rightarrow> u64 \<Rightarrow> (u64 \<times> 16 word) option" where
  "noise_sample amplitude rng =
    (let (rng, u) = rng_uniform rng in map_option (Pair rng) (i16_of_f (fmul (fmul u amplitude) 32767)))"

text \<open>A store of some bytes into the payload array.\<close>

definition put_bytes :: "nat \<Rightarrow> u8 list \<Rightarrow> u8 list \<Rightarrow> u8 list option" where
  "put_bytes offset xs bs =
    (if offset + length xs \<le> length bs then Some (take offset bs @ xs @ drop (offset + length xs) bs) else None)"

text \<open>The two loops of \<open>fill_payload\<close>, which differ in what they store for a sample and where.\<close>

definition put_sample :: "u16 \<Rightarrow> nat \<Rightarrow> 16 word \<Rightarrow> u8 list \<Rightarrow> u8 list option" where
  "put_sample format i s bs =
    (if format = kPcm16Le then put_bytes (i * 2) (store_le 2 s) bs else put_bytes i [mulaw_byte s] bs)"

fun fill_loop :: "double \<Rightarrow> u16 \<Rightarrow> nat list \<Rightarrow> u64 \<Rightarrow> u8 list \<Rightarrow> (u64 \<times> u8 list) option" where
  "fill_loop amplitude format [] rng bs = Some (rng, bs)"
| "fill_loop amplitude format (i # is) rng bs = do {
     (rng, s) \<leftarrow> noise_sample amplitude rng;
     bs \<leftarrow> put_sample format i s bs;
     fill_loop amplitude format is rng bs
   }"

definition fill_payload :: "audio_frame \<Rightarrow> u64 \<Rightarrow> double \<Rightarrow> u16 \<Rightarrow> nat \<Rightarrow> (u64 \<times> audio_frame) option" where
  "fill_payload f rng amplitude format samples = do {
     (rng, bs) \<leftarrow> fill_loop amplitude format [0..<samples] rng (payload f);
     let len = (if format = kPcm16Le then samples * 2 else samples);
     Some (rng, f\<lparr>hdr := (hdr f)\<lparr>fh_byte_len := of_nat len\<rparr>, payload := bs\<rparr>)
   }"

section \<open>Sinks\<close>

text \<open>What sending one frame comes to: it is in the sink, the ring was full and shed it, or the
  connection failed, which ends the program.\<close>

datatype send_result = Carried | Shed | Broken

definition shm_send :: "audio_frame ring \<Rightarrow> audio_frame \<Rightarrow> audio_frame ring \<times> send_result" where
  "shm_send r f = (let (r, p) = try_push r f in (r, if p = KFull then Shed else Carried))"

text \<open>\<open>write_all\<close>: each \<open>write\<close> takes as many bytes as the kernel accepts, an answer of 0 or less is
  failure, and so is the end of the list (a closed peer).\<close>

record uds_sink =
  us_accepts :: "nat list"
  us_stream :: "u8 list"

fun write_all :: "nat list \<Rightarrow> u8 list \<Rightarrow> u8 list \<Rightarrow> uds_sink \<times> bool" where
  "write_all accepts stream [] = (\<lparr>us_accepts = accepts, us_stream = stream\<rparr>, True)"
| "write_all [] stream (b # bs) = (\<lparr>us_accepts = [], us_stream = stream\<rparr>, False)"
| "write_all (n # accepts) stream (b # bs) =
    (if n = 0 then (\<lparr>us_accepts = accepts, us_stream = stream\<rparr>, False)
     else write_all accepts (stream @ take n (b # bs)) (drop n (b # bs)))"

definition uds_send :: "uds_sink \<Rightarrow> audio_frame \<Rightarrow> uds_sink \<times> send_result" where
  "uds_send k f =
    (let (k, ok) = write_all (us_accepts k) (us_stream k) (wire_bytes f) in (k, if ok then Carried else Broken))"

text \<open>\<open>connect_uds\<close>: up to 50 attempts, 100 ms apart; whether an attempt succeeds is decided by the kernel.\<close>

definition connect_uds :: "bool \<Rightarrow> (nat \<Rightarrow> bool) \<Rightarrow> bool" where
  "connect_uds have_socket connect = (have_socket \<and> list_ex connect [0..<50])"

section \<open>The schedule\<close>

text \<open>\<open>std::fmod\<close>, which is exact; its divisors are positive.\<close>

definition fmod :: "double \<Rightarrow> double \<Rightarrow> double" where
  "fmod x y = x - of_int (f_trunc (x / y)) * y"

record production =
  pn_options :: producer_options
  pn_samples :: u64
  pn_frame_ns :: u64
  pn_total :: u64
  pn_start_ns :: u64
  pn_cycle_ms :: double

definition payload_bytes :: "producer_options \<Rightarrow> u64 \<Rightarrow> u64" where
  "payload_bytes opt samples = samples * of_nat (bytes_per_sample (po_format opt))"

text \<open>The set-up of \<open>main\<close>: an oversized frame is refused with exit status 2 (the left summand).\<close>

definition samples_per_frame :: "producer_options \<Rightarrow> u64" where
  "samples_per_frame opt = u64_of_f (fdiv (fmul (f_of_int (uint (po_sample_rate opt))) (po_frame_ms opt)) 1000)"

definition plan_production :: "producer_options \<Rightarrow> u64 \<Rightarrow> (nat + production) option" where
  "plan_production opt start_ns =
    (let samples = samples_per_frame opt
     in if payload_bytes opt samples > of_nat kFramePayloadBytes then Some (Inl 2)
        else if po_frame_ms opt = 0 then None
        else Some (Inr
          \<lparr>pn_options = opt, pn_samples = samples, pn_frame_ns = u64_of_f (fmul (po_frame_ms opt) 1000000),
           pn_total = u64_of_f (fdiv (fmul (po_seconds opt) 1000) (po_frame_ms opt)), pn_start_ns = start_ns,
           pn_cycle_ms = fadd (po_speech_ms opt) (po_gap_ms opt)\<rparr>))"

definition phase_ms :: "production \<Rightarrow> u64 \<Rightarrow> u32 \<Rightarrow> double" where
  "phase_ms pn seq session =
    (let cycle = pn_cycle_ms pn; opt = pn_options pn;
         offset = fdiv (fmul cycle (f_of_int (uint session))) (f_of_int (uint (po_sessions opt)))
     in fmod (fadd (fmul (f_of_u64 seq) (po_frame_ms opt)) offset) (if cycle > 0 then cycle else 1))"

definition speech_at :: "production \<Rightarrow> u64 \<Rightarrow> u32 \<Rightarrow> bool" where
  "speech_at pn seq session =
    (let opt = pn_options pn; phase = phase_ms pn seq session;
         speech = phase < po_speech_ms opt
     in if speech \<and> po_word_gap_ms opt > 0 \<and> po_word_every_ms opt > 0
        then fmod phase (po_word_every_ms opt) < fsub (po_word_every_ms opt) (po_word_gap_ms opt)
        else speech)"

definition amplitude_at :: "production \<Rightarrow> u64 \<Rightarrow> u32 \<Rightarrow> double" where
  "amplitude_at pn seq session =
    (if speech_at pn seq session then po_speech_amplitude (pn_options pn) else po_noise_floor (pn_options pn))"

section \<open>The loop\<close>

record producer_tick =
  pt_woke_ns :: u64
  pt_resume_ns :: u64
  pt_produce_ns :: "u32 \<Rightarrow> u64"

record 'k producer =
  pd_rng :: u64
  pd_frame :: audio_frame
  pd_pacing :: histogram
  pd_dropped :: u64
  pd_next_stall_ns :: u64
  pd_sink :: 'k

definition target_ns :: "production \<Rightarrow> u64 \<Rightarrow> u64" where
  "target_ns pn seq = pn_start_ns pn + seq * pn_frame_ns pn"

text \<open>The frame of one session, written over the previous one in the same \<open>AudioFrame\<close>.\<close>

definition make_frame :: "production \<Rightarrow> u64 \<Rightarrow> u32 \<Rightarrow> u64 \<Rightarrow> audio_frame \<Rightarrow> u64 \<Rightarrow> (u64 \<times> audio_frame) option" where
  "make_frame pn seq session t_produce f rng = do {
     (rng, f) \<leftarrow> fill_payload f rng (amplitude_at pn seq session) (po_format (pn_options pn)) (unat (pn_samples pn));
     Some (rng, f\<lparr>hdr := (hdr f)\<lparr>fh_seq := seq, fh_session_id := session, fh_t_capture_ns := target_ns pn seq,
       fh_flags := (if seq = 0 then kFlagStreamStart else kFlagNone), fh_t_produce_ns := t_produce\<rparr>\<rparr>)
   }"

fun produce_sessions :: "('k \<Rightarrow> audio_frame \<Rightarrow> 'k \<times> send_result) \<Rightarrow> production \<Rightarrow> producer_tick \<Rightarrow> u64 \<Rightarrow> u32 list
    \<Rightarrow> 'k producer \<Rightarrow> ('k producer \<times> bool) option" where
  "produce_sessions send pn tk seq [] s = Some (s, True)"
| "produce_sessions send pn tk seq (session # rest) s = do {
     (rng, f) \<leftarrow> make_frame pn seq session (pt_produce_ns tk session) (pd_frame s) (pd_rng s);
     let (k, r) = send (pd_sink s) f;
     let s = s\<lparr>pd_rng := rng, pd_frame := f, pd_sink := k\<rparr>;
     (case r of
        Carried \<Rightarrow> produce_sessions send pn tk seq rest s
      | Shed \<Rightarrow> produce_sessions send pn tk seq rest (s\<lparr>pd_dropped := pd_dropped s + 1\<rparr>)
      | Broken \<Rightarrow> Some (s, False))
   }"

definition session_ids :: "production \<Rightarrow> u32 list" where
  "session_ids pn = map of_nat [0..<unat (po_sessions (pn_options pn))]"

text \<open>Lateness against the grid, and the injected stall.\<close>

definition note_pacing :: "production \<Rightarrow> producer_tick \<Rightarrow> u64 \<Rightarrow> 'k producer \<Rightarrow> 'k producer" where
  "note_pacing pn tk seq s =
    (let woke = pt_woke_ns tk; target = target_ns pn seq
     in s\<lparr>pd_pacing := record_with_expected_interval (pd_pacing s) (if woke > target then woke - target else 0) (pn_frame_ns pn)\<rparr>)"

definition inject_stall :: "production \<Rightarrow> producer_tick \<Rightarrow> 'k producer \<Rightarrow> 'k producer" where
  "inject_stall pn tk s =
    (if pt_woke_ns tk \<ge> pd_next_stall_ns s
     then s\<lparr>pd_next_stall_ns := pt_resume_ns tk + u64_of_f (fmul (po_stall_every_ms (pn_options pn)) 1000000)\<rparr> else s)"

definition produce_turn :: "('k \<Rightarrow> audio_frame \<Rightarrow> 'k \<times> send_result) \<Rightarrow> production \<Rightarrow> producer_tick \<Rightarrow> u64
    \<Rightarrow> 'k producer \<Rightarrow> ('k producer \<times> bool) option" where
  "produce_turn send pn tk seq s =
    produce_sessions send pn tk seq (session_ids pn) (inject_stall pn tk (note_pacing pn tk seq s))"

fun produce_turns :: "('k \<Rightarrow> audio_frame \<Rightarrow> 'k \<times> send_result) \<Rightarrow> production \<Rightarrow> u64 \<Rightarrow> producer_tick list
    \<Rightarrow> 'k producer \<Rightarrow> 'k producer option" where
  "produce_turns send pn seq [] s = Some s"
| "produce_turns send pn seq (tk # tks) s =
    (if seq < pn_total pn then do {
       (s, go) \<leftarrow> produce_turn send pn tk seq s;
       if go then produce_turns send pn (seq + 1) tks s else Some s
     } else Some s)"

definition first_frame_of :: "producer_options \<Rightarrow> audio_frame" where
  "first_frame_of opt = zero_frame\<lparr>hdr := (hdr zero_frame)\<lparr>fh_sample_rate := po_sample_rate opt, fh_format := po_format opt\<rparr>\<rparr>"

definition producer_start :: "production \<Rightarrow> 'k \<Rightarrow> 'k producer option" where
  "producer_start pn k =
    (let opt = pn_options pn
     in map_option (\<lambda>h. \<lparr>pd_rng = rng_new (po_seed opt), pd_frame = first_frame_of opt, pd_pacing = h, pd_dropped = 0,
          pd_next_stall_ns = (if po_stall_every_ms opt > 0
            then pn_start_ns pn + u64_of_f (fmul (po_stall_every_ms opt) 1000000) else - 1),
          pd_sink = k\<rparr>) (hist_default 1000000000))"

definition produce :: "('k \<Rightarrow> audio_frame \<Rightarrow> 'k \<times> send_result) \<Rightarrow> production \<Rightarrow> producer_tick list \<Rightarrow> 'k \<Rightarrow> 'k producer option" where
  "produce send pn tks k = do { s \<leftarrow> producer_start pn k; produce_turns send pn 0 tks s }"

end
