(* ===== verification/Producer_Noise.thy ===== *)
theory Producer_Noise
  imports Producer
begin

text \<open>
  What \<open>fill_payload\<close> writes: the noise source stays in \<open>[-1, 1)\<close>, so with an amplitude of at most 1
  the conversion to 16 bits is defined, every store stays inside the payload, and the peak of a
  linear frame is at most the amplitude.
\<close>

section \<open>The noise source\<close>

lemma uint_drop_bit_less: "uint (drop_bit 11 (x :: u64)) < 2 ^ 53"
proof -
  have "uint (drop_bit 11 x) = uint x div 2 ^ 11" by (simp add: drop_bit_eq_div uint_div)
  then show ?thesis using unsigned_less [of x, where ?'a = int] by simp
qed

lemma sint_drop_bit: "sint (drop_bit 11 (x :: u64)) = uint (drop_bit 11 x)"
proof -
  have "uint (drop_bit 11 x) < 2 ^ 53" by (rule uint_drop_bit_less)
  then have "take_bit 63 (uint (drop_bit 11 x)) = uint (drop_bit 11 x)" "\<not> bit (uint (drop_bit 11 x)) 63"
    by (simp_all add: take_bit_int_eq_self bit_iff_odd)
  then show ?thesis by (simp add: sint_uint signed_take_bit_eq_if_positive)
qed

lemma rng_uniform_value:
  "snd (rng_uniform s) = of_int (uint (drop_bit 11 (snd (rng_next s))) - 2 ^ 52) * pow2 (- 52)"
proof -
  define k where "k = uint (drop_bit 11 (snd (rng_next s)))"
  have k: "0 \<le> k" "k < 2 ^ 53" using uint_drop_bit_less [of "snd (rng_next s)"] by (simp_all add: k_def)
  have c: "f_of_u64 (push_bit 52 1) = 2 ^ 52"
    using rnd_of_int [of "2 ^ 52"] by (simp add: f_of_u64_def f_of_int_def push_bit_eq_mult)
  have v: "snd (rng_uniform s) = fsub (fdiv (f_of_int k) (f_of_u64 (push_bit 52 1))) 1"
    by (simp only: rng_uniform_def Let_def split_def sint_drop_bit k_def [symmetric] snd_conv)
  have d: "f_of_int k = of_int k" using k unfolding f_of_int_def by (intro rnd_of_int) simp
  have p: "pow2 (- 52) = 1 / 2 ^ 52" by (simp add: pow2_def)
  have q: "fdiv (of_int k) (2 ^ 52) = of_int k * pow2 (- 52)"
    using rnd_exact [of k "- 52"] k by (simp add: fdiv_def p)
  have e: "of_int k * pow2 (- 52) - 1 = of_int (k - 2 ^ 52) * pow2 (- 52)" by (simp add: p field_simps)
  have "fsub (of_int k * pow2 (- 52)) 1 = of_int (k - 2 ^ 52) * pow2 (- 52)"
    using rnd_exact [of "k - 2 ^ 52" "- 52"] k unfolding fsub_def e by simp
  then have "snd (rng_uniform s) = of_int (k - 2 ^ 52) * pow2 (- 52)" unfolding v c d q .
  then show ?thesis unfolding k_def .
qed

lemma rng_uniform_range: "- 1 \<le> snd (rng_uniform s)" "snd (rng_uniform s) < 1" "\<bar>snd (rng_uniform s)\<bar> \<le> 1"
proof -
  define k where "k = uint (drop_bit 11 (snd (rng_next s)))"
  have k: "0 \<le> k" "k < 2 ^ 53" "snd (rng_uniform s) = of_int (k - 2 ^ 52) * pow2 (- 52)"
    using uint_drop_bit_less [of "snd (rng_next s)"] rng_uniform_value [of s] by (simp_all only: k_def uint_ge_0)
  have r: "- (2 ^ 52) \<le> rat_of_int (k - 2 ^ 52)" "rat_of_int (k - 2 ^ 52) < 2 ^ 52"
    using k(1,2) by (simp_all add: algebra_simps of_int_less_iff [where ?'a = rat, of k "2 ^ 53", symmetric])
  show "- 1 \<le> snd (rng_uniform s)" "snd (rng_uniform s) < 1"
    using r unfolding k(3) by (simp_all add: pow2_def field_simps)
  then show "\<bar>snd (rng_uniform s)\<bar> \<le> 1" by linarith
qed

section \<open>One sample\<close>

lemma rnd_scale: "rnd (x * pow2 k) = rnd x * pow2 k"
proof (cases "x = 0")
  case False
  have "ilog2 (\<bar>x\<bar> * pow2 k) = ilog2 \<bar>x\<bar> + k"
  proof (rule ilog2_unique)
    have b: "pow2 (ilog2 \<bar>x\<bar>) \<le> \<bar>x\<bar>" "\<bar>x\<bar> < pow2 (ilog2 \<bar>x\<bar> + 1)" using ilog2_bounds [of "\<bar>x\<bar>"] False by simp_all
    show "pow2 (ilog2 \<bar>x\<bar> + k) \<le> \<bar>x\<bar> * pow2 k" using b(1) by (simp add: pow2_add)
    have "ilog2 \<bar>x\<bar> + k + 1 = (ilog2 \<bar>x\<bar> + 1) + k" by simp
    then show "\<bar>x\<bar> * pow2 k < pow2 (ilog2 \<bar>x\<bar> + k + 1)"
      using mult_strict_right_mono [OF b(2) pow2_pos [of k]] by (simp only: pow2_add)
  qed
  then have e: "ilog2 \<bar>x * pow2 k\<bar> - 52 = (ilog2 \<bar>x\<bar> - 52) + k" by (simp add: abs_mult)
  show ?thesis using False by (simp add: rnd_def Let_def e pow2_add)
qed simp

lemma abs_f_trunc_le: "of_int \<bar>f_trunc x\<bar> \<le> \<bar>x\<bar>"
proof (cases "0 \<le> x")
  case True
  then show ?thesis by (simp add: f_trunc_def)
next
  case False
  then have "\<lceil>x\<rceil> \<le> 0" "x \<le> of_int \<lceil>x\<rceil>" by (simp_all add: ceiling_le_iff)
  then show ?thesis using False by (simp add: f_trunc_def)
qed

lemma abs_rnd_le: "\<bar>x\<bar> \<le> y \<Longrightarrow> \<bar>rnd x\<bar> \<le> rnd y"
  using rnd_mono [of x y] rnd_mono [of "- x" y] by (simp add: rnd_minus abs_le_iff)

lemma noise_sample_ok:
  assumes "\<bar>amplitude\<bar> \<le> 1"
  obtains s where "noise_sample amplitude rng = Some (fst (rng_uniform rng), s)"
    "rnd amplitude = amplitude \<Longrightarrow> of_int \<bar>sint s\<bar> \<le> \<bar>amplitude\<bar> * 32768"
proof -
  define u where "u = snd (rng_uniform rng)"
  define x where "x = fmul u amplitude"
  define y where "y = fmul x 32767"
  have "\<bar>u\<bar> * \<bar>amplitude\<bar> \<le> 1 * \<bar>amplitude\<bar>"
    using rng_uniform_range(3) [of rng] by (intro mult_right_mono) (simp_all add: u_def)
  then have ua: "\<bar>u * amplitude\<bar> \<le> \<bar>amplitude\<bar>" by (simp add: abs_mult)
  have x1: "\<bar>x\<bar> \<le> 1"
    using f64.rd_abs_le_int [of "u * amplitude" 1] ua assms by (simp add: x_def fmul_def)
  have y1: "\<bar>y\<bar> \<le> 32767"
    using f64.rd_abs_le_int [of "x * 32767" 32767] x1 by (simp add: y_def fmul_def abs_mult)
  have t: "\<bar>f_trunc y\<bar> \<le> 32767"
  proof -
    have "rat_of_int \<bar>f_trunc y\<bar> \<le> of_int 32767" using abs_f_trunc_le [of y] y1 by simp
    then show ?thesis by (simp only: of_int_le_iff)
  qed
  define s where "s = (word_of_int (f_trunc y) :: 16 word)"
  have st: "sint s = f_trunc y"
    using t unfolding s_def by (intro sint_word16) linarith+
  have "noise_sample amplitude rng = Some (fst (rng_uniform rng), s)"
    unfolding noise_sample_def split_def i16_of_f_def Let_def u_def [symmetric] x_def [symmetric] y_def [symmetric] s_def
    using t abs_le_iff [of "f_trunc y" 32767] by simp
  moreover have "of_int \<bar>sint s\<bar> \<le> \<bar>amplitude\<bar> * 32768" if d: "rnd amplitude = amplitude"
  proof -
    have da: "rnd \<bar>amplitude\<bar> = \<bar>amplitude\<bar>" using d by (simp add: abs_if rnd_minus)
    have xa: "\<bar>x\<bar> \<le> \<bar>amplitude\<bar>" using abs_rnd_le [OF ua] by (simp add: x_def fmul_def da)
    have "\<bar>x * 32767\<bar> \<le> \<bar>amplitude\<bar> * pow2 15"
      unfolding abs_mult by (rule mult_mono) (use xa in \<open>simp_all add: pow2_def\<close>)
    then have "\<bar>y\<bar> \<le> \<bar>amplitude\<bar> * pow2 15"
      using abs_rnd_le [of "x * 32767" "\<bar>amplitude\<bar> * pow2 15"] by (simp add: y_def fmul_def rnd_scale da)
    then show ?thesis using abs_f_trunc_le [of y] by (simp add: st pow2_def)
  qed
  ultimately show ?thesis by (rule that)
qed

section \<open>The payload\<close>

definition pcm_at :: "u8 list \<Rightarrow> nat \<Rightarrow> 16 word" where
  "pcm_at bs i = word_cat (bs ! (i * 2 + 1)) (bs ! (i * 2))"

lemma put_bytes_some:
  "offset + length xs \<le> length bs \<Longrightarrow> \<exists>bs'. put_bytes offset xs bs = Some bs' \<and> length bs' = length bs
    \<and> (\<forall>k < length bs. bs' ! k = (if offset \<le> k \<and> k < offset + length xs then xs ! (k - offset) else bs ! k))"
  by (auto simp: put_bytes_def nth_append min_def)

lemma store_le_2: "store_le 2 (s :: 16 word) = [ucast s, ucast (drop_bit 8 s)]"
proof -
  have "unat s div 256 = unat (drop_bit 8 s)" by (simp add: drop_bit_eq_div unat_div)
  then show ?thesis by (simp add: store_le_def numeral_2_eq_2 del: unat_div)
qed

lemma word_cat_halves: "word_cat (ucast (drop_bit 8 s) :: u8) (ucast s :: u8) = (s :: 16 word)"
  by (rule bit_word_eqI) (auto simp: bit_word_cat_iff bit_simps)

text \<open>Storing sample \<open>i\<close> changes sample \<open>i\<close> only.\<close>

lemma put_sample_some:
  assumes "Suc i * bytes_per_sample format \<le> length bs"
  shows "\<exists>bs'. put_sample format i s bs = Some bs' \<and> length bs' = length bs
    \<and> (\<forall>k < length bs. k div bytes_per_sample format \<noteq> i \<longrightarrow> bs' ! k = bs ! k)
    \<and> (format = kPcm16Le \<longrightarrow> pcm_at bs' i = s)"
proof (cases "format = kPcm16Le")
  case True
  then have b: "bytes_per_sample format = 2" by (simp add: bytes_per_sample_def)
  from assms obtain bs' where bs': "put_bytes (i * 2) (store_le 2 s) bs = Some bs'" "length bs' = length bs"
      "\<forall>k < length bs. bs' ! k = (if i * 2 \<le> k \<and> k < i * 2 + 2 then store_le 2 s ! (k - i * 2) else bs ! k)"
    using put_bytes_some [of "i * 2" "store_le 2 s" bs] by (auto simp: b)
  have "pcm_at bs' i = s"
    using bs'(3) assms by (simp add: pcm_at_def b store_le_2 word_cat_halves)
  moreover have "bs' ! k = bs ! k" if "k < length bs" "k div 2 \<noteq> i" for k
  proof -
    have "\<not> (i * 2 \<le> k \<and> k < i * 2 + 2)" using that(2) by auto
    then show ?thesis using bs'(3) that(1) by auto
  qed
  ultimately show ?thesis using bs'(1,2) True unfolding put_sample_def b by auto
next
  case False
  then have b: "bytes_per_sample format = 1" by (simp add: bytes_per_sample_def)
  from assms show ?thesis
    using put_bytes_some [of i "[mulaw_byte s]" bs] False by (auto simp: put_sample_def b)
qed

lemma fill_loop_some:
  assumes "\<bar>amplitude\<bar> \<le> 1" "distinct is" "\<forall>i \<in> set is. Suc i * bytes_per_sample format \<le> length bs"
  shows "\<exists>rng' bs'. fill_loop amplitude format is rng bs = Some (rng', bs') \<and> length bs' = length bs
    \<and> (\<forall>k < length bs. k div bytes_per_sample format \<notin> set is \<longrightarrow> bs' ! k = bs ! k)
    \<and> (format = kPcm16Le \<and> rnd amplitude = amplitude \<longrightarrow> (\<forall>i \<in> set is. of_int \<bar>sint (pcm_at bs' i)\<bar> \<le> \<bar>amplitude\<bar> * 32768))"
  using assms(2,3)
proof (induction "is" arbitrary: rng bs)
  case (Cons i "is")
  obtain s where s: "noise_sample amplitude rng = Some (fst (rng_uniform rng), s)"
      "rnd amplitude = amplitude \<Longrightarrow> of_int \<bar>sint s\<bar> \<le> \<bar>amplitude\<bar> * 32768"
    by (rule noise_sample_ok [OF assms(1), of rng]) blast
  obtain bs1 where b: "put_sample format i s bs = Some bs1" "length bs1 = length bs"
      "\<forall>k < length bs. k div bytes_per_sample format \<noteq> i \<longrightarrow> bs1 ! k = bs ! k" "format = kPcm16Le \<longrightarrow> pcm_at bs1 i = s"
    using put_sample_some [of i format bs s] Cons.prems(2) by auto
  obtain rng2 bs2 where r: "fill_loop amplitude format is (fst (rng_uniform rng)) bs1 = Some (rng2, bs2)" "length bs2 = length bs"
      "\<forall>k < length bs. k div bytes_per_sample format \<notin> set is \<longrightarrow> bs2 ! k = bs1 ! k"
      "format = kPcm16Le \<and> rnd amplitude = amplitude \<longrightarrow> (\<forall>i \<in> set is. of_int \<bar>sint (pcm_at bs2 i)\<bar> \<le> \<bar>amplitude\<bar> * 32768)"
    using Cons.IH [of bs1 "fst (rng_uniform rng)"] Cons.prems b(2) by auto
  have "pcm_at bs2 i = s" if "format = kPcm16Le"
    using that r(3) b(4) Cons.prems by (auto simp: pcm_at_def bytes_per_sample_def)
  then show ?case using s b r by (auto simp: split_beta)
qed simp

text \<open>The frame \<open>fill_payload\<close> hands back.\<close>

lemma fill_payload_some:
  assumes "\<bar>amplitude\<bar> \<le> 1" "length (payload f) = kFramePayloadBytes" "samples * bytes_per_sample format \<le> kFramePayloadBytes"
  obtains rng' f' where "fill_payload f rng amplitude format samples = Some (rng', f')" "frame_ok f'"
    "hdr f' = (hdr f)\<lparr>fh_byte_len := of_nat (samples * bytes_per_sample format)\<rparr>" "f_len f' = samples * bytes_per_sample format"
    "drop (f_len f') (payload f') = drop (f_len f') (payload f)"
    "format = kPcm16Le \<Longrightarrow> rnd amplitude = amplitude \<Longrightarrow> \<forall>i < samples. of_int \<bar>sint (pcm_at (payload f') i)\<bar> \<le> \<bar>amplitude\<bar> * 32768"
proof -
  have "Suc i * bytes_per_sample format \<le> length (payload f)" if "i < samples" for i
    using assms(2,3) mult_le_mono1 [of "Suc i" samples "bytes_per_sample format"] that by simp
  then obtain rng' bs where r: "fill_loop amplitude format [0..<samples] rng (payload f) = Some (rng', bs)"
      "length bs = length (payload f)"
      "\<forall>k < length (payload f). k div bytes_per_sample format \<notin> {0..<samples} \<longrightarrow> bs ! k = payload f ! k"
      "format = kPcm16Le \<and> rnd amplitude = amplitude \<longrightarrow> (\<forall>i < samples. of_int \<bar>sint (pcm_at bs i)\<bar> \<le> \<bar>amplitude\<bar> * 32768)"
    using fill_loop_some [OF assms(1), of "[0..<samples]" format "payload f" rng] by auto
  define n where "n = samples * bytes_per_sample format"
  define f' where "f' = f\<lparr>hdr := (hdr f)\<lparr>fh_byte_len := of_nat n\<rparr>, payload := bs\<rparr>"
  have n: "(if format = kPcm16Le then samples * 2 else samples) = n" by (simp add: n_def bytes_per_sample_def)
  have len: "f_len f' = n" using assms(3) by (simp add: f'_def n_def [symmetric] unat_of_nat_small kFramePayloadBytes_def)
  show ?thesis
  proof (rule that)
    show "fill_payload f rng amplitude format samples = Some (rng', f')"
      unfolding fill_payload_def r(1) n by (simp add: f'_def)
    show "frame_ok f'" using assms(2,3) r(2) len by (simp add: frame_ok_def n_def) (simp add: f'_def)
    show "hdr f' = (hdr f)\<lparr>fh_byte_len := of_nat (samples * bytes_per_sample format)\<rparr>" by (simp add: f'_def n_def)
    show "f_len f' = samples * bytes_per_sample format" using len by (simp add: n_def)
    have "samples \<le> k div bytes_per_sample format" if "n \<le> k" for k
      using div_le_mono [OF that, of "bytes_per_sample format"] by (simp add: n_def bytes_per_sample_def split: if_splits)
    then show "drop (f_len f') (payload f') = drop (f_len f') (payload f)"
      unfolding len using r(2,3) by (intro nth_equalityI) (auto simp: f'_def simp flip: not_le)
    show "format = kPcm16Le \<Longrightarrow> rnd amplitude = amplitude \<Longrightarrow> \<forall>i < samples. of_int \<bar>sint (pcm_at (payload f') i)\<bar> \<le> \<bar>amplitude\<bar> * 32768"
      using r(4) by (simp add: f'_def)
  qed
qed

section \<open>Properties\<close>

lemma peak_norm_le:
  assumes "frame_ok f" "\<forall>x \<in> set (frame_samples f). of_int \<bar>x\<bar> \<le> amplitude * (32768 :: rat)" "0 \<le> amplitude"
  obtains e where "frame_energy f = Some e" "ae_peak_norm e \<le> amplitude" "ae_rms_norm e \<le> amplitude"
proof -
  define xs where "xs = frame_samples f"
  have x: "\<bar>x\<bar> \<le> \<lfloor>amplitude * 32768\<rfloor>" if "x \<in> set xs" for x
    using assms(2) that by (simp add: xs_def le_floor_iff)
  have "0 \<le> \<lfloor>amplitude * 32768\<rfloor>" using assms(3) by simp
  then have "peak_of xs \<le> \<lfloor>amplitude * 32768\<rfloor>"
    using peak_of_le [of xs "\<lfloor>amplitude * 32768\<rfloor>" 0] x unfolding peak_of_def by auto
  then have p: "of_int (peak_of xs) / 32768 \<le> amplitude" by (simp add: le_floor_iff)
  have b: "0 \<le> peak_of xs" "peak_of xs \<le> 32768" "0 \<le> sum_sq xs"
      "sum_sq xs \<le> int (length xs) * (peak_of xs * peak_of xs)" "length xs \<le> 1024"
    using peak_of_range [OF assms(1)] sum_sq_le_peak [of xs] length_frame_samples [OF assms(1)] by (simp_all add: xs_def)
  show ?thesis
    using that [OF frame_energy_ok [OF assms(1)]] energy_of_sums_props(2,6) [OF b] p
    unfolding xs_def [symmetric] by (metis order_trans)
qed

text \<open>C36: Generated linear audio respects its amplitude: with an amplitude between 0 and 1 the noise of
  \<open>fill_payload\<close> never leaves the 16-bit range and never writes outside the payload, and the frame's
  measured peak is at most the amplitude. So a noise floor below the thresholds of the gate is never
  taken for speech, whatever the seed.\<close>

theorem noise_floor_never_loud:
  assumes "0 \<le> amplitude" "amplitude \<le> 1" "rnd amplitude = amplitude"
    "length (payload f) = kFramePayloadBytes" "fh_format (hdr f) = kPcm16Le" "samples * 2 \<le> kFramePayloadBytes"
  shows "\<exists>rng' f' e. fill_payload f rng amplitude kPcm16Le samples = Some (rng', f') \<and> frame_ok f'
    \<and> frame_energy f' = Some e \<and> ae_peak_norm e \<le> amplitude
    \<and> (\<forall>cfg. (\<forall>t. gc_rms_threshold cfg = Some t \<or> gc_peak_threshold cfg = Some t \<longrightarrow> amplitude < t) \<longrightarrow> \<not> is_loud cfg e)"
proof -
  have b: "bytes_per_sample kPcm16Le = 2" by (simp add: bytes_per_sample_def)
  have "\<bar>amplitude\<bar> \<le> 1" using assms(1,2) by simp
  note fill = fill_payload_some [OF this assms(4), of samples kPcm16Le rng, unfolded b, OF assms(6)]
  obtain rng' f' where r: "fill_payload f rng amplitude kPcm16Le samples = Some (rng', f')" "frame_ok f'"
      "hdr f' = (hdr f)\<lparr>fh_byte_len := of_nat (samples * 2)\<rparr>" "f_len f' = samples * 2"
      "\<forall>i < samples. of_int \<bar>sint (pcm_at (payload f') i)\<bar> \<le> \<bar>amplitude\<bar> * 32768"
    by (rule fill) (use assms(3) in blast)
  have "fh_format (hdr f') \<noteq> kMulaw8" using r(3) assms(5) by (simp add: kPcm16Le_def kMulaw8_def)
  then have "frame_samples f' = map (\<lambda>i. sint (pcm_at (payload f') i)) [0..<samples]"
    by (simp add: frame_samples_pcm r(4) pcm_at_def)
  then obtain e where e: "frame_energy f' = Some e" "ae_peak_norm e \<le> amplitude" "ae_rms_norm e \<le> amplitude"
    using peak_norm_le [OF r(2) _ assms(1)] r(5) assms(1) by auto
  have "\<not> is_loud cfg e"
    if "\<forall>t. gc_rms_threshold cfg = Some t \<or> gc_peak_threshold cfg = Some t \<longrightarrow> amplitude < t" for cfg
    using that e(2,3) by (fastforce simp: is_loud_def split: option.splits)
  then show ?thesis using r(1,2) e(1,2) by blast
qed

theorem noise_floor_never_loud_witness:
  "\<exists>rng' f' e. fill_payload (first_frame_of producer_defaults) 0xC0FFEE (po_noise_floor producer_defaults) kPcm16Le 480 = Some (rng', f')
    \<and> frame_energy f' = Some e \<and> \<not> is_loud (cc_gate default_chunker_config) e"
proof -
  define a where "a = po_noise_floor producer_defaults"
  have d: "rnd (1 / 128) = 1 / 128" "rnd (1 / 64) = 1 / 64"
    using rnd_exact [of 1 "- 7"] rnd_exact [of 1 "- 6"] by (simp_all add: pow2_def)
  have r: "0 \<le> rnd (4 / 1000)" "rnd (4 / 1000) \<le> 1 / 128" "1 / 64 \<le> rnd (2 / 100)" "1 / 64 \<le> rnd (10 / 100)"
    using rnd_mono [of 0 "4 / 1000"] rnd_mono [of "4 / 1000" "1 / 128"] rnd_mono [of "1 / 64" "2 / 100"]
      rnd_mono [of "1 / 64" "10 / 100"] unfolding d by simp_all
  have a: "0 \<le> a" "a \<le> 1" "rnd a = a"
    using r(1,2) by (simp_all only: a_def producer_defaults_def producer_options.simps rnd_idem)
  have t: "a < t" if "gc_rms_threshold default_gate_config = Some t \<or> gc_peak_threshold default_gate_config = Some t" for t
    using that r by (auto simp: a_def producer_defaults_def default_gate_config_def)
  have f: "length (payload (first_frame_of producer_defaults)) = kFramePayloadBytes"
    "fh_format (hdr (first_frame_of producer_defaults)) = kPcm16Le"
    by (simp_all add: first_frame_of_def producer_defaults_def zero_frame_def kPcm16Le_def)
  show ?thesis
    using noise_floor_never_loud [OF a f, of 480 "0xC0FFEE"] t unfolding a_def [symmetric] default_chunker_config_def
    by (auto simp: kFramePayloadBytes_def)
qed

text \<open>Nothing bounds the amplitude options: with \<open>--amplitude 2\<close> and the default seed the very first sample
  is already outside the range of \<open>int16_t\<close>, where the conversion is undefined.\<close>

lemma amplitude_two_overflows:
  "fill_payload (first_frame_of producer_defaults) (rng_new (po_seed producer_defaults)) 2 kPcm16Le (Suc n) = None"
proof -
  define u where "u = snd (rng_uniform (rng_new (po_seed producer_defaults)))"
  have "snd (rng_next (rng_new (po_seed producer_defaults))) = 18358212720519285461"
    by (simp add: rng_new_def producer_defaults_def rng_next_def Let_def)
  then have u: "u = 4460371427570561 * pow2 (- 52)" unfolding u_def rng_uniform_value by simp
  have "fmul u 2 = 4460371427570561 * pow2 (- 51)"
    using rnd_exact [of 4460371427570561 "- 51"] by (simp add: fmul_def u pow2_def)
  then have "32768 \<le> fmul u 2 * 32767" by (simp add: pow2_def)
  then have "32768 \<le> fmul (fmul u 2) 32767" unfolding fmul_def [of _ 32767] using f64.rd_ge_int [of 32768] by simp
  then have "32768 \<le> f_trunc (fmul (fmul u 2) 32767)" using f_trunc_mono [of 32768] f_trunc_of_int [of 32768] by fastforce
  then have "noise_sample 2 (rng_new (po_seed producer_defaults)) = None"
    by (simp add: noise_sample_def split_def i16_of_f_def Let_def u_def [symmetric])
  then show ?thesis by (simp add: fill_payload_def upt_conv_Cons del: upt_Suc)
qed

end
