(* ===== verification/Producer_Sinks.thy ===== *)
theory Producer_Sinks
  imports Producer_Noise Ingest_Props
begin

text \<open>
  What a sink promises the producer, as an interface: a carried frame follows the ones before it, a
  shed frame changes nothing, and a broken connection leaves at most a piece of one more frame. The
  producer's run over any such sink is compared with its run over a sink that collects every frame;
  the socket and the frame ring (with a consumer at the other end) are shown to be such sinks.
\<close>

section \<open>Collecting\<close>

definition collect :: "audio_frame list \<Rightarrow> audio_frame \<Rightarrow> audio_frame list \<times> send_result" where
  "collect fs f = (fs @ [f], Carried)"

lemma enter_same:
  "pd_rng (inject_stall pn tk (note_pacing pn tk seq s)) = pd_rng s"
  "pd_frame (inject_stall pn tk (note_pacing pn tk seq s)) = pd_frame s"
  "pd_dropped (inject_stall pn tk (note_pacing pn tk seq s)) = pd_dropped s"
  "pd_sink (inject_stall pn tk (note_pacing pn tk seq s)) = pd_sink s"
  by (simp_all add: inject_stall_def note_pacing_def Let_def)

lemma add_chain: "a + x = b + y \<Longrightarrow> c + z = a + w \<Longrightarrow> c + (x + z) = b + (y + (w :: u64))"
proof -
  assume a: "a + x = b + y" and c: "c + z = a + w"
  have "c + (x + z) = (a + x) + w" using arg_cong [OF c, of "\<lambda>t. t + x"] by (simp add: ac_simps)
  then show ?thesis by (simp add: a ac_simps)
qed

lemma collect_sessions:
  "produce_sessions collect pn tk seq ids c = Some (c', go) \<Longrightarrow> go \<and> (\<exists>ns. pd_sink c' = pd_sink c @ ns)"
  by (induction ids arbitrary: c) (fastforce simp: collect_def split: bind_splits)+

lemma collect_turns:
  "produce_turns collect pn seq tks c = Some c' \<Longrightarrow> \<exists>ns. pd_sink c' = pd_sink c @ ns"
proof (induction tks arbitrary: seq c)
  case (Cons tk tks)
  show ?case
  proof (cases "seq < pn_total pn")
    case True
    then obtain c1 go where t: "produce_turn collect pn tk seq c = Some (c1, go)"
        "(if go then produce_turns collect pn (seq + 1) tks c1 else Some c1) = Some c'"
      using Cons.prems by (auto split: bind_splits)
    have "go \<and> (\<exists>ns. pd_sink c1 = pd_sink c @ ns)"
      using collect_sessions [of pn tk seq "session_ids pn" "inject_stall pn tk (note_pacing pn tk seq c)" c1 go] t(1)
      by (simp add: produce_turn_def enter_same)
    then show ?thesis using t(2) Cons.IH [of "seq + 1" c1] by auto
  qed (use Cons.prems in simp)
qed simp

section \<open>The interface of a sink\<close>

text \<open>How far a run over some sink got, against the collected frames \<open>ns\<close>: it carried \<open>gs\<close>, and either
  it is in step (the same generator state, every missing frame counted) or the connection broke.\<close>

definition outcome :: "('k \<Rightarrow> audio_frame list \<Rightarrow> bool) \<Rightarrow> ('k \<Rightarrow> audio_frame list \<Rightarrow> audio_frame \<Rightarrow> bool)
    \<Rightarrow> u64 \<Rightarrow> audio_frame list \<Rightarrow> bool \<Rightarrow> 'k producer \<Rightarrow> audio_frame list producer \<Rightarrow> audio_frame list \<Rightarrow> audio_frame list \<Rightarrow> bool" where
  "outcome carries torn d fs go s c gs ns \<longleftrightarrow>
    subseq gs ns \<and>
    (if go then pd_rng c = pd_rng s \<and> pd_frame c = pd_frame s \<and> carries (pd_sink s) (fs @ gs)
       \<and> pd_dropped s + of_nat (length gs) = d + of_nat (length ns)
     else \<exists>f. subseq (gs @ [f]) ns \<and> torn (pd_sink s) (fs @ gs) f)"

text \<open>A sink that never sheds keeps the order without holes.\<close>

definition in_order :: "('k \<Rightarrow> audio_frame \<Rightarrow> 'k \<times> send_result) \<Rightarrow> bool \<Rightarrow> audio_frame list \<Rightarrow> audio_frame list \<Rightarrow> bool" where
  "in_order send go gs ns \<longleftrightarrow> (\<forall>k f. snd (send k f) \<noteq> Shed) \<longrightarrow> prefix gs ns \<and> (go \<longrightarrow> gs = ns)"

lemma outcome_carried:
  assumes "outcome carries torn d (fs @ [f]) go s c gs ns" "in_order send go gs ns"
  shows "outcome carries torn d fs go s c (f # gs) (f # ns)" "in_order send go (f # gs) (f # ns)"
  using assms by (auto simp: outcome_def in_order_def algebra_simps)

lemma outcome_shed:
  assumes "outcome carries torn (d + 1) fs go s c gs ns"
  shows "outcome carries torn d fs go s c gs (f # ns)"
proof (cases go)
  case True
  then show ?thesis using assms by (auto simp: outcome_def algebra_simps)
next
  case False
  then show ?thesis using assms by (auto simp: outcome_def intro: list_emb_Cons intro!: exI)
qed

lemma outcome_append:
  assumes "outcome carries torn d fs True s1 c1 gs1 ns1" "in_order send True gs1 ns1"
    "outcome carries torn (pd_dropped s1) (fs @ gs1) go s c gs ns" "in_order send go gs ns"
  shows "outcome carries torn d fs go s c (gs1 @ gs) (ns1 @ ns)" "in_order send go (gs1 @ gs) (ns1 @ ns)"
  using assms by (auto simp: outcome_def in_order_def intro: list_emb_append_mono add_chain split: if_splits)

lemma outcome_stopped:
  assumes "outcome carries torn d fs False s c1 gs ns1" "in_order send False gs ns1"
  shows "outcome carries torn d fs False s c gs (ns1 @ ns)" "in_order send False gs (ns1 @ ns)"
  using assms by (auto simp: outcome_def in_order_def intro: subseq_rev_drop_many)

locale frame_sink =
  fixes send :: "'k \<Rightarrow> audio_frame \<Rightarrow> 'k \<times> send_result"
    and carries :: "'k \<Rightarrow> audio_frame list \<Rightarrow> bool"
    and torn :: "'k \<Rightarrow> audio_frame list \<Rightarrow> audio_frame \<Rightarrow> bool"
  assumes carried: "carries k fs \<Longrightarrow> send k f = (k', Carried) \<Longrightarrow> carries k' (fs @ [f])"
    and shed: "carries k fs \<Longrightarrow> send k f = (k', Shed) \<Longrightarrow> carries k' fs"
    and broken: "carries k fs \<Longrightarrow> send k f = (k', Broken) \<Longrightarrow> torn k' fs f"
begin

lemma sessions_outcome:
  assumes "produce_sessions collect pn tk seq ids c = Some (c', True)"
    "pd_rng c = pd_rng s" "pd_frame c = pd_frame s" "carries (pd_sink s) fs"
  shows "\<exists>s' go gs ns. produce_sessions send pn tk seq ids s = Some (s', go) \<and> pd_sink c' = pd_sink c @ ns
    \<and> outcome carries torn (pd_dropped s) fs go s' c' gs ns \<and> in_order send go gs ns"
  using assms
proof (induction ids arbitrary: c s fs)
  case Nil
  then show ?case by (intro exI [of _ s] exI [of _ True] exI [of _ "[]"]) (simp add: outcome_def in_order_def)
next
  case (Cons i ids)
  obtain rng f where m: "make_frame pn seq i (pt_produce_ns tk i) (pd_frame s) (pd_rng s) = Some (rng, f)"
    using Cons.prems(1-3) by (auto split: bind_splits)
  define c1 where "c1 = c\<lparr>pd_rng := rng, pd_frame := f, pd_sink := pd_sink c @ [f]\<rparr>"
  have c1: "produce_sessions collect pn tk seq ids c1 = Some (c', True)"
    using Cons.prems(1-3) m by (simp add: collect_def [of "pd_sink c" f] c1_def)
  obtain k r where k: "send (pd_sink s) f = (k, r)" by (cases "send (pd_sink s) f")
  define s1 where "s1 = s\<lparr>pd_rng := rng, pd_frame := f, pd_sink := k\<rparr>"
  define s2 where "s2 = s1\<lparr>pd_dropped := pd_dropped s1 + 1\<rparr>"
  show ?case
  proof (cases r)
    case Carried
    then have "carries (pd_sink s1) (fs @ [f])" using carried [OF Cons.prems(4)] k by (simp add: s1_def)
    from Cons.IH [OF c1 _ _ this] obtain s' go gs ns where
      h: "produce_sessions send pn tk seq ids s1 = Some (s', go)" "pd_sink c' = pd_sink c1 @ ns"
        "outcome carries torn (pd_dropped s1) (fs @ [f]) go s' c' gs ns" "in_order send go gs ns"
      by (auto simp: c1_def s1_def)
    have "produce_sessions send pn tk seq (i # ids) s = Some (s', go)"
      using h(1) m k Carried by (simp add: s1_def)
    moreover have "pd_sink c' = pd_sink c @ (f # ns)" using h(2) by (simp add: c1_def)
    ultimately show ?thesis using outcome_carried [OF h(3,4)] by (auto simp: s1_def)
  next
    case Shed
    then have "carries (pd_sink s2) fs" using shed [OF Cons.prems(4)] k by (simp add: s1_def s2_def)
    from Cons.IH [OF c1 _ _ this] obtain s' go gs ns where
      h: "produce_sessions send pn tk seq ids s2 = Some (s', go)" "pd_sink c' = pd_sink c1 @ ns"
        "outcome carries torn (pd_dropped s2) fs go s' c' gs ns" "in_order send go gs ns"
      by (auto simp: c1_def s1_def s2_def)
    have "produce_sessions send pn tk seq (i # ids) s = Some (s', go)"
      using h(1) m k Shed by (simp add: s1_def s2_def)
    moreover have "pd_sink c' = pd_sink c @ (f # ns)" using h(2) by (simp add: c1_def)
    moreover have "outcome carries torn (pd_dropped s) fs go s' c' gs (f # ns)"
      by (rule outcome_shed) (use h(3) in \<open>simp add: s1_def s2_def\<close>)
    moreover have "in_order send go gs (f # ns)" using Shed k unfolding in_order_def by (metis snd_conv)
    ultimately show ?thesis by blast
  next
    case Broken
    obtain ns where ns: "pd_sink c' = pd_sink c1 @ ns" using collect_sessions [OF c1] by blast
    have "produce_sessions send pn tk seq (i # ids) s = Some (s1, False)" using m k Broken by (simp add: s1_def)
    moreover have "pd_sink c' = pd_sink c @ (f # ns)" using ns by (simp add: c1_def)
    moreover have "outcome carries torn (pd_dropped s) fs False s1 c' [] (f # ns)"
      using broken [OF Cons.prems(4)] k Broken by (auto simp: outcome_def s1_def intro!: exI [of _ f])
    moreover have "in_order send False [] (f # ns)" by (simp add: in_order_def)
    ultimately show ?thesis by blast
  qed
qed

lemma turns_outcome:
  assumes "produce_turns collect pn seq tks c = Some c'"
    "pd_rng c = pd_rng s" "pd_frame c = pd_frame s" "carries (pd_sink s) fs"
  shows "\<exists>s' go gs ns. produce_turns send pn seq tks s = Some s' \<and> pd_sink c' = pd_sink c @ ns
    \<and> outcome carries torn (pd_dropped s) fs go s' c' gs ns \<and> in_order send go gs ns"
  using assms
proof (induction tks arbitrary: seq c s fs)
  case Nil
  then show ?case by (intro exI [of _ s] exI [of _ True] exI [of _ "[]"]) (simp add: outcome_def in_order_def)
next
  case (Cons tk tks)
  show ?case
  proof (cases "seq < pn_total pn")
    case False
    then show ?thesis using Cons.prems
      by (intro exI [of _ s] exI [of _ True] exI [of _ "[]"]) (simp add: outcome_def in_order_def)
  next
    case True
    obtain c1 where t: "produce_turn collect pn tk seq c = Some (c1, True)" "produce_turns collect pn (seq + 1) tks c1 = Some c'"
      using Cons.prems(1) True collect_sessions by (fastforce simp: produce_turn_def split: bind_splits if_splits)
    obtain s1 go1 gs1 ns1 where h: "produce_turn send pn tk seq s = Some (s1, go1)" "pd_sink c1 = pd_sink c @ ns1"
        "outcome carries torn (pd_dropped s) fs go1 s1 c1 gs1 ns1" "in_order send go1 gs1 ns1"
      using sessions_outcome [OF t(1) [unfolded produce_turn_def], of "inject_stall pn tk (note_pacing pn tk seq s)" fs]
        Cons.prems(2-4) by (auto simp: enter_same produce_turn_def)
    show ?thesis
    proof (cases go1)
      case True
      then have "pd_rng c1 = pd_rng s1" "pd_frame c1 = pd_frame s1" "carries (pd_sink s1) (fs @ gs1)"
        using h(3) by (simp_all add: outcome_def)
      from Cons.IH [OF t(2) this] obtain s' go gs ns where
        r: "produce_turns send pn (seq + 1) tks s1 = Some s'" "pd_sink c' = pd_sink c1 @ ns"
          "outcome carries torn (pd_dropped s1) (fs @ gs1) go s' c' gs ns" "in_order send go gs ns"
        by blast
      have "produce_turns send pn seq (tk # tks) s = Some s'" using h(1) r(1) \<open>seq < pn_total pn\<close> True by simp
      moreover have "pd_sink c' = pd_sink c @ (ns1 @ ns)" using h(2) r(2) by simp
      ultimately show ?thesis
        using outcome_append [OF h(3,4) [unfolded eqTrueI [OF True]] r(3,4)] by blast
    next
      case False
      obtain ns where ns: "pd_sink c' = pd_sink c1 @ ns" using collect_turns [OF t(2)] by blast
      have "produce_turns send pn seq (tk # tks) s = Some s1" using h(1) \<open>seq < pn_total pn\<close> False by simp
      moreover have "pd_sink c' = pd_sink c @ (ns1 @ ns)" using h(2) ns by simp
      moreover note stopped = outcome_stopped [OF h(3,4) [unfolded Eq_FalseI [OF False]]]
      ultimately show ?thesis using stopped(1) [of c' ns] stopped(2) [of ns] by blast
    qed
  qed
qed

text \<open>A whole run.\<close>

lemma produce_outcome:
  assumes "produce collect pn tks [] = Some c" "carries k fs"
  obtains s go gs where "produce send pn tks k = Some s" "outcome carries torn 0 fs go s c gs (pd_sink c)"
    "in_order send go gs (pd_sink c)"
proof -
  obtain c0 where c0: "producer_start pn [] = Some c0" "produce_turns collect pn 0 tks c0 = Some c" "pd_sink c0 = []"
    using assms(1) by (auto simp: produce_def producer_start_def Let_def split: bind_splits)
  obtain s0 :: "'k producer" where s0: "producer_start pn k = Some s0" "pd_rng c0 = pd_rng s0" "pd_frame c0 = pd_frame s0"
      "pd_sink s0 = k" "pd_dropped s0 = 0"
    using c0(1) by (force simp: producer_start_def Let_def)
  obtain s go gs where "produce_turns send pn 0 tks s0 = Some s"
      "outcome carries torn 0 fs go s c gs (pd_sink c)" "in_order send go gs (pd_sink c)"
    using turns_outcome [OF c0(2) s0(2,3), of fs] assms(2) c0(3) s0(4,5) by auto
  then show ?thesis using that s0(1) by (simp add: produce_def)
qed

end

interpretation collecting: frame_sink collect "\<lambda>k fs. k = fs" "\<lambda>_ _ _. False"
  by unfold_locales (simp_all add: collect_def)

section \<open>The socket\<close>

text \<open>The socket has used up at most one answer of the kernel per byte on the stream.\<close>

definition socket_carries :: "nat list \<Rightarrow> uds_sink \<Rightarrow> audio_frame list \<Rightarrow> bool" where
  "socket_carries answers k fs \<longleftrightarrow> us_stream k = concat (map wire_bytes fs)
    \<and> (\<exists>used. answers = used @ us_accepts k \<and> length used \<le> length (us_stream k))"

definition socket_torn :: "nat list \<Rightarrow> uds_sink \<Rightarrow> audio_frame list \<Rightarrow> audio_frame \<Rightarrow> bool" where
  "socket_torn answers k fs f \<longleftrightarrow>
    (\<exists>part. us_stream k = concat (map wire_bytes fs) @ part \<and> strict_prefix part (wire_bytes f))
    \<and> (0 \<in> set answers \<or> length answers < length (concat (map wire_bytes (fs @ [f]))))"

lemma write_all_spec:
  "write_all accepts stream bs = (k, ok) \<Longrightarrow>
    \<exists>part used. us_stream k = stream @ part \<and> prefix part bs \<and> (ok \<longleftrightarrow> part = bs)
      \<and> accepts = used @ us_accepts k \<and> (0 \<notin> set used \<longrightarrow> length used \<le> length part)
      \<and> (if ok then 0 \<notin> set used else 0 \<in> set used \<or> us_accepts k = [])"
proof (induction accepts stream bs arbitrary: k ok rule: write_all.induct)
  case (3 n accepts stream b bs)
  show ?case
  proof (cases "n = 0")
    case True
    then show ?thesis using 3(2) by (intro exI [of _ "[]"] exI [of _ "[0]"]) auto
  next
    case False
    then obtain part used where p: "us_stream k = (stream @ take n (b # bs)) @ part" "prefix part (drop n (b # bs))"
        "ok \<longleftrightarrow> part = drop n (b # bs)" "accepts = used @ us_accepts k" "0 \<notin> set used \<longrightarrow> length used \<le> length part"
        "if ok then 0 \<notin> set used else 0 \<in> set used \<or> us_accepts k = []"
      using 3 by fastforce
    have "prefix (take n (b # bs) @ part) (take n (b # bs) @ drop n (b # bs))" using p(2) by (simp only: same_prefix_prefix)
    then have "prefix (take n (b # bs) @ part) (b # bs)" by (simp only: append_take_drop_id)
    moreover have "(take n (b # bs) @ part = b # bs) = (part = drop n (b # bs))"
      by (metis append_take_drop_id same_append_eq)
    moreover have "0 \<notin> set (n # used) \<longrightarrow> length (n # used) \<le> length (take n (b # bs) @ part)" using p(5) False by auto
    ultimately show ?thesis using p False
      by (intro exI [of _ "take n (b # bs) @ part"] exI [of _ "n # used"]) auto
  qed
qed auto

interpretation socket: frame_sink uds_send "socket_carries answers" "socket_torn answers" for answers
proof (unfold_locales, goal_cases)
  case (1 k fs f k')
  obtain ok where w: "write_all (us_accepts k) (us_stream k) (wire_bytes f) = (k', ok)" "ok"
    using 1(2) by (auto simp: uds_send_def split: prod.splits if_splits)
  from write_all_spec [OF w(1)] w(2) obtain used where
    "us_stream k' = us_stream k @ wire_bytes f" "us_accepts k = used @ us_accepts k'" "length used \<le> length (wire_bytes f)"
    by auto
  then show ?case using 1(1) by (auto simp: socket_carries_def)
next
  case (2 k fs f k')
  then show ?case by (auto simp: uds_send_def split: prod.splits if_splits)
next
  case (3 k fs f k')
  obtain ok where w: "write_all (us_accepts k) (us_stream k) (wire_bytes f) = (k', ok)" "\<not> ok"
    using 3(2) by (auto simp: uds_send_def split: prod.splits if_splits)
  from write_all_spec [OF w(1)] w(2) obtain part used where
    p: "us_stream k' = us_stream k @ part" "prefix part (wire_bytes f)" "part \<noteq> wire_bytes f"
      "us_accepts k = used @ us_accepts k'" "0 \<notin> set used \<longrightarrow> length used \<le> length part" "0 \<in> set used \<or> us_accepts k' = []"
    by auto
  have strict: "strict_prefix part (wire_bytes f)" using p(2,3) by (simp add: strict_prefix_def)
  obtain used0 where u: "answers = used0 @ us_accepts k" "length used0 \<le> length (us_stream k)"
    using 3(1) by (auto simp: socket_carries_def)
  have "0 \<in> set answers \<or> length answers < length (us_stream k @ wire_bytes f)"
    using p(4-6) u prefix_length_less [OF strict] by auto
  then show ?case using 3(1) p(1) strict by (auto simp: socket_carries_def socket_torn_def)
qed

section \<open>The frame ring with a consumer\<close>

text \<open>The consumer takes some frames before each push; what it took is kept for the statement.\<close>

record shm_link =
  sl_ring :: "audio_frame ring"
  sl_pops :: "nat list"
  sl_taken :: "audio_frame list"

fun take_some :: "nat \<Rightarrow> audio_frame ring \<Rightarrow> audio_frame list \<Rightarrow> audio_frame ring \<times> audio_frame list" where
  "take_some 0 r got = (r, got)"
| "take_some (Suc n) r got =
    (case try_pop r of (r, None) \<Rightarrow> (r, got) | (r, Some f) \<Rightarrow> take_some n r (got @ [f]))"

definition link_send :: "shm_link \<Rightarrow> audio_frame \<Rightarrow> shm_link \<times> send_result" where
  "link_send l f =
    (let (r, got) = (case sl_pops l of [] \<Rightarrow> (sl_ring l, sl_taken l) | n # _ \<Rightarrow> take_some n (sl_ring l) (sl_taken l));
         (r, x) = shm_send r f
     in (\<lparr>sl_ring = r, sl_pops = tl (sl_pops l), sl_taken = got\<rparr>, x))"

definition link_carries :: "nat \<Rightarrow> shm_link \<Rightarrow> audio_frame list \<Rightarrow> bool" where
  "link_carries c l fs \<longleftrightarrow> ring_wf (sl_ring l) \<and> length (rg_slots (sl_ring l)) = c \<and> sl_taken l @ ring_items (sl_ring l) = fs"

lemma take_some_items:
  assumes "ring_wf r" "take_some n r got = (r', got')"
  shows "ring_wf r' \<and> length (rg_slots r') = length (rg_slots r) \<and> got' @ ring_items r' = got @ ring_items r"
  using assms
proof (induction n r got rule: take_some.induct)
  case (2 n r got)
  obtain T h tc hc where "ring_at r T h tc hc" using 2(2) by (auto simp: ring_wf_def)
  note p = try_pop_at [OF this]
  obtain r1 x where pop: "try_pop r = (r1, x)" by (cases "try_pop r")
  show ?case
  proof (cases "ring_items r")
    case Nil
    then show ?thesis using p pop 2(3) by auto
  next
    case (Cons v vs)
    then have "x = Some v" "ring_wf r1" "ring_items r1 = vs" "rg_slots r1 = rg_slots r" using p pop by auto
    then show ?thesis using 2 pop Cons by auto
  qed
qed simp

interpretation link: frame_sink link_send "link_carries c" "\<lambda>_ _ _. False" for c
proof -
  have push: "link_carries c k' (if x = Carried then fs @ [f] else fs) \<and> x \<noteq> Broken"
    if "link_carries c k fs" "link_send k f = (k', x)" for k fs f k' x
  proof -
    define rg where "rg = (case sl_pops k of [] \<Rightarrow> (sl_ring k, sl_taken k) | n # _ \<Rightarrow> take_some n (sl_ring k) (sl_taken k))"
    obtain r got where rg': "rg = (r, got)" by (cases rg)
    have wf: "ring_wf r" "length (rg_slots r) = c" "got @ ring_items r = fs"
      using that(1) take_some_items [of "sl_ring k"] rg' unfolding rg_def
      by (auto simp: link_carries_def split: list.splits)
    obtain T h tc hc where "ring_at r T h tc hc" using wf(1) by (auto simp: ring_wf_def)
    note p = try_push_at [OF this, of f]
    have "k' = \<lparr>sl_ring = fst (try_push r f), sl_pops = tl (sl_pops k), sl_taken = got\<rparr>"
      "x = (if snd (try_push r f) = KFull then Shed else Carried)"
      using that(2) by (simp_all add: link_send_def rg_def [symmetric] rg' shm_send_def split_def Let_def)
    then show ?thesis using p wf by (auto simp: link_carries_def split: if_splits)
  qed
  show "frame_sink link_send (link_carries c) (\<lambda>_ _ _. False)"
    by unfold_locales (use push in fastforce)+
qed

end
