(* ===== verification/Producer_Props.thy ===== *)
theory Producer_Props
  imports Producer_Sinks Histogram_Props
begin

text \<open>
  The producer's stream: which frames a run generates, that they depend on the options and the seed
  only, and what arrives at the other end of the socket and of the frame ring.
\<close>

section \<open>The frames of a run\<close>

text \<open>The header of the frame of call \<open>i\<close> in turn \<open>seq\<close>.\<close>

definition planned_header :: "production \<Rightarrow> producer_tick \<Rightarrow> u64 \<Rightarrow> u32 \<Rightarrow> frame_header" where
  "planned_header pn tk seq i =
    \<lparr>fh_seq = seq, fh_t_produce_ns = pt_produce_ns tk i, fh_t_capture_ns = target_ns pn seq,
     fh_byte_len = of_nat (unat (pn_samples pn) * bytes_per_sample (po_format (pn_options pn))),
     fh_sample_rate = po_sample_rate (pn_options pn), fh_format = po_format (pn_options pn),
     fh_flags = (if seq = 0 then kFlagStreamStart else kFlagNone), fh_session_id = i\<rparr>"

text \<open>Turn by turn, call by call.\<close>

definition planned_headers :: "production \<Rightarrow> producer_tick list \<Rightarrow> frame_header list" where
  "planned_headers pn tks =
    concat (map (\<lambda>q. map (planned_header pn (tks ! q) (of_nat q)) (session_ids pn)) [0..<min (unat (pn_total pn)) (length tks)])"

text \<open>Options under which no conversion overflows and no store leaves the payload.\<close>

definition sound_production :: "production \<Rightarrow> bool" where
  "sound_production pn \<longleftrightarrow> \<bar>po_speech_amplitude (pn_options pn)\<bar> \<le> 1 \<and> \<bar>po_noise_floor (pn_options pn)\<bar> \<le> 1
    \<and> unat (pn_samples pn) * bytes_per_sample (po_format (pn_options pn)) \<le> kFramePayloadBytes"

definition slot_ok :: "production \<Rightarrow> audio_frame \<Rightarrow> bool" where
  "slot_ok pn f \<longleftrightarrow> length (payload f) = kFramePayloadBytes \<and> fh_sample_rate (hdr f) = po_sample_rate (pn_options pn)
    \<and> fh_format (hdr f) = po_format (pn_options pn)"

lemma slot_ok_first: "slot_ok pn (first_frame_of (pn_options pn))"
  by (simp add: slot_ok_def first_frame_of_def zero_frame_def)

lemma make_frame_some:
  assumes "sound_production pn" "slot_ok pn f"
  obtains rng' f' where "make_frame pn seq i (pt_produce_ns tk i) f rng = Some (rng', f')" "frame_ok f'"
    "hdr f' = planned_header pn tk seq i" "slot_ok pn f'"
proof -
  define opt n where "opt = pn_options pn" and "n = unat (pn_samples pn)"
  have "\<bar>amplitude_at pn seq i\<bar> \<le> 1" using assms(1) by (simp add: amplitude_at_def sound_production_def)
  moreover have "length (payload f) = kFramePayloadBytes" using assms(2) by (simp add: slot_ok_def)
  moreover have "n * bytes_per_sample (po_format opt) \<le> kFramePayloadBytes"
    using assms(1) by (simp add: sound_production_def n_def opt_def)
  ultimately obtain rng' g where g: "fill_payload f rng (amplitude_at pn seq i) (po_format opt) n = Some (rng', g)"
      "frame_ok g" "hdr g = (hdr f)\<lparr>fh_byte_len := of_nat (n * bytes_per_sample (po_format opt))\<rparr>"
    by (rule fill_payload_some)
  define f' where "f' = g\<lparr>hdr := planned_header pn tk seq i\<rparr>"
  have h: "hdr g\<lparr>fh_seq := seq, fh_session_id := i, fh_t_capture_ns := target_ns pn seq,
      fh_flags := (if seq = 0 then kFlagStreamStart else kFlagNone), fh_t_produce_ns := pt_produce_ns tk i\<rparr> = planned_header pn tk seq i"
    using assms(2) by (simp add: g(3) planned_header_def slot_ok_def n_def opt_def)
  show ?thesis
  proof (rule that)
    show "make_frame pn seq i (pt_produce_ns tk i) f rng = Some (rng', f')"
      unfolding make_frame_def g(1) [unfolded n_def opt_def] f'_def h [symmetric] by simp
    show "frame_ok f'" using g(2,3) by (simp add: frame_ok_def f'_def planned_header_def n_def opt_def)
    show "hdr f' = planned_header pn tk seq i" by (simp add: f'_def)
    show "slot_ok pn f'" using g(2) by (simp add: slot_ok_def f'_def planned_header_def frame_ok_def)
  qed
qed

lemma sessions_frames:
  assumes "sound_production pn" "slot_ok pn (pd_frame c)"
  shows "\<exists>c' ns. produce_sessions collect pn tk seq ids c = Some (c', True) \<and> pd_sink c' = pd_sink c @ ns
    \<and> map hdr ns = map (planned_header pn tk seq) ids \<and> (\<forall>f \<in> set ns. frame_ok f) \<and> slot_ok pn (pd_frame c')"
  using assms(2)
proof (induction ids arbitrary: c)
  case (Cons i ids)
  obtain rng f where m: "make_frame pn seq i (pt_produce_ns tk i) (pd_frame c) (pd_rng c) = Some (rng, f)" "frame_ok f"
      "hdr f = planned_header pn tk seq i" "slot_ok pn f"
    by (rule make_frame_some [OF assms(1) Cons.prems])
  define c1 where "c1 = c\<lparr>pd_rng := rng, pd_frame := f, pd_sink := pd_sink c @ [f]\<rparr>"
  obtain c' ns where r: "produce_sessions collect pn tk seq ids c1 = Some (c', True)" "pd_sink c' = pd_sink c1 @ ns"
      "map hdr ns = map (planned_header pn tk seq) ids" "\<forall>f \<in> set ns. frame_ok f" "slot_ok pn (pd_frame c')"
    using Cons.IH [of c1] m(4) by (auto simp: c1_def)
  have "produce_sessions collect pn tk seq (i # ids) c = Some (c', True)"
    using r(1) by (simp add: m(1) collect_def [of "pd_sink c" f] c1_def)
  then show ?case using r m by (intro exI [of _ c'] exI [of _ "f # ns"]) (simp add: c1_def)
qed simp

lemma turns_frames:
  assumes "sound_production pn" "slot_ok pn (pd_frame c)" "q + length tks < 2 ^ 64"
  shows "\<exists>c' ns. produce_turns collect pn (of_nat q) tks c = Some c' \<and> pd_sink c' = pd_sink c @ ns
    \<and> map hdr ns = concat (map (\<lambda>j. map (planned_header pn (tks ! (j - q)) (of_nat j)) (session_ids pn))
        [q..<min (unat (pn_total pn)) (q + length tks)])
    \<and> (\<forall>f \<in> set ns. frame_ok f)"
  using assms(2,3)
proof (induction tks arbitrary: q c)
  case (Cons tk tks)
  have q: "unat (of_nat q :: u64) = q" using Cons.prems(2) by (intro unat_of_nat_small) simp
  show ?case
  proof (cases "q < unat (pn_total pn)")
    case True
    define c0 where "c0 = inject_stall pn tk (note_pacing pn tk (of_nat q) c)"
    obtain c1 ns1 where t: "produce_turn collect pn tk (of_nat q) c = Some (c1, True)" "pd_sink c1 = pd_sink c @ ns1"
        "map hdr ns1 = map (planned_header pn tk (of_nat q)) (session_ids pn)" "\<forall>f \<in> set ns1. frame_ok f" "slot_ok pn (pd_frame c1)"
      using sessions_frames [OF assms(1), of c0 tk "of_nat q" "session_ids pn"] Cons.prems(1)
      by (auto simp: produce_turn_def c0_def enter_same)
    obtain c' ns where r: "produce_turns collect pn (of_nat (Suc q)) tks c1 = Some c'" "pd_sink c' = pd_sink c1 @ ns"
        "map hdr ns = concat (map (\<lambda>j. map (planned_header pn (tks ! (j - Suc q)) (of_nat j)) (session_ids pn))
          [Suc q..<min (unat (pn_total pn)) (Suc q + length tks)])" "\<forall>f \<in> set ns. frame_ok f"
      using Cons.IH [OF t(5), of "Suc q"] Cons.prems(2) by auto
    have "produce_turns collect pn (of_nat q) (tk # tks) c = Some c'"
      using t(1) r(1) True q by (simp add: word_less_nat_alt add.commute)
    moreover have "concat (map (\<lambda>j. map (planned_header pn ((tk # tks) ! (j - q)) (of_nat j)) (session_ids pn))
          [q..<min (unat (pn_total pn)) (q + length (tk # tks))]) = map hdr (ns1 @ ns)"
    proof -
      have e: "[q..<min (unat (pn_total pn)) (q + length (tk # tks))] = q # [Suc q..<min (unat (pn_total pn)) (Suc q + length tks)]"
        using True by (simp add: upt_conv_Cons)
      have tail: "map (\<lambda>j. map (planned_header pn ((tk # tks) ! (j - q)) (of_nat j)) (session_ids pn)) [Suc q..<m]
          = map (\<lambda>j. map (planned_header pn (tks ! (j - Suc q)) (of_nat j)) (session_ids pn)) [Suc q..<m]" for m
        by (intro map_cong refl) (auto simp: nth_Cons')
      show ?thesis unfolding e list.map concat.simps map_append t(3) r(3) tail by simp
    qed
    ultimately show ?thesis using t r by (intro exI [of _ c'] exI [of _ "ns1 @ ns"]) auto
  next
    case False
    then show ?thesis using q by (intro exI [of _ c] exI [of _ "[]"]) (simp add: word_less_nat_alt)
  qed
qed simp

lemma produced_frames:
  assumes "sound_production pn" "length tks < 2 ^ 64"
  obtains c where "produce collect pn tks [] = Some c" "map hdr (pd_sink c) = planned_headers pn tks"
    "\<forall>f \<in> set (pd_sink c). frame_ok f"
proof -
  obtain h where "hist_default 1000000000 = Some h" using hist_default_ok by blast
  then obtain c0 :: "audio_frame list producer" where c0: "producer_start pn [] = Some c0" "pd_frame c0 = first_frame_of (pn_options pn)" "pd_sink c0 = []"
    by (force simp: producer_start_def Let_def)
  have "slot_ok pn (pd_frame c0)" using slot_ok_first c0(2) by simp
  from turns_frames [OF assms(1) this, of 0 tks] assms(2) c0 show ?thesis
    by (auto simp: produce_def planned_headers_def intro: that)
qed

section \<open>Determinism\<close>

text \<open>A frame without its two clock readings.\<close>

definition timeless :: "audio_frame \<Rightarrow> audio_frame" where
  "timeless f = f\<lparr>hdr := (hdr f)\<lparr>fh_t_produce_ns := 0, fh_t_capture_ns := 0\<rparr>\<rparr>"

lemma frame_energy_timeless: "frame_energy (timeless f) = frame_energy f"
  by (simp add: timeless_def frame_energy_def)

lemma fill_payload_timeless:
  assumes "fill_payload f rng a format n = Some (rng', f')" "timeless f = timeless g"
  obtains g' where "fill_payload g rng a format n = Some (rng', g')" "timeless f' = timeless g'"
proof -
  have p: "payload f = payload g"
    using arg_cong [OF assms(2), of payload] by (simp add: timeless_def)
  obtain bs where bs: "fill_loop a format [0..<n] rng (payload g) = Some (rng', bs)"
      "f' = f\<lparr>hdr := (hdr f)\<lparr>fh_byte_len := of_nat (if format = kPcm16Le then n * 2 else n)\<rparr>, payload := bs\<rparr>"
    using assms(1) by (auto simp: fill_payload_def p split: bind_splits)
  show ?thesis
  proof (rule that)
    show "fill_payload g rng a format n
        = Some (rng', g\<lparr>hdr := (hdr g)\<lparr>fh_byte_len := of_nat (if format = kPcm16Le then n * 2 else n)\<rparr>, payload := bs\<rparr>)"
      by (simp add: fill_payload_def bs(1))
    show "timeless f' = timeless (g\<lparr>hdr := (hdr g)\<lparr>fh_byte_len := of_nat (if format = kPcm16Le then n * 2 else n)\<rparr>, payload := bs\<rparr>)"
      using assms(2) unfolding bs(2)
      by (cases f, cases g, cases "hdr f", cases "hdr g") (simp add: timeless_def)
  qed
qed

lemma make_frame_timeless:
  assumes "make_frame pn seq i t f rng = Some (rng', f')" "timeless f = timeless g"
  obtains g' where "make_frame (pn\<lparr>pn_start_ns := start\<rparr>) seq i t' g rng = Some (rng', g')" "timeless f' = timeless g'"
proof -
  have amp: "amplitude_at (pn\<lparr>pn_start_ns := start\<rparr>) seq i = amplitude_at pn seq i"
    by (simp add: amplitude_at_def speech_at_def phase_ms_def Let_def)
  obtain f1 where f1: "fill_payload f rng (amplitude_at pn seq i) (po_format (pn_options pn)) (unat (pn_samples pn)) = Some (rng', f1)"
      "f' = f1\<lparr>hdr := (hdr f1)\<lparr>fh_seq := seq, fh_session_id := i, fh_t_capture_ns := target_ns pn seq,
        fh_flags := (if seq = 0 then kFlagStreamStart else kFlagNone), fh_t_produce_ns := t\<rparr>\<rparr>"
    using assms(1) by (auto simp: make_frame_def split: bind_splits)
  obtain g1 where g1: "fill_payload g rng (amplitude_at pn seq i) (po_format (pn_options pn)) (unat (pn_samples pn)) = Some (rng', g1)"
      "timeless f1 = timeless g1"
    by (rule fill_payload_timeless [OF f1(1) assms(2)])
  define g' where "g' = g1\<lparr>hdr := (hdr g1)\<lparr>fh_seq := seq, fh_session_id := i, fh_t_capture_ns := target_ns (pn\<lparr>pn_start_ns := start\<rparr>) seq,
    fh_flags := (if seq = 0 then kFlagStreamStart else kFlagNone), fh_t_produce_ns := t'\<rparr>\<rparr>"
  show ?thesis
  proof (rule that)
    show "make_frame (pn\<lparr>pn_start_ns := start\<rparr>) seq i t' g rng = Some (rng', g')"
      by (simp add: make_frame_def amp g1(1) g'_def)
    show "timeless f' = timeless g'"
      using g1(2) unfolding f1(2) g'_def
      by (cases f1, cases g1, cases "hdr f1", cases "hdr g1") (simp add: timeless_def)
  qed
qed

text \<open>Two producers in the same state up to clock readings.\<close>

definition same_audio :: "audio_frame list producer \<Rightarrow> audio_frame list producer \<Rightarrow> bool" where
  "same_audio c d \<longleftrightarrow> pd_rng c = pd_rng d \<and> timeless (pd_frame c) = timeless (pd_frame d)
    \<and> map timeless (pd_sink c) = map timeless (pd_sink d)"

lemma sessions_same_audio:
  assumes "produce_sessions collect pn tk seq ids c = Some (c', go)" "same_audio c d"
  shows "\<exists>d'. produce_sessions collect (pn\<lparr>pn_start_ns := start\<rparr>) tk' seq ids d = Some (d', go) \<and> same_audio c' d'"
  using assms
proof (induction ids arbitrary: c d)
  case (Cons i ids)
  obtain rng f where m: "make_frame pn seq i (pt_produce_ns tk i) (pd_frame c) (pd_rng c) = Some (rng, f)"
      "produce_sessions collect pn tk seq ids (c\<lparr>pd_rng := rng, pd_frame := f, pd_sink := pd_sink c @ [f]\<rparr>) = Some (c', go)"
    using Cons.prems(1) by (auto simp: collect_def [of "pd_sink c"] split: bind_splits)
  have r: "pd_rng d = pd_rng c" "timeless (pd_frame c) = timeless (pd_frame d)" using Cons.prems(2) by (simp_all add: same_audio_def)
  obtain g where g: "make_frame (pn\<lparr>pn_start_ns := start\<rparr>) seq i (pt_produce_ns tk' i) (pd_frame d) (pd_rng c) = Some (rng, g)"
      "timeless f = timeless g"
    by (rule make_frame_timeless [OF m(1) r(2)])
  show ?case
    using Cons.IH [OF m(2), of "d\<lparr>pd_rng := rng, pd_frame := g, pd_sink := pd_sink d @ [g]\<rparr>"] Cons.prems(2) g
    by (simp add: r(1) collect_def [of "pd_sink d"] same_audio_def)
qed simp

lemma turns_same_audio:
  assumes "produce_turns collect pn seq tks c = Some c'" "same_audio c d" "length tks' = length tks"
  shows "\<exists>d'. produce_turns collect (pn\<lparr>pn_start_ns := start\<rparr>) seq tks' d = Some d' \<and> same_audio c' d'"
  using assms(3,1,2)
proof (induction tks' tks arbitrary: seq c d rule: list_induct2)
  case (Cons tk' tks' tk tks)
  show ?case
  proof (cases "seq < pn_total pn")
    case True
    define c0 d0 where "c0 = inject_stall pn tk (note_pacing pn tk seq c)"
      and "d0 = inject_stall (pn\<lparr>pn_start_ns := start\<rparr>) tk' (note_pacing (pn\<lparr>pn_start_ns := start\<rparr>) tk' seq d)"
    obtain c1 go where t: "produce_sessions collect pn tk seq (session_ids pn) c0 = Some (c1, go)"
        "(if go then produce_turns collect pn (seq + 1) tks c1 else Some c1) = Some c'"
      using Cons.prems(1) True by (auto simp: produce_turn_def c0_def split: bind_splits)
    have "same_audio c0 d0" using Cons.prems(2) by (simp add: same_audio_def c0_def d0_def enter_same)
    from sessions_same_audio [OF t(1) this, of start tk'] obtain d1 where
      d: "produce_sessions collect (pn\<lparr>pn_start_ns := start\<rparr>) tk' seq (session_ids pn) d0 = Some (d1, go)" "same_audio c1 d1"
      by blast
    have go: go using collect_sessions [OF t(1)] by blast
    from Cons.IH [OF _ d(2), of "seq + 1"] t(2) go d(1) True show ?thesis
      by (auto simp: produce_turn_def d0_def session_ids_def)
  qed (use Cons.prems in \<open>simp\<close>)
qed simp

lemma produce_same_audio:
  assumes "produce collect pn tks [] = Some c" "length tks' = length tks"
  obtains d where "produce collect (pn\<lparr>pn_start_ns := start\<rparr>) tks' [] = Some d" "map timeless (pd_sink d) = map timeless (pd_sink c)"
proof -
  obtain c0 :: "audio_frame list producer" where c0: "producer_start pn [] = Some c0" "produce_turns collect pn 0 tks c0 = Some c"
    using assms(1) by (auto simp: produce_def split: bind_splits)
  obtain d0 :: "audio_frame list producer" where d0: "producer_start (pn\<lparr>pn_start_ns := start\<rparr>) [] = Some d0" "same_audio c0 d0"
    using c0(1) by (force simp: producer_start_def Let_def same_audio_def)
  obtain d where "produce_turns collect (pn\<lparr>pn_start_ns := start\<rparr>) 0 tks' d0 = Some d" "same_audio c d"
    using turns_same_audio [OF c0(2) d0(2) assms(2), of start] by blast
  then show ?thesis using that d0(1) by (auto simp: produce_def same_audio_def)
qed

section \<open>Across the socket\<close>

lemma strict_prefix_waiting:
  assumes "frame_ok f" "strict_prefix part (wire_bytes f)"
  shows "waiting part"
proof -
  obtain rest where w: "wire_bytes f = part @ rest" "rest \<noteq> []" using assms(2) by (auto elim!: strict_prefixE')
  note r = wire_bytes_record(1,2) [OF assms(1), of "[]", unfolded append_Nil2]
  show ?thesis
  proof (cases part rule: bytes_cases)
    case 2
    then have "oversized (wire_bytes f)" using oversized_append w(1) by simp
    then show ?thesis using r(1) by (simp add: oversized_def has_record_def)
  next
    case 3
    then have "record_size (wire_bytes f) = record_size part" "record_size part \<le> length part"
      using has_record_append(2) [OF 3, of rest] 3 w(1) by (simp_all add: has_record_def record_size_def)
    then show ?thesis using r(2) w by simp
  qed
qed

lemma subseq_bytes: "subseq xs ys \<Longrightarrow> length (concat (map g xs)) \<le> length (concat (map g ys))"
  by (induction rule: list_emb.induct) auto

text \<open>What the stream of a run holds: whole frames, then at most a piece of one.\<close>

lemma socket_stream:
  assumes "produce collect pn tks [] = Some c" "\<forall>f \<in> set (pd_sink c). frame_ok f"
  obtains s gs part where "produce uds_send pn tks \<lparr>us_accepts = answers, us_stream = []\<rparr> = Some s"
    "us_stream (pd_sink s) = concat (map wire_bytes gs) @ part" "waiting part" "prefix gs (pd_sink c)"
    "0 \<notin> set answers \<and> length (concat (map wire_bytes (pd_sink c))) \<le> length answers \<Longrightarrow> gs = pd_sink c"
proof -
  have c0: "socket_carries answers \<lparr>us_accepts = answers, us_stream = []\<rparr> []" by (simp add: socket_carries_def)
  obtain s go gs where s: "produce uds_send pn tks \<lparr>us_accepts = answers, us_stream = []\<rparr> = Some s"
      "outcome (socket_carries answers) (socket_torn answers) 0 [] go s c gs (pd_sink c)" "in_order uds_send go gs (pd_sink c)"
    by (rule socket.produce_outcome [OF assms(1) c0])
  have "snd (uds_send k f) \<noteq> Shed" for k f by (simp add: uds_send_def split_def Let_def)
  then have p: "prefix gs (pd_sink c)" "go \<Longrightarrow> gs = pd_sink c" using s(3) by (auto simp: in_order_def)
  show ?thesis
  proof (cases go)
    case True
    then have "us_stream (pd_sink s) = concat (map wire_bytes gs) @ []"
      using s(2) by (simp add: outcome_def socket_carries_def)
    from that [OF s(1) this waiting_Nil p(1)] p(2) True show ?thesis by blast
  next
    case False
    then obtain f part where f: "subseq (gs @ [f]) (pd_sink c)" "us_stream (pd_sink s) = concat (map wire_bytes gs) @ part"
        "strict_prefix part (wire_bytes f)" "0 \<in> set answers \<or> length answers < length (concat (map wire_bytes (gs @ [f])))"
      using s(2) by (auto simp: outcome_def socket_torn_def)
    have "f \<in> set (pd_sink c)" using list_emb_set [OF f(1), of f] by auto
    then have "waiting part" using strict_prefix_waiting f(3) assms(2) by blast
    from that [OF s(1) f(2) this p(1)] f(4) subseq_bytes [OF f(1), of wire_bytes] show ?thesis by linarith
  qed
qed

lemma planned_header_times: "h \<in> set (planned_headers pn tks) \<Longrightarrow> \<exists>tk \<in> set tks. \<exists>i. fh_t_produce_ns h = pt_produce_ns tk i"
  by (auto simp: planned_headers_def planned_header_def intro!: bexI [OF _ nth_mem])

lemma produced_times:
  assumes "map hdr fs = planned_headers pn tks" "\<forall>tk \<in> set tks. \<forall>i. pt_produce_ns tk i \<noteq> 0" "f \<in> set fs"
  shows "fh_t_produce_ns (hdr f) \<noteq> 0"
proof -
  have "hdr f \<in> set (planned_headers pn tks)" using assms(3) unfolding assms(1) [symmetric] by simp
  then show ?thesis using planned_header_times assms(2) by fastforce
qed

text \<open>Pumping whole frames followed by a piece of one.\<close>

lemma pump_stream:
  fixes now :: "nat \<Rightarrow> u64" and st :: "audio_frame ring ingest"
  assumes "\<forall>f \<in> set gs. frame_ok f \<and> fh_t_produce_ns (hdr f) \<noteq> 0" "waiting part" "ring_wf (in_queue st)"
    "\<forall>a \<in> set avails. 0 < a" "length (concat (map wire_bytes gs) @ part) \<le> length avails"
  defines "st' \<equiv> fst (pump try_push now st [] avails (concat (map wire_bytes gs) @ part))"
  shows "ring_items (in_queue st') = take (length (rg_slots (in_queue st))) (ring_items (in_queue st) @ map received gs)"
    "in_full_drops st' = in_full_drops st + of_nat (length (ring_items (in_queue st)) + length gs - length (rg_slots (in_queue st)))"
proof -
  have "st' = foldl (take_frame try_push now) st (map received gs)"
    unfolding st'_def pump_state [OF assms(4,5)]
    using assms(1) by (simp add: parse_loop_frames parse_loop_waiting [OF assms(2)])
  moreover have "\<forall>f \<in> set (map received gs). fh_t_produce_ns (hdr f) \<noteq> 0"
    using assms(1) received_same(1) by auto
  ultimately show "ring_items (in_queue st') = take (length (rg_slots (in_queue st))) (ring_items (in_queue st) @ map received gs)"
    "in_full_drops st' = in_full_drops st + of_nat (length (ring_items (in_queue st)) + length gs - length (rg_slots (in_queue st)))"
    using offer_frames [OF assms(3), of "map received gs" now] by simp_all
qed

section \<open>Concrete runs\<close>

lemma default_amplitudes:
  "\<bar>po_speech_amplitude producer_defaults\<bar> \<le> 1" "\<bar>po_noise_floor producer_defaults\<bar> \<le> 1"
  using f64.rd_abs_le_int [of "4 / 1000" 1] by (simp_all add: producer_defaults_def)

lemma default_samples: "samples_per_frame producer_defaults = 480"
proof -
  have e: "rnd 24000 = 24000" "rnd 480000 = 480000" "rnd 480 = 480"
    using rnd_of_int [of 24000] rnd_of_int [of 480000] rnd_of_int [of 480] by simp_all
  show ?thesis
    by (simp add: samples_per_frame_def producer_defaults_def f_of_int_def fmul_def fdiv_def e u64_of_f_def f_trunc_def)
qed

definition sample_production :: production where
  "sample_production = \<lparr>pn_options = producer_defaults\<lparr>po_sessions := 2\<rparr>, pn_samples = 4, pn_frame_ns = 20000000,
     pn_total = 2, pn_start_ns = 5, pn_cycle_ms = 2400\<rparr>"

lemma sample_production_sound: "sound_production sample_production"
  using default_amplitudes
  by (simp add: sound_production_def sample_production_def producer_defaults_def bytes_per_sample_def kFramePayloadBytes_def)

section \<open>Properties\<close>

text \<open>C17: What the producer generates: with amplitudes of at most 1 and fewer than \<open>2 ^ 63\<close> samples per frame,
  a set-up that passes the size check runs without undefined behaviour; every frame is valid, and the
  headers are exactly one frame per call in every turn, with consecutive sequence numbers, capture times
  on the absolute grid and the start-of-stream flag on the first.\<close>

theorem producer_frames_as_planned:
  assumes "plan_production opt start = Some (Inr pn)" "\<bar>po_speech_amplitude opt\<bar> \<le> 1" "\<bar>po_noise_floor opt\<bar> \<le> 1"
    "unat (samples_per_frame opt) < 2 ^ 63" "length tks < 2 ^ 64"
  shows "\<exists>c. produce collect pn tks [] = Some c \<and> map hdr (pd_sink c) = planned_headers pn tks \<and> (\<forall>f \<in> set (pd_sink c). frame_ok f)"
proof -
  define n where "n = unat (samples_per_frame opt)"
  have b: "bytes_per_sample (po_format opt) = 1 \<or> bytes_per_sample (po_format opt) = 2" by (simp add: bytes_per_sample_def)
  then have "n * bytes_per_sample (po_format opt) < 2 ^ 64" using assms(4) by (auto simp: n_def)
  then have "unat (payload_bytes opt (samples_per_frame opt)) = n * bytes_per_sample (po_format opt)"
    using b by (auto simp: payload_bytes_def n_def unat_word_ariths(2))
  then have "n * bytes_per_sample (po_format opt) \<le> kFramePayloadBytes" "pn_options pn = opt" "unat (pn_samples pn) = n"
    using assms(1) by (auto simp: plan_production_def Let_def word_le_nat_alt kFramePayloadBytes_def n_def not_less split: if_splits)
  then have "sound_production pn" using assms(2,3) by (simp add: sound_production_def)
  then show ?thesis using produced_frames [OF _ assms(5)] by blast
qed

theorem producer_frames_as_planned_witness:
  "\<exists>pn c. plan_production producer_defaults 5 = Some (Inr pn)
    \<and> produce collect pn [\<lparr>pt_woke_ns = 6, pt_resume_ns = 7, pt_produce_ns = (\<lambda>_. 8)\<rparr>] [] = Some c
    \<and> map hdr (pd_sink c) = planned_headers pn [\<lparr>pt_woke_ns = 6, pt_resume_ns = 7, pt_produce_ns = (\<lambda>_. 8)\<rparr>]"
proof -
  have "payload_bytes producer_defaults 480 = 960" by (simp add: payload_bytes_def producer_defaults_def bytes_per_sample_def)
  moreover have "po_frame_ms producer_defaults \<noteq> 0" by (simp add: producer_defaults_def)
  ultimately obtain pn where p: "plan_production producer_defaults 5 = Some (Inr pn)"
    by (simp add: plan_production_def default_samples kFramePayloadBytes_def)
  show ?thesis
    using producer_frames_as_planned [OF p default_amplitudes, of "[\<lparr>pt_woke_ns = 6, pt_resume_ns = 7, pt_produce_ns = (\<lambda>_. 8)\<rparr>]"] p
    by (auto simp: default_samples)
qed

text \<open>C18: Determinism: two runs with the same options (so the same seed) generate the same audio and the
  same energies frame by frame, whatever the clock does and whenever they start; only the two time stamps
  of a header may differ.\<close>

theorem same_seed_same_audio:
  assumes "produce collect pn tks [] = Some c" "length tks' = length tks"
  shows "\<exists>d. produce collect (pn\<lparr>pn_start_ns := start\<rparr>) tks' [] = Some d
    \<and> map timeless (pd_sink d) = map timeless (pd_sink c) \<and> map frame_energy (pd_sink d) = map frame_energy (pd_sink c)"
proof -
  obtain d where d: "produce collect (pn\<lparr>pn_start_ns := start\<rparr>) tks' [] = Some d" "map timeless (pd_sink d) = map timeless (pd_sink c)"
    by (rule produce_same_audio [OF assms])
  have "map (frame_energy \<circ> timeless) (pd_sink d) = map (frame_energy \<circ> timeless) (pd_sink c)"
    unfolding map_map [symmetric] d(2) ..
  then show ?thesis using d by (simp add: o_def frame_energy_timeless)
qed

theorem same_seed_same_audio_witness:
  "\<exists>c d. produce collect sample_production [\<lparr>pt_woke_ns = 6, pt_resume_ns = 7, pt_produce_ns = (\<lambda>_. 8)\<rparr>] [] = Some c
    \<and> produce collect (sample_production\<lparr>pn_start_ns := 99\<rparr>) [\<lparr>pt_woke_ns = 400, pt_resume_ns = 0, pt_produce_ns = of_nat \<circ> unat\<rparr>] [] = Some d
    \<and> map frame_energy (pd_sink d) = map frame_energy (pd_sink c)"
proof -
  obtain c where c: "produce collect sample_production [\<lparr>pt_woke_ns = 6, pt_resume_ns = 7, pt_produce_ns = (\<lambda>_. 8)\<rparr>] [] = Some c"
    by (rule produced_frames [OF sample_production_sound, of "[\<lparr>pt_woke_ns = 6, pt_resume_ns = 7, pt_produce_ns = (\<lambda>_. 8)\<rparr>]"]) simp_all
  show ?thesis
    using same_seed_same_audio [OF c, of "[\<lparr>pt_woke_ns = 400, pt_resume_ns = 0, pt_produce_ns = of_nat \<circ> unat\<rparr>]" 99] c by auto
qed

text \<open>C5: Producer to consumer over the socket, end to end: however the kernel cuts the writes and the reads,
  and even when the connection fails in the middle of a record, the frames the reader offers to the ring
  are a prefix of the generated ones, whole and in order; what does not fit is shed and counted. When the
  kernel takes at least one byte per write and the peer stays, it is all of them.\<close>

theorem producer_reaches_ring_over_socket:
  assumes "sound_production pn" "length tks < 2 ^ 64" "\<forall>tk \<in> set tks. \<forall>i. pt_produce_ns tk i \<noteq> 0" "ring_wf r"
  shows "\<exists>c s gs. produce collect pn tks [] = Some c
    \<and> produce uds_send pn tks \<lparr>us_accepts = answers, us_stream = []\<rparr> = Some s
    \<and> prefix gs (pd_sink c)
    \<and> (0 \<notin> set answers \<and> length (concat (map wire_bytes (pd_sink c))) \<le> length answers \<longrightarrow> gs = pd_sink c)
    \<and> (\<forall>avails now d k. (\<forall>a \<in> set avails. 0 < a) \<and> length (us_stream (pd_sink s)) \<le> length avails \<longrightarrow>
        (let st = fst (pump try_push now \<lparr>in_queue = r, in_full_drops = d, in_clock = k\<rparr> [] avails (us_stream (pd_sink s)))
         in ring_items (in_queue st) = take (length (rg_slots r)) (ring_items r @ map received gs)
            \<and> in_full_drops st = d + of_nat (length (ring_items r) + length gs - length (rg_slots r))))"
proof -
  obtain c where c: "produce collect pn tks [] = Some c" "map hdr (pd_sink c) = planned_headers pn tks" "\<forall>f \<in> set (pd_sink c). frame_ok f"
    by (rule produced_frames [OF assms(1,2)])
  obtain s gs part where s: "produce uds_send pn tks \<lparr>us_accepts = answers, us_stream = []\<rparr> = Some s"
      "us_stream (pd_sink s) = concat (map wire_bytes gs) @ part" "waiting part" "prefix gs (pd_sink c)"
      "0 \<notin> set answers \<and> length (concat (map wire_bytes (pd_sink c))) \<le> length answers \<Longrightarrow> gs = pd_sink c"
    by (rule socket_stream [OF c(1,3), of answers]) blast
  have gs: "\<forall>f \<in> set gs. frame_ok f \<and> fh_t_produce_ns (hdr f) \<noteq> 0"
    using set_mono_prefix [OF s(4)] c(3) produced_times [OF c(2) assms(3)] by blast
  have "ring_wf (in_queue \<lparr>in_queue = r, in_full_drops = d, in_clock = k\<rparr>)" for d k using assms(4) by simp
  note pump = pump_stream [OF gs s(3) this, folded s(2)]
  show ?thesis
    unfolding Let_def using c(1) s(1,4,5) pump by (intro exI conjI) auto
qed

theorem producer_reaches_ring_over_socket_witness:
  "\<exists>s gs. produce uds_send sample_production [\<lparr>pt_woke_ns = 6, pt_resume_ns = 7, pt_produce_ns = (\<lambda>_. 8)\<rparr>]
        \<lparr>us_accepts = [30, 30, 5], us_stream = []\<rparr> = Some s
    \<and> ring_items (in_queue (fst (pump try_push (\<lambda>_. 0) \<lparr>in_queue = ring_new 2 zero_frame, in_full_drops = 0, in_clock = 0\<rparr>
        [] (replicate (length (us_stream (pd_sink s))) 9) (us_stream (pd_sink s))))) = take 2 (map received gs)"
proof -
  have ring: "ring_wf (ring_new 2 zero_frame)" "ring_items (ring_new 2 zero_frame) = []" "length (rg_slots (ring_new 2 zero_frame)) = 2"
    by (simp_all add: op_simps)
  define tks where "tks = [\<lparr>pt_woke_ns = 6, pt_resume_ns = 7, pt_produce_ns = (\<lambda>_. 8)\<rparr>]"
  have t: "length tks < 2 ^ 64" "\<forall>tk \<in> set tks. \<forall>i. pt_produce_ns tk i \<noteq> 0" by (simp_all add: tks_def)
  obtain s gs where s: "produce uds_send sample_production tks \<lparr>us_accepts = [30, 30, 5], us_stream = []\<rparr> = Some s"
    and all: "\<forall>avails now d k. (\<forall>a \<in> set avails. 0 < a) \<and> length (us_stream (pd_sink s)) \<le> length avails \<longrightarrow>
        (let st = fst (pump try_push now \<lparr>in_queue = ring_new 2 zero_frame, in_full_drops = d, in_clock = k\<rparr> [] avails (us_stream (pd_sink s)))
         in ring_items (in_queue st) = take 2 (map received gs) \<and> in_full_drops st = d + of_nat (length gs - 2))"
    using producer_reaches_ring_over_socket [OF sample_production_sound t ring(1), of "[30, 30, 5]"] ring(2,3) by auto
  show ?thesis
    using s all [rule_format, of "replicate (length (us_stream (pd_sink s))) 9" "\<lambda>_. 0" 0 0] unfolding tks_def Let_def by auto
qed

text \<open>Producer to consumer over shared memory: with a consumer taking frames between the pushes, every
  generated frame is taken, still in the ring, or counted in \<open>dropped_by_backpressure\<close>; what got through is
  in order and unaltered.\<close>

theorem producer_accounts_over_shm:
  assumes "sound_production pn" "length tks < 2 ^ 64" "valid_capacity c"
  shows "\<exists>all s. produce collect pn tks [] = Some all
    \<and> produce link_send pn tks \<lparr>sl_ring = ring_new c zero_frame, sl_pops = pops, sl_taken = []\<rparr> = Some s
    \<and> subseq (sl_taken (pd_sink s) @ ring_items (sl_ring (pd_sink s))) (pd_sink all)
    \<and> pd_dropped s + of_nat (length (sl_taken (pd_sink s) @ ring_items (sl_ring (pd_sink s)))) = of_nat (length (pd_sink all))"
proof -
  obtain all where all: "produce collect pn tks [] = Some all" by (rule produced_frames [OF assms(1,2)])
  have "link_carries c \<lparr>sl_ring = ring_new c zero_frame, sl_pops = pops, sl_taken = []\<rparr> []"
    using assms(3) by (simp add: link_carries_def op_simps)
  from link.produce_outcome [OF all this] obtain s go gs where
    s: "produce link_send pn tks \<lparr>sl_ring = ring_new c zero_frame, sl_pops = pops, sl_taken = []\<rparr> = Some s"
      "outcome (link_carries c) (\<lambda>_ _ _. False) 0 [] go s all gs (pd_sink all)"
    by blast
  have go: go using s(2) by (auto simp: outcome_def split: if_splits)
  then have "gs = sl_taken (pd_sink s) @ ring_items (sl_ring (pd_sink s))" using s(2) by (simp add: outcome_def link_carries_def)
  then show ?thesis using all s go by (auto simp: outcome_def)
qed

theorem producer_accounts_over_shm_witness:
  "\<exists>all s. produce collect sample_production [\<lparr>pt_woke_ns = 6, pt_resume_ns = 7, pt_produce_ns = (\<lambda>_. 8)\<rparr>] [] = Some all
    \<and> produce link_send sample_production [\<lparr>pt_woke_ns = 6, pt_resume_ns = 7, pt_produce_ns = (\<lambda>_. 8)\<rparr>]
        \<lparr>sl_ring = ring_new 2 zero_frame, sl_pops = [0, 1], sl_taken = []\<rparr> = Some s
    \<and> subseq (sl_taken (pd_sink s) @ ring_items (sl_ring (pd_sink s))) (pd_sink all)"
proof -
  have "valid_capacity 2" using valid_capacity_pow2_iff [of 1] by simp
  moreover have "length [\<lparr>pt_woke_ns = 6, pt_resume_ns = 7, pt_produce_ns = (\<lambda>_ :: u32. 8 :: u64)\<rparr>] < 2 ^ 64" by simp
  ultimately show ?thesis using producer_accounts_over_shm [OF sample_production_sound] by blast
qed

end
