(* ===== verification/Whole_Run.thy ===== *)
theory Whole_Run
  imports Consumer_Calls Producer_Props
begin

text \<open>
  Both programs together: a consumer fed with the frames a producer generates, over either transport.
  What the producer numbers call by call is what the consumer's report is about.
\<close>

section \<open>The numbering of the producer\<close>

definition numbered :: "audio_frame \<Rightarrow> u32 \<times> u64" where
  "numbered f = (fh_session_id (hdr f), f_seq f)"

definition seqs_of :: "u32 \<Rightarrow> (u32 \<times> u64) list \<Rightarrow> u64 list" where
  "seqs_of sid ks = map snd (filter (\<lambda>k. fst k = sid) ks)"

lemma subseq_set: "subseq xs ys \<Longrightarrow> set xs \<subseteq> set ys"
  by (induction rule: list_emb.induct) auto

lemma sorted_wrt_subseq: "subseq xs ys \<Longrightarrow> sorted_wrt P ys \<Longrightarrow> sorted_wrt P xs"
  by (induction rule: list_emb.induct) (auto dest: subseq_set)

lemma seqs_of_subseq:
  assumes "subseq ks ls" "sorted_wrt (<) (seqs_of sid ls)"
  shows "sorted_wrt (<) (seqs_of sid ks)"
proof -
  have "subseq (seqs_of sid ks) (seqs_of sid ls)" unfolding seqs_of_def by (intro subseq_map subseq_filter assms(1))
  then show ?thesis using assms(2) by (rule sorted_wrt_subseq)
qed

lemma distinct_sessions: "distinct (session_ids pn)"
proof -
  have "inj_on (of_nat :: nat \<Rightarrow> u32) {0..<unat (po_sessions (pn_options pn))}"
  proof (rule inj_onI)
    fix x y assume a: "x \<in> {0..<unat (po_sessions (pn_options pn))}" "y \<in> {0..<unat (po_sessions (pn_options pn))}"
      "(of_nat x :: u32) = of_nat y"
    have "z < 2 ^ 32" if "z \<in> {0..<unat (po_sessions (pn_options pn))}" for z
      using that unat_u32_less [of "po_sessions (pn_options pn)"] by simp
    then have "unat (of_nat x :: u32) = x" "unat (of_nat y :: u32) = y" using a(1,2) by (simp_all add: unat_of_nat_small)
    then show "x = y" unfolding a(3) by simp
  qed
  then show ?thesis by (simp add: session_ids_def distinct_map)
qed

lemma filter_distinct: "distinct xs \<Longrightarrow> filter (\<lambda>y. y = x) xs = (if x \<in> set xs then [x] else [])"
  by (induction xs) auto

lemma planned_numbering:
  assumes "map hdr fs = planned_headers pn tks" "length tks < 2 ^ 64"
  shows "sorted_wrt (<) (seqs_of sid (map numbered fs))" "set (map (\<lambda>f. fh_session_id (hdr f)) fs) \<subseteq> set (session_ids pn)"
proof -
  define n where "n = min (unat (pn_total pn)) (length tks)"
  have key: "map numbered fs = map (\<lambda>h. (fh_session_id h, fh_seq h)) (planned_headers pn tks)"
    unfolding assms(1) [symmetric] by (simp add: numbered_def)
  have "seqs_of sid (map numbered fs)
      = concat (map (\<lambda>q. map (\<lambda>_. of_nat q) (filter (\<lambda>i. i = sid) (session_ids pn))) [0..<n])"
    unfolding key seqs_of_def planned_headers_def n_def [symmetric]
    by (simp add: map_concat filter_concat filter_map comp_def planned_header_def)
  also have "\<dots> = (if sid \<in> set (session_ids pn) then map of_nat [0..<n] else [])"
    by (simp add: filter_distinct [OF distinct_sessions] concat_map_singleton)
  finally have s: "seqs_of sid (map numbered fs) = (if sid \<in> set (session_ids pn) then map of_nat [0..<n] else [])" .
  have "n \<le> length tks" by (simp add: n_def)
  then have "(of_nat i :: u64) < of_nat j" if "i < j" "j < n" for i j
    using that assms(2) by (simp add: word_less_nat_alt unat_of_nat_small)
  then show "sorted_wrt (<) (seqs_of sid (map numbered fs))" unfolding s by (simp add: sorted_wrt_iff_nth_less)
  show "set (map (\<lambda>f. fh_session_id (hdr f)) fs) \<subseteq> set (session_ids pn)"
  proof -
    have "map (\<lambda>f. fh_session_id (hdr f)) fs = map fh_session_id (planned_headers pn tks)"
      unfolding assms(1) [symmetric] by simp
    then show ?thesis by (auto simp: planned_headers_def planned_header_def)
  qed
qed

section \<open>What is heard of it\<close>

lemma heard_frames: "length ps \<le> length tks \<Longrightarrow> map fst (heard ps tks) = outs ps"
proof (induction ps arbitrary: tks)
  case (Cons p ps)
  then obtain tk uks where "tks = tk # uks" "length ps \<le> length uks" by (cases tks) auto
  then show ?case using Cons.IH [of uks] by (cases p) (simp_all add: heard_def)
qed simp

lemma call_seqs_numbered: "call_seqs sid xs = seqs_of sid (map numbered (map fst xs))"
  by (induction xs) (auto simp: call_seqs_def call_frames_def seqs_of_def numbered_def)

lemma call_ids_heard: "call_ids xs = set (map (\<lambda>f. fh_session_id (hdr f)) (map fst xs))"
  by (force simp: call_ids_def)

definition never_silent :: "u64 \<Rightarrow> audio_frame option list \<Rightarrow> tick list \<Rightarrow> bool" where
  "never_silent idle ps tks \<longleftrightarrow> (\<forall>n < length ps. \<forall>sid \<in> call_ids (heard (take n ps) (take n tks)).
     tk_loop_ns (tks ! n) - last_heard sid (heard (take n ps) (take n tks)) < idle)"

text \<open>The numbers of what is heard, when what arrives are the frames of a producer.\<close>

lemma heard_of_producer:
  assumes "map hdr fs = planned_headers pn ptks" "length ptks < 2 ^ 64" "subseq (map numbered (outs ps)) (map numbered fs)"
    "length ps \<le> length tks"
  shows "sorted_wrt (<) (call_seqs sid (heard ps tks))" "card (call_ids (heard ps tks)) \<le> unat (po_sessions (pn_options pn))"
proof -
  have n: "map numbered (map fst (heard ps tks)) = map numbered (outs ps)" using heard_frames [OF assms(4)] by simp
  show "sorted_wrt (<) (call_seqs sid (heard ps tks))"
    unfolding call_seqs_numbered n by (rule seqs_of_subseq [OF assms(3) planned_numbering(1) [OF assms(1,2)]])
  have ids: "fst ` set (map numbered gs) = set (map (\<lambda>f. fh_session_id (hdr f)) gs)" for gs
    by (force simp: numbered_def)
  have "set (map numbered (outs ps)) \<subseteq> set (map numbered fs)" using assms(3) by (rule subseq_set)
  then have "call_ids (heard ps tks) \<subseteq> set (session_ids pn)"
    using planned_numbering(2) [OF assms(1,2)] unfolding call_ids_heard ids [symmetric] n by blast
  then have "card (call_ids (heard ps tks)) \<le> card (set (session_ids pn))" by (intro card_mono) simp_all
  also have "\<dots> \<le> unat (po_sessions (pn_options pn))"
    using card_length [of "session_ids pn"] by (simp add: session_ids_def)
  finally show "card (call_ids (heard ps tks)) \<le> unat (po_sessions (pn_options pn))" .
qed

lemma numbered_unstamped [simp]: "numbered (unstamped f) = numbered f"
  by (simp add: numbered_def unstamped_def)

text \<open>What arrives: the frames the producer got through, as the reader of the socket rebuilds them.\<close>

definition arrived :: "consumer_options \<Rightarrow> audio_frame list \<Rightarrow> audio_frame list" where
  "arrived opt gs = (if co_uds_path opt = [] then gs else map received gs)"

lemma arrived_frames:
  assumes "\<forall>f \<in> set gs. frame_ok f"
  shows "map numbered (arrived opt gs) = map numbered gs" "\<forall>f \<in> set (arrived opt gs). frame_ok f"
  using assms received_same by (auto simp: arrived_def numbered_def)

lemma heard_numbered:
  assumes "if co_uds_path opt = [] then subseq (outs ps) fs else subseq (map unstamped (outs ps)) (map unstamped fs)"
  shows "subseq (map numbered (outs ps)) (map numbered fs)"
proof (cases "co_uds_path opt = []")
  case True
  then show ?thesis using assms by (intro subseq_map) simp
next
  case False
  then have "subseq (map unstamped (outs ps)) (map unstamped fs)" using assms by simp
  from subseq_map [OF this, of numbered] show ?thesis by (simp add: comp_def)
qed

section \<open>Properties\<close>

text \<open>C3: The two programs together, over either transport: the frames that arrive at the consumer are those a
  run of the producer got through (an initial part of what it generated). When its calls fit the table and
  none falls silent, every frame the consumer hears is processed, what it hears of each call is numbered in
  increasing order, the gaps reported are exactly the frames lost between the first and the last frame
  heard of each call, the chunks of each call are those of an assembler that hears it alone, and the lines
  printed are the chunks emitted less the counted drops.\<close>

theorem pipeline_reports_its_losses:
  assumes "sound_production pn" "length ptks < 2 ^ 64" "produce collect pn ptks [] = Some c"
    and "consumer_parse_args args = Some opt" "co_max_sessions opt < kTombstone" "kEventRingCapacity < mw_drain w"
    "if co_uds_path opt = [] then sa_open (mw_shm w) \<and> sa_truncate (mw_shm w) \<and> sa_map (mw_shm w)
     else snd (uds_start (mw_uds w) (co_uds_path opt) (mf_sockets files)) = None"
    and "prefix gs (pd_sink c)" "concat (mw_arrivals w) = arrived opt gs"
    "unat (po_sessions (pn_options pn)) \<le> capacity_of (co_max_sessions opt)"
  shows "\<exists>ps emitted r files' m evs. consumer_history opt w = Some (ps, emitted)
    \<and> consumer_main argv args w files = Some (r, files') \<and> mr_code r = 0
    \<and> mr_stderr r = report m (co_frame_ms opt) (if co_uds_path opt = [] then ''shm'' else ''uds'')
    \<and> subseq (map numbered (outs ps)) (map numbered (pd_sink c))
    \<and> subseq evs emitted \<and> printed (mr_stdout r) = map event_line evs
    \<and> m_event_drops m = of_nat (length emitted - length evs)
    \<and> (\<forall>sid. sorted_wrt (<) (call_seqs sid (heard ps (mw_ticks w))))
    \<and> (never_silent (hc_idle_ns (hot_configure opt (mw_config_ns w))) ps (mw_ticks w) \<longrightarrow>
       m_frames m = of_nat (length (outs ps)) \<and> m_frames_refused m = 0
       \<and> m_seq_gaps m = (\<Sum>sid \<in> call_ids (heard ps (mw_ticks w)). last (call_seqs sid (heard ps (mw_ticks w)))
             - hd (call_seqs sid (heard ps (mw_ticks w))) + 1 - of_nat (length (call_seqs sid (heard ps (mw_ticks w)))))
       \<and> (\<forall>sid. call_chunks opt (mw_ticks w) (mw_end_ns w) ps emitted sid))"
proof -
  have fs: "map hdr (pd_sink c) = planned_headers pn ptks" "\<forall>f \<in> set (pd_sink c). frame_ok f"
    using produced_frames [OF assms(1,2)] assms(3) by (metis option.inject)+
  then have gs: "\<forall>f \<in> set gs. frame_ok f" using set_mono_prefix [OF assms(8)] by blast
  have "set (concat (mw_arrivals w)) = set (arrived opt gs)" unfolding assms(9) ..
  then have ok: "\<forall>fs \<in> set (mw_arrivals w). \<forall>f \<in> set fs. frame_ok f"
    using arrived_frames(2) [OF gs, of opt] by auto
  from main_calls_accounted [OF assms(4,5) ok assms(6,7), of argv, unfolded calls_accounted_def] obtain ps emitted r files' m0 m evs where
    h: "consumer_history opt w = Some (ps, emitted)" "consumer_main argv args w files = Some (r, files')" "mr_code r = 0"
      "mr_stderr r = report m (co_frame_ms opt) (if co_uds_path opt = [] then ''shm'' else ''uds'')"
      "printed (mr_stdout r) = map event_line evs"
    and sub: "if co_uds_path opt = [] then subseq (outs ps) (concat (mw_arrivals w))
       else subseq (map unstamped (outs ps)) (map unstamped (concat (mw_arrivals w)))"
    and a: "run_accounts opt (mw_config_ns w) (mw_ticks w) (mw_end_ns w) m0 m ps emitted evs" by blast
  define xs where "xs = heard ps (mw_ticks w)"
  have "subseq (map numbered (outs ps)) (map numbered gs)"
    using heard_numbered [OF sub] unfolding assms(9) arrived_frames(1) [OF gs] .
  moreover have "subseq (map numbered gs) (map numbered (pd_sink c))" using assms(8) by (intro subseq_map) auto
  ultimately have n: "subseq (map numbered (outs ps)) (map numbered (pd_sink c))" by (rule subseq_order.order_trans)
  note heard = heard_of_producer [OF fs(1) assms(2) n history_length [OF h(1)], folded xs_def]
  have "undisturbed (capacity_of (co_max_sessions opt)) idle ps (mw_ticks w)" if "never_silent idle ps (mw_ticks w)" for idle
    using that heard(2) assms(10) by (simp add: undisturbed_def never_silent_def xs_def)
  moreover have "missed_frames (xs) = (\<Sum>sid \<in> call_ids (xs). last (call_seqs sid (xs)) - hd (call_seqs sid (xs)) + 1
      - of_nat (length (call_seqs sid (xs))))"
    using heard(1) by (intro missed_frames_increasing) blast
  ultimately have quiet: "m_frames m = of_nat (length (outs ps)) \<and> m_frames_refused m = 0
      \<and> m_seq_gaps m = (\<Sum>sid \<in> call_ids xs. last (call_seqs sid xs) - hd (call_seqs sid xs) + 1 - of_nat (length (call_seqs sid xs)))
      \<and> (\<forall>sid. call_chunks opt (mw_ticks w) (mw_end_ns w) ps emitted sid)"
    if "never_silent (hc_idle_ns (hot_configure opt (mw_config_ns w))) ps (mw_ticks w)"
    using that a by (auto simp: run_accounts_def call_figures_def xs_def [symmetric])
  have "subseq evs emitted" "m_event_drops m = of_nat (length emitted - length evs)" using a by (simp_all add: run_accounts_def)
  then show ?thesis
    using h n quiet heard(1) unfolding xs_def
    by - (rule exI [of _ ps], rule exI [of _ emitted], rule exI [of _ r], rule exI [of _ files'], rule exI [of _ m],
        rule exI [of _ evs], simp)
qed

definition sample_turns :: "producer_tick list" where
  "sample_turns = [\<lparr>pt_woke_ns = 6, pt_resume_ns = 7, pt_produce_ns = (\<lambda>_. 8)\<rparr>]"

definition sample_feed :: "audio_frame list \<Rightarrow> main_world" where
  "sample_feed fs = sample_calls\<lparr>mw_arrivals := [arrived sample_call_options fs]\<rparr>"

theorem pipeline_reports_its_losses_witness:
  "\<exists>c ps emitted r files' m. produce collect sample_production sample_turns [] = Some c
    \<and> consumer_history sample_call_options (sample_feed (pd_sink c)) = Some (ps, emitted)
    \<and> consumer_main ''vhp'' [(KUds, ''/s'')] (sample_feed (pd_sink c)) \<lparr>mf_shm = Map.empty, mf_sockets = {}\<rparr> = Some (r, files')
    \<and> mr_stderr r = report m 20 ''uds'' \<and> subseq (map numbered (outs ps)) (map numbered (pd_sink c))
    \<and> m_frames m = of_nat (length (outs ps))
    \<and> call_chunks sample_call_options (mw_ticks sample_calls) (mw_end_ns sample_calls) ps emitted 1"
proof -
  have l: "length sample_turns < 2 ^ 64" by (simp add: sample_turns_def)
  obtain c where c: "produce collect sample_production sample_turns [] = Some c"
    by (rule produced_frames [OF sample_production_sound l])
  define w where "w = sample_feed (pd_sink c)"
  have same: "mw_ticks w = mw_ticks sample_calls" "mw_end_ns w = mw_end_ns sample_calls" "mw_config_ns w = mw_config_ns sample_calls"
      "mw_drain w = mw_drain sample_calls" "mw_uds w = mw_uds sample_calls" "mw_shm w = mw_shm sample_calls"
    by (simp_all add: w_def sample_feed_def)
  have drain: "kEventRingCapacity < mw_drain w" using sample_calls_facts(4) by (simp add: same)
  have start: "if co_uds_path sample_call_options = [] then sa_open (mw_shm w) \<and> sa_truncate (mw_shm w) \<and> sa_map (mw_shm w)
      else snd (uds_start (mw_uds w) (co_uds_path sample_call_options) (mf_sockets \<lparr>mf_shm = Map.empty, mf_sockets = {}\<rparr>)) = None"
    unfolding same by (rule sample_calls_facts(5))
  have arr: "concat (mw_arrivals w) = arrived sample_call_options (pd_sink c)" by (simp add: w_def sample_feed_def)
  have cap: "unat (po_sessions (pn_options sample_production)) \<le> capacity_of (co_max_sessions sample_call_options)"
    by (simp add: sample_production_def capacity_of_def sample_call_options_def consumer_defaults_def)
  have quiet: "never_silent (hc_idle_ns (hot_configure sample_call_options (mw_config_ns w))) ps (mw_ticks w)"
    if "consumer_history sample_call_options w = Some (ps, emitted)" for ps emitted
  proof -
    have "length ps \<le> 2" using history_length [OF that] by (simp add: same sample_calls_def)
    moreover have "hc_idle_ns (hot_configure sample_call_options (mw_config_ns w)) = 2000000000"
      using default_idle by (simp add: sample_call_options_def hot_configure_def)
    ultimately have "undisturbed 2 (hc_idle_ns (hot_configure sample_call_options (mw_config_ns w))) ps (mw_ticks w)"
      unfolding same by (simp add: sample_calls_def) (intro undisturbed_two; simp)
    then show ?thesis by (simp add: undisturbed_def never_silent_def)
  qed
  from pipeline_reports_its_losses [OF sample_production_sound l c sample_calls_facts(1,2) drain start prefix_order.refl arr cap, of "''vhp''"]
  have "\<exists>ps emitted r files' m. consumer_history sample_call_options w = Some (ps, emitted)
      \<and> consumer_main ''vhp'' [(KUds, ''/s'')] w \<lparr>mf_shm = Map.empty, mf_sockets = {}\<rparr> = Some (r, files')
      \<and> mr_stderr r = report m 20 ''uds'' \<and> subseq (map numbered (outs ps)) (map numbered (pd_sink c))
      \<and> m_frames m = of_nat (length (outs ps))
      \<and> call_chunks sample_call_options (mw_ticks sample_calls) (mw_end_ns sample_calls) ps emitted 1"
    using quiet sample_calls_facts(6,7) unfolding same by (simp split del: if_split) blast
  then show ?thesis using c unfolding w_def by blast
qed

end
