(* ===== verification/Spsc_Concurrent.thy ===== *)
theory Spsc_Concurrent
  imports Spsc_Ring
begin

text \<open>
  The ring of \<open>include/vhp/spsc_ring.hpp\<close> with its two sides running concurrently, at the grain
  of single atomic accesses and slot copies. An acquire load of the other side's index may return
  any value that side has stored since the last one this side saw, so a load may be stale but
  never goes backwards (coherence). The theorems: what is popped is a prefix of what was pushed,
  the ring never holds more than its capacity, and a slot copy on one side never meets a copy
  of the same slot on the other side; each side's acquired index already covers the access it is
  about to make, which is the happens-before edge the release store and the acquire load give.
\<close>

section \<open>Threads\<close>

text \<open>Where a thread is inside \<open>try_push\<close> and \<open>try_pop\<close>, with its local variables.\<close>

datatype 'a producer_pc =
    PIdle
  | PCheck 'a u64
  | PReload 'a u64
  | PWrite 'a u64
  | PPublish 'a u64

datatype 'a consumer_pc =
    CIdle
  | CCheck u64
  | CReload u64
  | CRead u64
  | CRelease u64 'a

text \<open>The shared ring, the two threads, and ghost state: the values published and taken so far and
  the counts the two cached indices stand for.\<close>

record 'a system =
  sy_ring :: "'a ring"
  sy_prod :: "'a producer_pc"
  sy_cons :: "'a consumer_pc"
  sy_sent :: "'a list"
  sy_got :: "'a list"
  sy_tc :: nat
  sy_hc :: nat

datatype 'a label = Silent | Push_ok 'a | Push_full 'a | Pop_some 'a | Pop_none

definition system_new :: "nat \<Rightarrow> 'a \<Rightarrow> 'a system" where
  "system_new c z = \<lparr>sy_ring = ring_new c z, sy_prod = PIdle, sy_cons = CIdle, sy_sent = [], sy_got = [],
     sy_tc = 0, sy_hc = 0\<rparr>"

inductive sys_step :: "'a system \<Rightarrow> 'a label \<Rightarrow> 'a system \<Rightarrow> bool" where
  push_begin: "sy_prod s = PIdle \<Longrightarrow>
    sys_step s Silent (s\<lparr>sy_prod := PCheck v (rg_head (sy_ring s))\<rparr>)"
| push_room: "sy_prod s = PCheck v h \<Longrightarrow> \<not> h - rg_tail_cache (sy_ring s) \<ge> capacity (sy_ring s) \<Longrightarrow>
    sys_step s Silent (s\<lparr>sy_prod := PWrite v h\<rparr>)"
| push_stale: "sy_prod s = PCheck v h \<Longrightarrow> h - rg_tail_cache (sy_ring s) \<ge> capacity (sy_ring s) \<Longrightarrow>
    sys_step s Silent (s\<lparr>sy_prod := PReload v h\<rparr>)"
| push_reload: "sy_prod s = PReload v h \<Longrightarrow> sy_tc s \<le> t \<Longrightarrow> t \<le> length (sy_got s) \<Longrightarrow>
    \<not> h - of_nat t \<ge> capacity (sy_ring s) \<Longrightarrow>
    sys_step s Silent (s\<lparr>sy_ring := (sy_ring s)\<lparr>rg_tail_cache := of_nat t\<rparr>, sy_tc := t, sy_prod := PWrite v h\<rparr>)"
| push_full: "sy_prod s = PReload v h \<Longrightarrow> sy_tc s \<le> t \<Longrightarrow> t \<le> length (sy_got s) \<Longrightarrow>
    h - of_nat t \<ge> capacity (sy_ring s) \<Longrightarrow>
    sys_step s (Push_full v) (s\<lparr>sy_ring := (sy_ring s)\<lparr>rg_tail_cache := of_nat t\<rparr>, sy_tc := t, sy_prod := PIdle\<rparr>)"
| push_write: "sy_prod s = PWrite v h \<Longrightarrow>
    sys_step s Silent (s\<lparr>sy_ring := (sy_ring s)\<lparr>rg_slots := (rg_slots (sy_ring s))[slot_of (sy_ring s) h := v]\<rparr>,
      sy_prod := PPublish v h\<rparr>)"
| push_publish: "sy_prod s = PPublish v h \<Longrightarrow>
    sys_step s (Push_ok v) (s\<lparr>sy_ring := (sy_ring s)\<lparr>rg_head := h + 1\<rparr>, sy_prod := PIdle, sy_sent := sy_sent s @ [v]\<rparr>)"
| pop_begin: "sy_cons s = CIdle \<Longrightarrow>
    sys_step s Silent (s\<lparr>sy_cons := CCheck (rg_tail (sy_ring s))\<rparr>)"
| pop_ready: "sy_cons s = CCheck t \<Longrightarrow> t \<noteq> rg_head_cache (sy_ring s) \<Longrightarrow>
    sys_step s Silent (s\<lparr>sy_cons := CRead t\<rparr>)"
| pop_stale: "sy_cons s = CCheck t \<Longrightarrow> t = rg_head_cache (sy_ring s) \<Longrightarrow>
    sys_step s Silent (s\<lparr>sy_cons := CReload t\<rparr>)"
| pop_reload: "sy_cons s = CReload t \<Longrightarrow> sy_hc s \<le> h \<Longrightarrow> h \<le> length (sy_sent s) \<Longrightarrow> t \<noteq> of_nat h \<Longrightarrow>
    sys_step s Silent (s\<lparr>sy_ring := (sy_ring s)\<lparr>rg_head_cache := of_nat h\<rparr>, sy_hc := h, sy_cons := CRead t\<rparr>)"
| pop_none: "sy_cons s = CReload t \<Longrightarrow> sy_hc s \<le> h \<Longrightarrow> h \<le> length (sy_sent s) \<Longrightarrow> t = of_nat h \<Longrightarrow>
    sys_step s Pop_none (s\<lparr>sy_ring := (sy_ring s)\<lparr>rg_head_cache := of_nat h\<rparr>, sy_hc := h, sy_cons := CIdle\<rparr>)"
| pop_read: "sy_cons s = CRead t \<Longrightarrow>
    sys_step s Silent (s\<lparr>sy_cons := CRelease t (rg_slots (sy_ring s) ! slot_of (sy_ring s) t)\<rparr>)"
| pop_release: "sy_cons s = CRelease t v \<Longrightarrow>
    sys_step s (Pop_some v) (s\<lparr>sy_ring := (sy_ring s)\<lparr>rg_tail := t + 1\<rparr>, sy_cons := CIdle, sy_got := sy_got s @ [v]\<rparr>)"

inductive sys_steps :: "'a system \<Rightarrow> 'a label list \<Rightarrow> 'a system \<Rightarrow> bool" where
  steps_nil: "sys_steps s [] s"
| steps_snoc: "sys_steps s ls t \<Longrightarrow> sys_step t l u \<Longrightarrow> sys_steps s (ls @ [l]) u"

section \<open>The invariant\<close>

definition prod_ok :: "'a system \<Rightarrow> bool" where
  "prod_ok s \<longleftrightarrow>
    (case sy_prod s of
       PIdle \<Rightarrow> True
     | PCheck v h \<Rightarrow> h = of_nat (length (sy_sent s))
     | PReload v h \<Rightarrow> h = of_nat (length (sy_sent s))
     | PWrite v h \<Rightarrow> h = of_nat (length (sy_sent s))
         \<and> length (sy_sent s) < sy_tc s + length (rg_slots (sy_ring s))
     | PPublish v h \<Rightarrow> h = of_nat (length (sy_sent s))
         \<and> length (sy_sent s) < sy_tc s + length (rg_slots (sy_ring s))
         \<and> rg_slots (sy_ring s) ! (length (sy_sent s) mod length (rg_slots (sy_ring s))) = v)"

definition cons_ok :: "'a system \<Rightarrow> bool" where
  "cons_ok s \<longleftrightarrow>
    (case sy_cons s of
       CIdle \<Rightarrow> True
     | CCheck t \<Rightarrow> t = of_nat (length (sy_got s))
     | CReload t \<Rightarrow> t = of_nat (length (sy_got s))
     | CRead t \<Rightarrow> t = of_nat (length (sy_got s)) \<and> length (sy_got s) < sy_hc s
     | CRelease t v \<Rightarrow> t = of_nat (length (sy_got s)) \<and> length (sy_got s) < sy_hc s
         \<and> v = sy_sent s ! length (sy_got s))"

definition sys_inv :: "'a system \<Rightarrow> bool" where
  "sys_inv s \<longleftrightarrow>
    ring_at (sy_ring s) (length (sy_got s)) (length (sy_sent s)) (sy_tc s) (sy_hc s)
    \<and> sy_got s = take (length (sy_got s)) (sy_sent s)
    \<and> (\<forall>i. length (sy_got s) \<le> i \<and> i < length (sy_sent s) \<longrightarrow>
          rg_slots (sy_ring s) ! (i mod length (rg_slots (sy_ring s))) = sy_sent s ! i)
    \<and> prod_ok s \<and> cons_ok s"

lemma sys_inv_new: "valid_capacity c \<Longrightarrow> sys_inv (system_new c z)"
  by (simp add: sys_inv_def system_new_def ring_at_new prod_ok_def cons_ok_def)

text \<open>What a full or an empty test of a possibly stale index decides.\<close>

lemma ring_at_diff:
  assumes "ring_at r T h tc hc" "tc \<le> t" "t \<le> T"
  shows "(of_nat h - of_nat t \<ge> capacity r) = (h - t = length (rg_slots r))" "h \<le> t + length (rg_slots r)"
proof -
  have o: "tc \<le> T" "T \<le> h" "h \<le> tc + length (rg_slots r)" "valid_capacity (length (rg_slots r))"
    using assms(1) by (auto simp: ring_at_def)
  have "unat (of_nat h - of_nat t :: u64) = h - t"
    by (rule unat_of_nat_diff) (use o assms in \<open>auto simp: valid_capacity_def\<close>)
  then show "(of_nat h - of_nat t \<ge> capacity r) = (h - t = length (rg_slots r))" "h \<le> t + length (rg_slots r)"
    using o assms unat_capacity [of r] by (auto simp: word_le_nat_alt)
qed

lemma ring_at_same:
  assumes "ring_at r T h tc hc" "hc \<le> n" "n \<le> h"
  shows "(of_nat T = (of_nat n :: u64)) = (T = n)"
proof -
  have o: "T \<le> n" "n - T < 2 ^ 64"
    using assms by (auto simp: ring_at_def valid_capacity_def)
  have "unat (of_nat n - of_nat T :: u64) = n - T"
    by (rule unat_of_nat_diff) (use o in auto)
  then show ?thesis using o(1) by (metis diff_is_0_eq diff_self le_antisym unsigned_0)
qed

text \<open>A step of one side leaves what the other side relies on.\<close>

lemma sys_inv_producer:
  assumes "sys_inv s" "sy_cons s' = sy_cons s" "sy_got s' = sy_got s" "sy_hc s' = sy_hc s"
    "sy_sent s' = sy_sent s @ xs"
    "ring_at (sy_ring s') (length (sy_got s)) (length (sy_sent s')) (sy_tc s') (sy_hc s)"
    "\<And>i. length (sy_got s) \<le> i \<Longrightarrow> i < length (sy_sent s') \<Longrightarrow>
      rg_slots (sy_ring s') ! (i mod length (rg_slots (sy_ring s'))) = sy_sent s' ! i"
    "prod_ok s'"
  shows "sys_inv s'"
proof -
  have le: "length (sy_got s) \<le> sy_hc s" "sy_hc s \<le> length (sy_sent s)"
    and t: "sy_got s = take (length (sy_got s)) (sy_sent s)" and c: "cons_ok s"
    using assms(1) by (auto simp: sys_inv_def ring_at_def)
  have "cons_ok s'"
    using c le unfolding cons_ok_def assms(2-5) by (auto simp: nth_append split: consumer_pc.splits)
  moreover have "sy_got s' = take (length (sy_got s')) (sy_sent s')"
    using t le by (simp add: assms(3,5))
  ultimately show ?thesis using assms(6-8) by (simp add: sys_inv_def assms(3,4))
qed

lemma sys_inv_consumer:
  assumes "sys_inv s" "sy_prod s' = sy_prod s" "sy_sent s' = sy_sent s" "sy_tc s' = sy_tc s"
    "rg_slots (sy_ring s') = rg_slots (sy_ring s)" "length (sy_got s) \<le> length (sy_got s')"
    "ring_at (sy_ring s') (length (sy_got s')) (length (sy_sent s)) (sy_tc s) (sy_hc s')"
    "sy_got s' = take (length (sy_got s')) (sy_sent s)" "cons_ok s'"
  shows "sys_inv s'"
proof -
  have "prod_ok s" using assms(1) by (simp add: sys_inv_def)
  then have "prod_ok s'" unfolding prod_ok_def assms(2-5) .
  then show ?thesis using assms unfolding sys_inv_def by simp
qed

lemma sys_inv_facts:
  assumes "sys_inv s"
  shows "ring_at (sy_ring s) (length (sy_got s)) (length (sy_sent s)) (sy_tc s) (sy_hc s)"
    "sy_got s = take (length (sy_got s)) (sy_sent s)" "prod_ok s" "cons_ok s"
    "sy_tc s \<le> length (sy_got s)" "length (sy_got s) \<le> sy_hc s" "sy_hc s \<le> length (sy_sent s)"
    "length (sy_sent s) \<le> sy_tc s + length (rg_slots (sy_ring s))" "0 < length (rg_slots (sy_ring s))"
  using assms by (auto simp: sys_inv_def ring_at_def valid_capacity_def)

lemma sys_inv_slot:
  assumes "sys_inv s" "length (sy_got s) \<le> i" "i < length (sy_sent s)"
  shows "rg_slots (sy_ring s) ! (i mod length (rg_slots (sy_ring s))) = sy_sent s ! i"
  using assms by (simp add: sys_inv_def)

text \<open>The producer takes a path of its own when the cached tail leaves room or is stale.\<close>

lemma push_check_inv [inv_intros]:
  assumes s: "sys_inv s" and pc: "sy_prod s = PCheck v h"
    and q: "q = PReload v h \<or> q = PWrite v h \<and> \<not> h - rg_tail_cache (sy_ring s) \<ge> capacity (sy_ring s)"
  shows "sys_inv (s\<lparr>sy_prod := q\<rparr>)"
proof -
  note f = sys_inv_facts [OF s]
  have h: "h = of_nat (length (sy_sent s))" using f(3) by (simp add: pc prod_ok_def)
  have "length (sy_sent s) < sy_tc s + length (rg_slots (sy_ring s))" if "q = PWrite v h"
    using ring_at_diff(1) [OF f(1) order.refl f(5)] q f(1,8) that h by (auto simp: ring_at_def)
  then show ?thesis
    by (intro sys_inv_producer [OF s, of _ "[]"]) (use f(1) sys_inv_slot [OF s] q h in \<open>auto simp: prod_ok_def\<close>)
qed

lemma push_refresh_inv [inv_intros]:
  assumes s: "sys_inv s" and pc: "sy_prod s = PReload v h" and n: "sy_tc s \<le> n" "n \<le> length (sy_got s)"
    and q: "q = PIdle \<or> q = PWrite v h \<and> \<not> h - of_nat n \<ge> capacity (sy_ring s)"
  shows "sys_inv (s\<lparr>sy_ring := (sy_ring s)\<lparr>rg_tail_cache := of_nat n\<rparr>, sy_tc := n, sy_prod := q\<rparr>)"
proof -
  note f = sys_inv_facts [OF s]
  note d = ring_at_diff [OF f(1) n]
  have h: "h = of_nat (length (sy_sent s))" using f(3) by (simp add: pc prod_ok_def)
  have "length (sy_sent s) < n + length (rg_slots (sy_ring s))" if "q = PWrite v h"
    using d q that by (auto simp: h)
  moreover have "ring_at ((sy_ring s)\<lparr>rg_tail_cache := of_nat n\<rparr>) (length (sy_got s)) (length (sy_sent s)) n (sy_hc s)"
    using f(1) n d(2) by (auto simp: ring_at_def)
  ultimately show ?thesis
    by (intro sys_inv_producer [OF s, of _ "[]"]) (use sys_inv_slot [OF s] h q in \<open>auto simp: prod_ok_def\<close>)
qed

lemma push_write_inv [inv_intros]:
  assumes s: "sys_inv s" and pc: "sy_prod s = PWrite v h"
  shows "sys_inv (s\<lparr>sy_ring := (sy_ring s)\<lparr>rg_slots := (rg_slots (sy_ring s))[slot_of (sy_ring s) h := v]\<rparr>,
    sy_prod := PPublish v h\<rparr>)" (is "sys_inv ?s")
proof -
  define n k where "n = length (sy_sent s)" "k = length (rg_slots (sy_ring s))"
  note f = sys_inv_facts [OF s, folded n_k_def]
  have h: "h = of_nat n" "n < sy_tc s + k" using f(3) by (auto simp: pc prod_ok_def n_k_def)
  have so: "slot_of (sy_ring s) h = n mod k" unfolding h(1) n_k_def(2) by (rule ring_at_facts(1) [OF f(1)])
  have "prod_ok ?s" using h f(9) by (simp add: prod_ok_def so [unfolded h(1)] flip: n_k_def)
  moreover have "rg_slots (sy_ring ?s) ! (i mod length (rg_slots (sy_ring ?s))) = sy_sent ?s ! i"
    if i: "length (sy_got s) \<le> i" "i < length (sy_sent ?s)" for i
  proof -
    have lt: "i < n" "n < length (sy_got s) + k" "0 < k" "length (rg_slots (sy_ring s)) = k"
      using i(2) h(2) f(5,9) by (simp_all add: n_k_def)
    show ?thesis
      using slots_update_other [OF i(1) lt, of v] sys_inv_slot [OF s i(1)] lt(1,4) by (simp add: so n_k_def(1))
  qed
  ultimately show ?thesis
    by (intro sys_inv_producer [OF s, of _ "[]"]) (use f(1) in \<open>auto simp: ring_at_def n_k_def\<close>)
qed

lemma push_publish_inv [inv_intros]:
  assumes s: "sys_inv s" and pc: "sy_prod s = PPublish v h"
  shows "sys_inv (s\<lparr>sy_ring := (sy_ring s)\<lparr>rg_head := h + 1\<rparr>, sy_prod := PIdle, sy_sent := sy_sent s @ [v]\<rparr>)"
    (is "sys_inv ?s")
proof (rule sys_inv_producer [OF s, of _ "[v]"])
  note f = sys_inv_facts [OF s]
  have h: "h = of_nat (length (sy_sent s))" "length (sy_sent s) < sy_tc s + length (rg_slots (sy_ring s))"
      "rg_slots (sy_ring s) ! (length (sy_sent s) mod length (rg_slots (sy_ring s))) = v"
    using f(3) by (auto simp: pc prod_ok_def)
  show "rg_slots (sy_ring ?s) ! (i mod length (rg_slots (sy_ring ?s))) = sy_sent ?s ! i"
    if "length (sy_got s) \<le> i" "i < length (sy_sent ?s)" for i
    using sys_inv_slot [OF s that(1)] that(2) h(3) by (cases "i = length (sy_sent s)") (auto simp: nth_append)
  show "ring_at (sy_ring ?s) (length (sy_got s)) (length (sy_sent ?s)) (sy_tc ?s) (sy_hc s)"
    using f(1) h by (auto simp: ring_at_def)
qed (simp_all add: prod_ok_def)

lemma pop_check_inv [inv_intros]:
  assumes s: "sys_inv s" and pc: "sy_cons s = CCheck t"
    and q: "q = CReload t \<or> q = CRead t \<and> t \<noteq> rg_head_cache (sy_ring s)"
  shows "sys_inv (s\<lparr>sy_cons := q\<rparr>)"
proof -
  note f = sys_inv_facts [OF s]
  have t: "t = of_nat (length (sy_got s))" using f(4) by (simp add: pc cons_ok_def)
  have "length (sy_got s) < sy_hc s" if "q = CRead t"
    using ring_at_facts(5) [OF f(1)] q f(6) that t by auto
  then show ?thesis
    by (intro sys_inv_consumer [OF s]) (use f(1,2) t q in \<open>auto simp: cons_ok_def\<close>)
qed

lemma pop_refresh_inv [inv_intros]:
  assumes s: "sys_inv s" and pc: "sy_cons s = CReload t" and m: "sy_hc s \<le> m" "m \<le> length (sy_sent s)"
    and q: "q = CIdle \<or> q = CRead t \<and> t \<noteq> of_nat m"
  shows "sys_inv (s\<lparr>sy_ring := (sy_ring s)\<lparr>rg_head_cache := of_nat m\<rparr>, sy_hc := m, sy_cons := q\<rparr>)"
proof -
  note f = sys_inv_facts [OF s]
  have t: "t = of_nat (length (sy_got s))" using f(4) by (simp add: pc cons_ok_def)
  have "length (sy_got s) < m" if "q = CRead t"
    using ring_at_same [OF f(1) m] q that t m(1) f(6) by (cases "length (sy_got s) = m") auto
  moreover have "ring_at ((sy_ring s)\<lparr>rg_head_cache := of_nat m\<rparr>) (length (sy_got s)) (length (sy_sent s)) (sy_tc s) m"
    using f(1) m by (auto simp: ring_at_def)
  ultimately show ?thesis
    by (intro sys_inv_consumer [OF s]) (use f(2) t q in \<open>auto simp: cons_ok_def\<close>)
qed

lemma pop_read_inv [inv_intros]:
  assumes s: "sys_inv s" and pc: "sy_cons s = CRead t"
  shows "sys_inv (s\<lparr>sy_cons := CRelease t (rg_slots (sy_ring s) ! slot_of (sy_ring s) t)\<rparr>)"
proof -
  note f = sys_inv_facts [OF s]
  have t: "t = of_nat (length (sy_got s))" "length (sy_got s) < sy_hc s"
    using f(4) by (auto simp: pc cons_ok_def)
  have "slot_of (sy_ring s) t = length (sy_got s) mod length (rg_slots (sy_ring s))"
    unfolding t(1) by (rule ring_at_facts(1) [OF f(1)])
  then have "rg_slots (sy_ring s) ! slot_of (sy_ring s) t = sy_sent s ! length (sy_got s)"
    using sys_inv_slot [OF s] t(2) f(7) by simp
  then show ?thesis
    by (intro sys_inv_consumer [OF s]) (use f(1,2) t in \<open>auto simp: cons_ok_def\<close>)
qed

lemma pop_release_inv [inv_intros]:
  assumes s: "sys_inv s" and pc: "sy_cons s = CRelease t v"
  shows "sys_inv (s\<lparr>sy_ring := (sy_ring s)\<lparr>rg_tail := t + 1\<rparr>, sy_cons := CIdle, sy_got := sy_got s @ [v]\<rparr>)"
proof -
  note f = sys_inv_facts [OF s]
  have t: "t = of_nat (length (sy_got s))" "length (sy_got s) < sy_hc s" "v = sy_sent s ! length (sy_got s)"
    using f(4) by (auto simp: pc cons_ok_def)
  have "sy_got s @ [v] = take (length (sy_got s) + 1) (sy_sent s)"
    using f(2,7) t(2,3) by (simp add: take_Suc_conv_app_nth)
  then show ?thesis
    by (intro sys_inv_consumer [OF s]) (use f(1) t in \<open>auto simp: cons_ok_def ring_at_def\<close>)
qed

lemma sys_step_inv: "sys_step s l s' \<Longrightarrow> sys_inv s \<Longrightarrow> sys_inv s'"
proof (induction rule: sys_step.induct)
  case (push_begin s v)
  note f = sys_inv_facts [OF push_begin(2)]
  show ?case by (rule sys_inv_producer [OF push_begin(2), of _ "[]"])
    (use f(1) sys_inv_slot [OF push_begin(2)] in \<open>auto simp: prod_ok_def ring_at_def\<close>)
next
  case (pop_begin s)
  note f = sys_inv_facts [OF pop_begin(2)]
  show ?case by (rule sys_inv_consumer [OF pop_begin(2)])
    (use f(1,2) in \<open>auto simp: cons_ok_def ring_at_def\<close>)
qed (simp_all add: inv_intros)

lemma sys_steps_inv:
  "sys_steps s ls s' \<Longrightarrow> sys_inv s \<Longrightarrow> sys_inv s'"
  by (induction rule: sys_steps.induct) (auto dest: sys_step_inv)

section \<open>What the two sides observe\<close>

fun push_label :: "'a label \<Rightarrow> 'a list" where
  "push_label (Push_ok v) = [v]"
| "push_label _ = []"

fun pop_label :: "'a label \<Rightarrow> 'a list" where
  "pop_label (Pop_some v) = [v]"
| "pop_label _ = []"

definition pushed :: "'a label list \<Rightarrow> 'a list" where
  "pushed ls = concat (map push_label ls)"

definition popped :: "'a label list \<Rightarrow> 'a list" where
  "popped ls = concat (map pop_label ls)"

lemma sys_step_ghosts:
  "sys_step s l s' \<Longrightarrow> sy_sent s' = sy_sent s @ push_label l \<and> sy_got s' = sy_got s @ pop_label l
    \<and> length (rg_slots (sy_ring s')) = length (rg_slots (sy_ring s))"
  by (induction rule: sys_step.induct) auto

lemma sys_steps_ghosts:
  "sys_steps s ls s' \<Longrightarrow> sy_sent s' = sy_sent s @ pushed ls \<and> sy_got s' = sy_got s @ popped ls
    \<and> length (rg_slots (sy_ring s')) = length (rg_slots (sy_ring s))"
  by (induction rule: sys_steps.induct) (auto simp: pushed_def popped_def dest: sys_step_ghosts)

lemma reachable_inv:
  assumes "valid_capacity c" "sys_steps (system_new c z) ls s"
  shows "sys_inv s" "sy_sent s = pushed ls" "sy_got s = popped ls" "length (rg_slots (sy_ring s)) = c"
  using sys_steps_inv [OF assms(2) sys_inv_new [OF assms(1)]] sys_steps_ghosts [OF assms(2)]
  by (auto simp: system_new_def ring_new_def)

text \<open>One thread running alone, with fresh loads, from an idle state.\<close>

lemma sys_steps_trans:
  "sys_steps t ls' u \<Longrightarrow> sys_steps s ls t \<Longrightarrow> sys_steps s (ls @ ls') u"
  by (induction rule: sys_steps.induct) (auto intro: sys_steps.intros simp flip: append_assoc)

lemma sys_steps_one: "sys_step s l t \<Longrightarrow> sys_steps s [l] t"
  using steps_snoc [OF steps_nil] by fastforce

lemma sys_steps_cons: "sys_step s l t \<Longrightarrow> sys_steps t ls u \<Longrightarrow> sys_steps s (l # ls) u"
  using sys_steps_trans [OF _ sys_steps_one] by fastforce

inductive_cases push_full_step: "sys_step s (Push_full v) s'"
inductive_cases pop_none_step: "sys_step s Pop_none s'"

lemma write_and_publish:
  assumes "sy_prod s = PWrite v h"
  shows "\<exists>s'. sys_steps s [Silent, Push_ok v] s' \<and> sy_ring s' = put_slot (sy_ring s) h v"
proof -
  define a where "a = s\<lparr>sy_ring := (sy_ring s)\<lparr>rg_slots := (rg_slots (sy_ring s))[slot_of (sy_ring s) h := v]\<rparr>,
      sy_prod := PPublish v h\<rparr>"
  define b where "b = a\<lparr>sy_ring := (sy_ring a)\<lparr>rg_head := h + 1\<rparr>, sy_prod := PIdle, sy_sent := sy_sent a @ [v]\<rparr>"
  have "sys_step s Silent a" unfolding a_def by (rule push_write [OF assms])
  moreover have "sys_step a (Push_ok v) b" unfolding b_def by (rule push_publish) (simp add: a_def)
  ultimately have "sys_steps s [Silent, Push_ok v] b" by (blast intro: sys_steps_cons steps_nil)
  then show ?thesis by (intro exI [of _ b]) (simp add: a_def b_def put_slot_def)
qed

section \<open>A concrete run\<close>

text \<open>One value published, a second push about to write its slot, a pop about to read.\<close>

lemma sample_run:
  "\<exists>s. sys_steps (system_new 2 (0 :: nat))
      [Silent, Silent, Silent, Push_ok 7, Silent, Silent, Silent, Silent, Silent] s
    \<and> sy_prod s = PWrite 8 1 \<and> sy_cons s = CRead 0"
proof -
  define r1 where "r1 = (ring_new 2 (0 :: nat))\<lparr>rg_slots := [7, 0]\<rparr>"
  define s2 where "s2 = (system_new 2 (0 :: nat))\<lparr>sy_prod := PWrite 7 0\<rparr>"
  define s4 where "s4 = s2\<lparr>sy_ring := r1\<lparr>rg_head := 1\<rparr>, sy_prod := PIdle, sy_sent := [7]\<rparr>"
  define s6 where "s6 = s4\<lparr>sy_prod := PWrite 8 1\<rparr>"
  define s8 where "s8 = s6\<lparr>sy_cons := CReload 0\<rparr>"
  define s9 where "s9 = s8\<lparr>sy_ring := (sy_ring s8)\<lparr>rg_head_cache := 1\<rparr>, sy_hc := 1, sy_cons := CRead 0\<rparr>"
  have c: "capacity (ring_new 2 (0 :: nat)) = 2" "slot_of (ring_new 2 (0 :: nat)) 0 = 0"
    "replicate 2 (0 :: nat) = [0, 0]"
    by (simp_all add: capacity_def slot_of_def ring_new_def numeral_2_eq_2)
  have st: "sys_step (system_new 2 (0 :: nat)) Silent ((system_new 2 0)\<lparr>sy_prod := PCheck 7 0\<rparr>)"
    using push_begin [of "system_new 2 (0 :: nat)" 7] by (simp add: system_new_def ring_new_def)
  have st2: "sys_step ((system_new 2 (0 :: nat))\<lparr>sy_prod := PCheck 7 0\<rparr>) Silent s2"
    using push_room [of "(system_new 2 (0 :: nat))\<lparr>sy_prod := PCheck 7 0\<rparr>" 7 0]
    by (simp add: s2_def system_new_def ring_new_def capacity_def)
  obtain a where a: "sys_step s2 Silent a" "sys_step a (Push_ok 7) s4"
  proof
    show "sys_step s2 Silent (s2\<lparr>sy_ring := r1, sy_prod := PPublish 7 0\<rparr>)"
      using push_write [of s2 7 0] c by (simp add: s2_def system_new_def r1_def) (simp add: ring_new_def)
    show "sys_step (s2\<lparr>sy_ring := r1, sy_prod := PPublish 7 0\<rparr>) (Push_ok 7) s4"
      using push_publish [of "s2\<lparr>sy_ring := r1, sy_prod := PPublish 7 0\<rparr>" 7 0]
      by (simp add: s4_def s2_def system_new_def)
  qed
  have b: "sys_step s4 Silent (s4\<lparr>sy_prod := PCheck 8 1\<rparr>)"
    using push_begin [of s4 8] by (simp add: s4_def)
  have b2: "sys_step (s4\<lparr>sy_prod := PCheck 8 1\<rparr>) Silent s6"
    using push_room [of "s4\<lparr>sy_prod := PCheck 8 1\<rparr>" 8 1]
    by (simp add: s6_def s4_def r1_def capacity_def ring_new_def word_le_nat_alt)
  have d: "sys_step s6 Silent (s6\<lparr>sy_cons := CCheck 0\<rparr>)"
    using pop_begin [of s6] by (simp add: s6_def s4_def s2_def r1_def ring_new_def system_new_def)
  have d2: "sys_step (s6\<lparr>sy_cons := CCheck 0\<rparr>) Silent s8"
    using pop_stale [of "s6\<lparr>sy_cons := CCheck 0\<rparr>" 0]
    by (simp add: s8_def s6_def s4_def r1_def ring_new_def)
  have d3: "sys_step s8 Silent s9"
    using pop_reload [of s8 0 1]
    by (simp add: s9_def) (simp add: s8_def s6_def s4_def s2_def system_new_def)
  have "sys_steps (system_new 2 (0 :: nat))
      [Silent, Silent, Silent, Push_ok 7, Silent, Silent, Silent, Silent, Silent] s9"
    by (intro sys_steps_cons [OF st] sys_steps_cons [OF st2] sys_steps_cons [OF a(1)] sys_steps_cons [OF a(2)]
        sys_steps_cons [OF b] sys_steps_cons [OF b2] sys_steps_cons [OF d] sys_steps_cons [OF d2]
        sys_steps_cons [OF d3] steps_nil)
  then show ?thesis by (intro exI [of _ s9]) (simp add: s9_def s8_def s6_def)
qed

section \<open>Properties\<close>

text \<open>C19: In every interleaving of the producer and the consumer, with index loads as stale as the
  memory model allows, the values popped are a prefix of the values pushed, in order and without
  loss or duplication, and at most the capacity separates the two.\<close>

theorem concurrent_fifo:
  assumes "valid_capacity c" and "sys_steps (system_new c z) ls s"
  shows "\<exists>queued. pushed ls = popped ls @ queued \<and> length queued \<le> c"
proof -
  note r = reachable_inv [OF assms]
  have "popped ls = take (length (popped ls)) (pushed ls)" using r by (simp add: sys_inv_def)
  then have "pushed ls = popped ls @ drop (length (popped ls)) (pushed ls)" by (metis append_take_drop_id)
  moreover have "length (drop (length (popped ls)) (pushed ls)) \<le> c"
    using r by (auto simp: sys_inv_def ring_at_def)
  ultimately show ?thesis by blast
qed

lemma concurrent_fifo_witness:
  "\<exists>ls s queued. sys_steps (system_new 2 (0 :: nat)) ls s \<and> pushed ls = [7] \<and> pushed ls = popped ls @ queued
    \<and> length queued \<le> 2"
proof -
  obtain s where s: "sys_steps (system_new 2 (0 :: nat))
      [Silent, Silent, Silent, Push_ok 7, Silent, Silent, Silent, Silent, Silent] s"
    using sample_run by blast
  have "pushed [Silent, Silent, Silent, Push_ok 7, Silent, Silent, Silent, Silent, Silent] = [7 :: nat]"
    by (simp add: pushed_def)
  then show ?thesis using s concurrent_fifo [OF valid_capacity_2 s] by blast
qed

text \<open>The two sides never touch a slot at the same time: when the producer is about to write
  the slot of index \<open>h\<close> while the consumer is about to read that of index \<open>t\<close>, the slots differ;
  and each access is covered by an acquired index: the write is less than the capacity past the
  acquired tail, and the read is below the acquired head.\<close>

theorem no_slot_race:
  assumes "valid_capacity c" and "sys_steps (system_new c z) ls s"
  shows "(\<forall>v h t. sy_prod s = PWrite v h \<and> sy_cons s = CRead t \<longrightarrow> slot_of (sy_ring s) h \<noteq> slot_of (sy_ring s) t)
    \<and> (\<forall>v h. sy_prod s = PWrite v h \<longrightarrow> unat (h - rg_tail_cache (sy_ring s)) < c)
    \<and> (\<forall>t. sy_cons s = CRead t \<longrightarrow> 0 < unat (rg_head_cache (sy_ring s) - t))"
proof -
  note r = reachable_inv [OF assms]
  define n m where "n = length (sy_sent s)" and "m = length (sy_got s)"
  have at: "ring_at (sy_ring s) m n (sy_tc s) (sy_hc s)" using r(1) by (simp add: sys_inv_def n_def m_def)
  have o: "sy_tc s \<le> m" "m \<le> sy_hc s" "sy_hc s \<le> n" "n \<le> sy_tc s + c" "0 < c" "c < 2 ^ 64"
      "rg_tail_cache (sy_ring s) = of_nat (sy_tc s)" "rg_head_cache (sy_ring s) = of_nat (sy_hc s)"
    using at r(4) by (auto simp: ring_at_def valid_capacity_def)
  have p: "h = of_nat n \<and> n < sy_tc s + c" if "sy_prod s = PWrite v h" for v h
    using r(1,4) that by (auto simp: sys_inv_def prod_ok_def n_def)
  have q: "t = of_nat m \<and> m < sy_hc s" if "sy_cons s = CRead t" for t
    using r(1) that by (auto simp: sys_inv_def cons_ok_def m_def)
  have neq: "n mod c \<noteq> m mod c" if "n < sy_tc s + c" "m < sy_hc s"
  proof
    assume "n mod c = m mod c"
    then have "c dvd n - m" using o by (metis le_trans mod_eq_dvd_iff_nat)
    then show False using o that by (auto dest: dvd_imp_le)
  qed
  have "\<forall>v h t. sy_prod s = PWrite v h \<and> sy_cons s = CRead t \<longrightarrow> slot_of (sy_ring s) h \<noteq> slot_of (sy_ring s) t"
    using p q neq ring_at_facts(1) [OF at] r(4) by auto
  moreover have "\<forall>v h. sy_prod s = PWrite v h \<longrightarrow> unat (h - rg_tail_cache (sy_ring s)) < c"
    using p o unat_of_nat_diff [of "sy_tc s" n, where ?'a = 64] by auto
  moreover have "\<forall>t. sy_cons s = CRead t \<longrightarrow> 0 < unat (rg_head_cache (sy_ring s) - t)"
    using q o unat_of_nat_diff [of m "sy_hc s", where ?'a = 64] by auto
  ultimately show ?thesis by blast
qed

lemma no_slot_race_witness:
  "\<exists>ls s. sys_steps (system_new 2 (0 :: nat)) ls s \<and> sy_prod s = PWrite 8 1 \<and> sy_cons s = CRead 0
    \<and> slot_of (sy_ring s) 1 \<noteq> slot_of (sy_ring s) 0"
proof -
  obtain s where s: "sys_steps (system_new 2 (0 :: nat))
      [Silent, Silent, Silent, Push_ok 7, Silent, Silent, Silent, Silent, Silent] s"
      "sy_prod s = PWrite 8 1" "sy_cons s = CRead 0"
    using sample_run by blast
  show ?thesis using s no_slot_race [OF valid_capacity_2 s(1)] by blast
qed

text \<open>A refusal is justified by what was loaded: when a push reports full, the producer has
  published exactly a capacity's worth more values than the pops it was shown, and when a pop
  reports empty, the consumer has taken everything it was shown.\<close>

theorem refusal_is_justified:
  assumes "valid_capacity c" and "sys_steps (system_new c z) ls s" and "sys_step s l s'"
  shows "(case l of Push_full v \<Rightarrow> length (pushed ls) = sy_tc s' + c
    | Pop_none \<Rightarrow> length (popped ls) = sy_hc s' | _ \<Rightarrow> True)"
proof -
  note r = reachable_inv [OF assms(1,2)]
  have at: "ring_at (sy_ring s) (length (sy_got s)) (length (sy_sent s)) (sy_tc s) (sy_hc s)"
    using r(1) by (simp add: sys_inv_def)
  have full: "length (pushed ls) = sy_tc s' + c" if lf: "l = Push_full v" for v
  proof -
    obtain h t where st: "sy_prod s = PReload v h" "sy_tc s \<le> t" "t \<le> length (sy_got s)"
        "capacity (sy_ring s) \<le> h - of_nat t" "sy_tc s' = t"
      using assms(3) unfolding lf by (auto elim!: push_full_step)
    have "h = of_nat (length (sy_sent s))" using r(1) st(1) by (simp add: sys_inv_def prod_ok_def)
    then have "length (sy_sent s) - t = c" using ring_at_diff(1) [OF at st(2,3)] st(4) r(4) by simp
    moreover have "0 < c" using assms(1) by (simp add: valid_capacity_def)
    ultimately show ?thesis using st(5) r(2) by simp
  qed
  have none: "length (popped ls) = sy_hc s'" if lf: "l = Pop_none"
  proof -
    obtain t h where st: "sy_cons s = CReload t" "sy_hc s \<le> h" "h \<le> length (sy_sent s)" "t = of_nat h"
        "sy_hc s' = h"
      using assms(3) unfolding lf by (auto elim!: pop_none_step)
    have "t = of_nat (length (sy_got s))" using r(1) st(1) by (simp add: sys_inv_def cons_ok_def)
    then have "length (sy_got s) = h" using iffD1 [OF ring_at_same [OF at st(2,3)]] st(4) by metis
    then show ?thesis using st(5) r(3) by metis
  qed
  show ?thesis using full none by (cases l) auto
qed

lemma refusal_is_justified_witness:
  "\<exists>s s'. sys_steps (system_new 2 (0 :: nat)) [Silent, Silent] s \<and> sys_step s Pop_none s' \<and> sy_hc s' = 0"
proof -
  define z where "z = system_new 2 (0 :: nat)"
  have a: "sys_step z Silent (z\<lparr>sy_cons := CCheck 0\<rparr>)"
    using pop_begin [of z] by (simp add: z_def system_new_def ring_new_def)
  have b: "sys_step (z\<lparr>sy_cons := CCheck 0\<rparr>) Silent (z\<lparr>sy_cons := CReload 0\<rparr>)"
    using pop_stale [of "z\<lparr>sy_cons := CCheck 0\<rparr>" 0] by (simp add: z_def system_new_def ring_new_def)
  have ab: "sys_steps z [Silent, Silent] (z\<lparr>sy_cons := CReload 0\<rparr>)"
    by (rule sys_steps_cons [OF a sys_steps_cons [OF b steps_nil]])
  obtain s' where c: "sys_step (z\<lparr>sy_cons := CReload 0\<rparr>) Pop_none s'"
    using pop_none [of "z\<lparr>sy_cons := CReload 0\<rparr>" 0 0] by (auto simp: z_def system_new_def)
  have "length (popped [Silent, Silent :: nat label]) = sy_hc s'"
    using refusal_is_justified [OF valid_capacity_2 ab [unfolded z_def] c [unfolded z_def]] by simp
  then show ?thesis using ab c unfolding z_def by (auto simp: popped_def)
qed

text \<open>The three ways a push can go, as steps of the producer alone: room at once, room after reloading the
  tail, full after reloading it.\<close>

lemma push_at_once:
  assumes "sy_prod s = PIdle" "h = rg_head (sy_ring s)" "\<not> h - rg_tail_cache (sy_ring s) \<ge> capacity (sy_ring s)"
  obtains s' where "sys_steps s [Silent, Silent, Silent, Push_ok v] s'" "sy_ring s' = put_slot (sy_ring s) h v"
proof -
  define a where "a = s\<lparr>sy_prod := PCheck v h\<rparr>"
  have a: "sys_step s Silent a" unfolding a_def assms(2) by (rule push_begin [OF assms(1)])
  have b: "sys_step a Silent (a\<lparr>sy_prod := PWrite v h\<rparr>)" by (rule push_room) (use assms(3) in \<open>auto simp: a_def\<close>)
  obtain s' where "sys_steps (a\<lparr>sy_prod := PWrite v h\<rparr>) [Silent, Push_ok v] s'" "sy_ring s' = put_slot (sy_ring s) h v"
    using write_and_publish [of "a\<lparr>sy_prod := PWrite v h\<rparr>" v h] by (auto simp: a_def)
  then show ?thesis using that sys_steps_cons [OF a sys_steps_cons [OF b]] by blast
qed

lemma push_reloads:
  assumes "sy_prod s = PIdle" "h = rg_head (sy_ring s)" "h - rg_tail_cache (sy_ring s) \<ge> capacity (sy_ring s)"
  obtains b where "sys_steps s [Silent, Silent] b" "sy_prod b = PReload v h" "sy_tc b = sy_tc s" "sy_got b = sy_got s"
    "sy_ring b = sy_ring s"
proof -
  define a where "a = s\<lparr>sy_prod := PCheck v h\<rparr>"
  have a: "sys_step s Silent a" unfolding a_def assms(2) by (rule push_begin [OF assms(1)])
  have b: "sys_step a Silent (a\<lparr>sy_prod := PReload v h\<rparr>)" by (rule push_stale) (use assms(3) in \<open>auto simp: a_def\<close>)
  have "sys_steps s [Silent, Silent] (a\<lparr>sy_prod := PReload v h\<rparr>)" using a b by (blast intro: sys_steps_cons steps_nil)
  then show ?thesis by (rule that) (simp_all add: a_def)
qed

lemma push_after_reload:
  assumes "sy_prod b = PReload v h" "sy_tc b \<le> n" "n \<le> length (sy_got b)"
  defines "r' \<equiv> (sy_ring b)\<lparr>rg_tail_cache := of_nat n\<rparr>"
  shows "h - of_nat n \<ge> capacity (sy_ring b) \<Longrightarrow> \<exists>s'. sys_steps b [Push_full v] s' \<and> sy_ring s' = r'"
    "\<not> h - of_nat n \<ge> capacity (sy_ring b) \<Longrightarrow> \<exists>s'. sys_steps b [Silent, Silent, Push_ok v] s' \<and> sy_ring s' = put_slot r' h v"
proof -
  show "\<exists>s'. sys_steps b [Push_full v] s' \<and> sy_ring s' = r'" if "h - of_nat n \<ge> capacity (sy_ring b)"
    using sys_steps_one [OF push_full [OF assms(1-3) that]] by (auto simp: r'_def)
  show "\<exists>s'. sys_steps b [Silent, Silent, Push_ok v] s' \<and> sy_ring s' = put_slot r' h v" if "\<not> h - of_nat n \<ge> capacity (sy_ring b)"
  proof -
    define d where "d = b\<lparr>sy_ring := r', sy_tc := n, sy_prod := PWrite v h\<rparr>"
    have "sys_step b Silent d" unfolding d_def r'_def by (rule push_reload [OF assms(1-3) that])
    moreover obtain s' where "sys_steps d [Silent, Push_ok v] s'" "sy_ring s' = put_slot r' h v"
      using write_and_publish [of d v h] by (auto simp: d_def)
    ultimately show ?thesis by (blast intro: sys_steps_cons)
  qed
qed

text \<open>
  Executions in which the steps of the producer are counted: a step is one of the producer's when it
  leaves the consumer where it is. A call of \<open>try_push\<close> ends with a label of its result.
\<close>

inductive producer_moves :: "'a system \<Rightarrow> nat \<Rightarrow> 'a label list \<Rightarrow> 'a system \<Rightarrow> bool" where
  moves_nil: "producer_moves s 0 [] s"
| moves_snoc: "producer_moves s n ls t \<Longrightarrow> sys_step t l u \<Longrightarrow>
    producer_moves s (if sy_cons u = sy_cons t then n + 1 else n) (ls @ [l]) u"

fun ends_push :: "'a label \<Rightarrow> bool" where
  "ends_push (Push_ok v) = True" | "ends_push (Push_full v) = True" | "ends_push _ = False"

text \<open>How far into a push the producer is; a push of five steps passes all the stages.\<close>

fun push_stage :: "'a producer_pc \<Rightarrow> nat" where
  "push_stage PIdle = 0" | "push_stage (PCheck v h) = 1" | "push_stage (PReload v h) = 2"
| "push_stage (PWrite v h) = 3" | "push_stage (PPublish v h) = 4"

lemma push_stage_bound: "push_stage p \<le> 4"
  by (cases p) simp_all

lemma move_stage:
  "sys_step s l s' \<Longrightarrow> (if sy_cons s' = sy_cons s then 1 else 0) + push_stage (sy_prod s)
    \<le> (if ends_push l then 5 else 0) + push_stage (sy_prod s')"
  by (induction rule: sys_step.induct) simp_all

lemma moves_stage:
  "producer_moves s n ls s' \<Longrightarrow> n + push_stage (sy_prod s) \<le> 5 * length (filter ends_push ls) + push_stage (sy_prod s')"
proof (induction rule: producer_moves.induct)
  case (moves_snoc s n ls t l u)
  then show ?case using move_stage [OF moves_snoc(2)] by (cases "ends_push l") (auto split: if_splits)
qed simp

text \<open>Every execution is one with the producer's steps counted.\<close>

lemma moves_exist: "sys_steps s ls s' \<Longrightarrow> \<exists>n. producer_moves s n ls s'"
  by (induction rule: sys_steps.induct) (auto intro: producer_moves.intros)

text \<open>The producer can always take its next step, whatever the consumer is doing.\<close>

lemma producer_can_move:
  assumes "sys_inv s"
  shows "\<exists>l s'. sys_step s l s' \<and> sy_cons s' = sy_cons s"
proof (cases "sy_prod s")
  case PIdle
  then show ?thesis using push_begin [OF PIdle] by fastforce
next
  case (PCheck v h)
  then show ?thesis using push_room [OF PCheck] push_stale [OF PCheck]
    by (cases "h - rg_tail_cache (sy_ring s) \<ge> capacity (sy_ring s)") fastforce+
next
  case (PWrite v h)
  then show ?thesis using push_write [OF PWrite] by fastforce
next
  case (PPublish v h)
  then show ?thesis using push_publish [OF PPublish] by fastforce
next
  case (PReload v h)
  then show ?thesis using push_reload [OF PReload order.refl sys_inv_facts(5) [OF assms]]
      push_full [OF PReload order.refl sys_inv_facts(5) [OF assms]]
    by (cases "h - of_nat (sy_tc s) \<ge> capacity (sy_ring s)") fastforce+
qed

text \<open>Alone and from an idle state, the producer gets the ring and the result of \<open>try_push\<close>.\<close>

lemma push_alone:
  assumes "valid_capacity c" and "sys_steps (system_new c z) ls s" and "sy_prod s = PIdle"
  shows "\<exists>ls' s'. sys_steps s ls' s' \<and> length ls' \<le> 5 \<and> sy_ring s' = fst (try_push (sy_ring s) v)
    \<and> last ls' = (case snd (try_push (sy_ring s) v) of KOk \<Rightarrow> Push_ok v | KFull \<Rightarrow> Push_full v)"
proof -
  define h n where "h = rg_head (sy_ring s)" and "n = length (sy_got s)"
  have at: "sy_tc s \<le> n" "rg_tail (sy_ring s) = of_nat n"
    using reachable_inv [OF assms(1,2)] by (auto simp: sys_inv_def ring_at_def n_def)
  show ?thesis
  proof (cases "h - rg_tail_cache (sy_ring s) \<ge> capacity (sy_ring s)")
    case False
    obtain s' where "sys_steps s [Silent, Silent, Silent, Push_ok v] s'" "sy_ring s' = put_slot (sy_ring s) h v"
      by (rule push_at_once [OF assms(3) h_def False])
    then show ?thesis using False
      by (intro exI [of _ "[Silent, Silent, Silent, Push_ok v]"] exI [of _ s']) (simp add: try_push_def Let_def h_def)
  next
    case True
    obtain b where b: "sys_steps s [Silent, Silent] b" "sy_prod b = PReload v h" "sy_tc b \<le> n" "n \<le> length (sy_got b)"
        "sy_ring b = sy_ring s"
      by (rule push_reloads [OF assms(3) h_def True, of v]) (use at(1) in \<open>auto simp: n_def\<close>)
    note r = push_after_reload [OF b(2-4), unfolded b(5)]
    show ?thesis
    proof (cases "h - of_nat n \<ge> capacity (sy_ring s)")
      case full: True
      then show ?thesis using r(1) sys_steps_trans [OF _ b(1)] True at(2)
        by (fastforce simp: try_push_def Let_def h_def intro!: exI [of _ "[Silent, Silent, Push_full v]"])
    next
      case room: False
      then show ?thesis using r(2) sys_steps_trans [OF _ b(1)] True at(2)
        by (fastforce simp: try_push_def Let_def h_def intro!: exI [of _ "[Silent, Silent, Silent, Silent, Push_ok v]"])
    qed
  qed
qed

text \<open>C28: A push is wait-free. From any reachable state and in every execution from there, however the
  steps of the consumer fall in between and however stale the loads are, the producer takes at most five
  steps per push it finishes, and four more of one under way; it is never blocked, since a next step of its
  own exists whatever the consumer is doing. Left alone in an idle state it finishes in at most five
  steps with the ring and the result of \<open>try_push\<close>.\<close>

theorem push_is_wait_free:
  assumes "valid_capacity c" and "sys_steps (system_new c z) ls s"
  shows "(\<forall>n ls' s'. producer_moves s n ls' s' \<longrightarrow> n \<le> 5 * length (filter ends_push ls') + 4)
    \<and> (\<exists>l s'. sys_step s l s' \<and> sy_cons s' = sy_cons s)
    \<and> (sy_prod s = PIdle \<longrightarrow> (\<exists>ls' s'. sys_steps s ls' s' \<and> length ls' \<le> 5 \<and> sy_ring s' = fst (try_push (sy_ring s) v)
      \<and> last ls' = (case snd (try_push (sy_ring s) v) of KOk \<Rightarrow> Push_ok v | KFull \<Rightarrow> Push_full v)))"
proof (intro conjI allI impI)
  show "n \<le> 5 * length (filter ends_push ls') + 4" if "producer_moves s n ls' s'" for n ls' s'
    using moves_stage [OF that] push_stage_bound [of "sy_prod s'"] by linarith
qed (rule producer_can_move [OF reachable_inv(1) [OF assms]], rule push_alone [OF assms])

lemma push_is_wait_free_witness:
  "\<exists>ls s n. sys_steps (system_new 2 (0 :: nat)) ls s \<and> producer_moves (system_new 2 0) n ls s \<and> length ls \<le> 5
    \<and> sy_ring s = fst (try_push (ring_new 2 0) 7) \<and> last ls = Push_ok 7 \<and> n \<le> 5 * length (filter ends_push ls) + 4"
proof -
  have "snd (try_push (ring_new 2 (0 :: nat)) 7) = KOk" by code_simp
  then obtain ls s where s: "sys_steps (system_new 2 (0 :: nat)) ls s" "length ls \<le> 5"
      "sy_ring s = fst (try_push (ring_new 2 0) 7)" "last ls = Push_ok 7"
    using push_is_wait_free [OF valid_capacity_2 steps_nil, of "0 :: nat" 7] by (auto simp: system_new_def)
  obtain n where n: "producer_moves (system_new 2 0) n ls s" using moves_exist [OF s(1)] by blast
  then have "n \<le> 5 * length (filter ends_push ls) + 4"
    using push_is_wait_free [OF valid_capacity_2 steps_nil, of "0 :: nat" 7] by blast
  then show ?thesis using s n by blast
qed

end
