(* ===== verification/Spsc_Views.thy ===== *)
theory Spsc_Views
  imports Spsc_Concurrent "HOL-Library.Monad_Syntax"
begin

text \<open>
  What each side of the concurrent ring can tell about it. A side cannot distinguish a run with the
  other side from a sequential run of \<open>try_push\<close> and \<open>try_pop\<close> in which the other side acts between
  its own calls, which is how the rings enter the models of the hot loop, the publisher and the
  producer (\<open>size\<close>, which reads both indices, is not part of this view). Both sides together can: with
  stale loads the ring may be full for one and empty for the other at once.
\<close>

section \<open>Sequential runs\<close>

text \<open>A call with the result its label states; \<^const>\<open>None\<close> when the ring answers otherwise.\<close>

fun ring_call :: "'a ring \<Rightarrow> 'a label \<Rightarrow> 'a ring option" where
  "ring_call r Silent = Some r"
| "ring_call r (Push_ok v) = (case try_push r v of (r', KOk) \<Rightarrow> Some r' | (r', KFull) \<Rightarrow> None)"
| "ring_call r (Push_full v) = (case try_push r v of (r', KOk) \<Rightarrow> None | (r', KFull) \<Rightarrow> Some r')"
| "ring_call r (Pop_some v) = (case try_pop r of (r', x) \<Rightarrow> if x = Some v then Some r' else None)"
| "ring_call r Pop_none = (case try_pop r of (r', x) \<Rightarrow> if x = None then Some r' else None)"

fun ring_run :: "'a ring \<Rightarrow> 'a label list \<Rightarrow> 'a ring option" where
  "ring_run r [] = Some r"
| "ring_run r (l # ls) = do { r \<leftarrow> ring_call r l; ring_run r ls }"

fun is_push :: "'a label \<Rightarrow> bool" where
  "is_push (Push_ok v) = True" | "is_push (Push_full v) = True" | "is_push _ = False"

fun is_pop :: "'a label \<Rightarrow> bool" where
  "is_pop (Pop_some v) = True" | "is_pop Pop_none = True" | "is_pop _ = False"

lemma ring_run_append: "ring_run r (ks @ ls) = do { r \<leftarrow> ring_run r ks; ring_run r ls }"
  by (induction ks arbitrary: r) (auto split: bind_splits)

text \<open>A ring of capacity \<open>c\<close> with given contents.\<close>

definition holds :: "nat \<Rightarrow> 'a list \<Rightarrow> 'a ring \<Rightarrow> bool" where
  "holds c xs r \<longleftrightarrow> ring_wf r \<and> length (rg_slots r) = c \<and> ring_items r = xs"

lemma holds_new: "valid_capacity c \<Longrightarrow> holds c [] (ring_new c z)"
  by (simp add: holds_def op_simps)

lemma call_push:
  assumes "holds c xs r"
  shows "length xs < c \<Longrightarrow> \<exists>r'. ring_call r (Push_ok v) = Some r' \<and> holds c (xs @ [v]) r'"
    "length xs = c \<Longrightarrow> \<exists>r'. ring_call r (Push_full v) = Some r' \<and> holds c xs r'"
proof -
  obtain T h tc hc where "ring_at r T h tc hc" using assms by (auto simp: holds_def ring_wf_def)
  note p = try_push_at [OF this, of v]
  obtain r' x where q: "try_push r v = (r', x)" by (cases "try_push r v")
  show "\<exists>r'. ring_call r (Push_ok v) = Some r' \<and> holds c (xs @ [v]) r'" if "length xs < c"
    using p that assms by (simp add: holds_def q)
  show "\<exists>r'. ring_call r (Push_full v) = Some r' \<and> holds c xs r'" if "length xs = c"
    using p that assms by (simp add: holds_def q)
qed

lemma call_pop:
  assumes "holds c xs r"
  shows "xs = v # vs \<Longrightarrow> \<exists>r'. ring_call r (Pop_some v) = Some r' \<and> holds c vs r'"
    "xs = [] \<Longrightarrow> \<exists>r'. ring_call r Pop_none = Some r' \<and> holds c [] r'"
proof -
  obtain T h tc hc where "ring_at r T h tc hc" using assms by (auto simp: holds_def ring_wf_def)
  note p = try_pop_at [OF this]
  obtain r' x where q: "try_pop r = (r', x)" by (cases "try_pop r")
  show "\<exists>r'. ring_call r (Pop_some v) = Some r' \<and> holds c vs r'" if "xs = v # vs"
    using p that assms by (simp add: holds_def q)
  show "\<exists>r'. ring_call r Pop_none = Some r' \<and> holds c [] r'" if "xs = []"
    using p that assms by (simp add: holds_def q)
qed

lemma run_pushes:
  "holds c xs r \<Longrightarrow> length xs + length vs \<le> c \<Longrightarrow> \<exists>r'. ring_run r (map Push_ok vs) = Some r' \<and> holds c (xs @ vs) r'"
proof (induction vs arbitrary: xs r)
  case (Cons v vs)
  obtain r1 where r1: "ring_call r (Push_ok v) = Some r1" "holds c (xs @ [v]) r1"
    using call_push(1) [OF Cons.prems(1), of v] Cons.prems(2) by auto
  then show ?case using Cons.IH [OF r1(2)] Cons.prems(2) by auto
qed auto

lemma run_pops:
  "holds c (vs @ xs) r \<Longrightarrow> \<exists>r'. ring_run r (map Pop_some vs) = Some r' \<and> holds c xs r'"
proof (induction vs arbitrary: r)
  case (Cons v vs)
  obtain r1 where "ring_call r (Pop_some v) = Some r1" "holds c (vs @ xs) r1"
    using call_pop(1) [OF Cons.prems, of v "vs @ xs"] by auto
  then show ?case using Cons.IH by auto
qed auto

section \<open>One side's view\<close>

text \<open>
  A sequential run \<open>ks\<close> that explains what one side saw: its calls \<open>own\<close> are those of the concurrent
  run \<open>ls\<close>, the other side's calls are \<open>others\<close>, and it leaves \<open>xs\<close> in the ring.
\<close>

definition side_view :: "('a label \<Rightarrow> bool) \<Rightarrow> nat \<Rightarrow> 'a \<Rightarrow> 'a label list \<Rightarrow> 'a label list \<Rightarrow> 'a list \<Rightarrow> bool" where
  "side_view own c z ls others xs \<longleftrightarrow> (\<exists>ks r. ring_run (ring_new c z) ks = Some r \<and> holds c xs r
     \<and> filter own ks = filter own ls \<and> filter (\<lambda>l. \<not> own l) ks = others)"

lemma side_view_new: "valid_capacity c \<Longrightarrow> side_view own c z [] [] []"
  unfolding side_view_def by (rule exI [of _ "[]"]) (simp add: holds_new)

lemma side_view_other [simp]: "\<not> own l \<Longrightarrow> side_view own c z (ls @ [l]) others xs = side_view own c z ls others xs"
  by (simp add: side_view_def)

lemma side_view_own:
  assumes "side_view own c z ls others xs" "own l"
    "\<And>r. holds c xs r \<Longrightarrow> \<exists>r'. ring_call r l = Some r' \<and> holds c ys r'"
  shows "side_view own c z (ls @ [l]) others ys"
proof -
  obtain ks r where k: "ring_run (ring_new c z) ks = Some r" "holds c xs r"
      "filter own ks = filter own ls" "filter (\<lambda>l. \<not> own l) ks = others"
    using assms(1) by (auto simp: side_view_def)
  obtain r' where "ring_call r l = Some r'" "holds c ys r'" using assms(3) [OF k(2)] by blast
  then show ?thesis unfolding side_view_def using k assms(2)
    by (intro exI [of _ "ks @ [l]"] exI [of _ r']) (simp add: ring_run_append)
qed

lemma side_view_shown:
  assumes "side_view own c z ls others xs" "\<forall>l\<in>set new. \<not> own l"
    "\<And>r. holds c xs r \<Longrightarrow> \<exists>r'. ring_run r new = Some r' \<and> holds c ys r'"
  shows "side_view own c z ls (others @ new) ys"
proof -
  obtain ks r where k: "ring_run (ring_new c z) ks = Some r" "holds c xs r"
      "filter own ks = filter own ls" "filter (\<lambda>l. \<not> own l) ks = others"
    using assms(1) by (auto simp: side_view_def)
  obtain r' where "ring_run r new = Some r'" "holds c ys r'" using assms(3) [OF k(2)] by blast
  then show ?thesis unfolding side_view_def using k assms(2)
    by (intro exI [of _ "ks @ new"] exI [of _ r']) (simp add: ring_run_append)
qed

section \<open>The consumer's view\<close>

text \<open>The pushes a load has shown the consumer, each before that load.\<close>

abbreviation consumer_view :: "nat \<Rightarrow> 'a \<Rightarrow> 'a label list \<Rightarrow> 'a list \<Rightarrow> 'a list \<Rightarrow> nat \<Rightarrow> bool" where
  "consumer_view c z ls sent got hc \<equiv> side_view is_pop c z ls (map Push_ok (take hc sent)) (drop (length got) (take hc sent))"

lemma take_upto: "m \<le> n \<Longrightarrow> take n xs = take m xs @ take (n - m) (drop m xs)"
  by (metis le_add_diff_inverse take_add)

lemma consumer_view_shown:
  assumes "consumer_view c z ls sent got hc" "length got \<le> hc" "hc \<le> h" "h \<le> length sent" "h \<le> length got + c"
  shows "consumer_view c z ls sent got h"
proof -
  define vs where "vs = take (h - hc) (drop hc sent)"
  note t = take_upto [OF assms(3), of sent, folded vs_def]
  have d: "drop (length got) (take h sent) = drop (length got) (take hc sent) @ vs"
    unfolding t using assms(2-4) by simp
  have "length (drop (length got) (take hc sent)) + length vs \<le> c" using assms(2-5) by (simp add: vs_def)
  then show ?thesis unfolding d unfolding t map_append
    by (intro side_view_shown [OF assms(1)]) (simp, rule run_pushes)
qed

lemma consumer_view_step:
  assumes "sys_step s l s'" "sys_inv s" "length (rg_slots (sy_ring s)) = c"
    "consumer_view c z ls (sy_sent s) (sy_got s) (sy_hc s)"
  shows "consumer_view c z (ls @ [l]) (sy_sent s') (sy_got s') (sy_hc s')"
  using assms
proof (induction rule: sys_step.induct)
  case (pop_reload s t h)
  note f = sys_inv_facts [OF pop_reload(5)]
  show ?case using consumer_view_shown [OF pop_reload(7), of h] pop_reload(2,3,6) f(5,6,8) by simp
next
  case (pop_none s t h)
  note f = sys_inv_facts [OF pop_none(5)]
  have "t = of_nat (length (sy_got s))" using f(4) pop_none(1) by (simp add: cons_ok_def)
  then have "length (sy_got s) = h" using iffD1 [OF ring_at_same [OF f(1) pop_none(2,3)]] pop_none(4) by metis
  then have d: "drop (length (sy_got s)) (take h (sy_sent s)) = []" by simp
  have "consumer_view c z ls (sy_sent s) (sy_got s) h"
    using consumer_view_shown [OF pop_none(7), of h] pop_none(2,3,6) f(5,6,8) by simp
  then have "consumer_view c z (ls @ [Pop_none]) (sy_sent s) (sy_got s) h"
    unfolding d by (rule side_view_own) (simp, rule call_pop(2) [OF _ refl])
  then show ?case by simp
next
  case (pop_release s t v)
  note f = sys_inv_facts [OF pop_release(2)]
  have v: "length (sy_got s) < sy_hc s" "v = sy_sent s ! length (sy_got s)" using f(4) pop_release(1) by (simp_all add: cons_ok_def)
  then have d: "drop (length (sy_got s)) (take (sy_hc s) (sy_sent s)) = v # drop (Suc (length (sy_got s))) (take (sy_hc s) (sy_sent s))"
    using f(7) Cons_nth_drop_Suc [of "length (sy_got s)" "take (sy_hc s) (sy_sent s)"] by simp
  have "consumer_view c z (ls @ [Pop_some v]) (sy_sent s) (sy_got s @ [v]) (sy_hc s)"
    using pop_release(4) unfolding d length_append_singleton by (rule side_view_own) (simp, rule call_pop(1) [OF _ refl])
  then show ?case by simp
qed (simp_all add: sys_inv_facts(7))

section \<open>The producer's view\<close>

text \<open>The pops a load has shown the producer, each before that load.\<close>

abbreviation producer_view :: "nat \<Rightarrow> 'a \<Rightarrow> 'a label list \<Rightarrow> 'a list \<Rightarrow> nat \<Rightarrow> bool" where
  "producer_view c z ls sent tc \<equiv> side_view is_push c z ls (map Pop_some (take tc sent)) (drop tc sent)"

lemma producer_view_shown:
  assumes "producer_view c z ls sent tc" "tc \<le> t"
  shows "producer_view c z ls sent t"
proof -
  define vs where "vs = take (t - tc) (drop tc sent)"
  have "drop tc sent = vs @ drop t sent"
    using assms(2) append_take_drop_id [of "t - tc" "drop tc sent"] by (simp add: vs_def)
  from assms(1) [unfolded this] show ?thesis unfolding take_upto [OF assms(2), of sent, folded vs_def] map_append
    by (rule side_view_shown) (simp, rule run_pops)
qed

lemma producer_view_step:
  assumes "sys_step s l s'" "sys_inv s" "length (rg_slots (sy_ring s)) = c"
    "producer_view c z ls (sy_sent s) (sy_tc s)"
  shows "producer_view c z (ls @ [l]) (sy_sent s') (sy_tc s')"
  using assms
proof (induction rule: sys_step.induct)
  case (push_reload s v h t)
  then show ?case using producer_view_shown [OF push_reload(7), of t] by simp
next
  case (push_full s v h t)
  note f = sys_inv_facts [OF push_full(5)]
  have "h = of_nat (length (sy_sent s))" using f(3) push_full(1) by (simp add: prod_ok_def)
  then have d: "length (drop t (sy_sent s)) = c"
    using ring_at_diff(1) [OF f(1) push_full(2,3)] push_full(4,6) by simp
  have "producer_view c z (ls @ [Push_full v]) (sy_sent s) t"
    using producer_view_shown [OF push_full(7,2)] by (rule side_view_own) (simp, rule call_push(2) [OF _ d])
  then show ?case by simp
next
  case (push_publish s v h)
  note f = sys_inv_facts [OF push_publish(2)]
  have d: "length (drop (sy_tc s) (sy_sent s)) < c" using f(3,5-7) push_publish(1,3) by (auto simp: prod_ok_def)
  have "side_view is_push c z (ls @ [Push_ok v]) (map Pop_some (take (sy_tc s) (sy_sent s))) (drop (sy_tc s) (sy_sent s) @ [v])"
    using push_publish(4) by (rule side_view_own) (simp, rule call_push(1) [OF _ d])
  then show ?case using f(5-7) by simp
qed simp_all

section \<open>Both views\<close>

lemma pushed_pushes [simp]: "filter (\<lambda>l. \<not> is_pop l) ks = map Push_ok vs \<Longrightarrow> pushed ks = vs"
proof (induction ks arbitrary: vs)
  case (Cons k ks)
  then show ?case by (cases k; cases vs) (auto simp: pushed_def)
qed (simp add: pushed_def)

lemma popped_pops [simp]: "filter (\<lambda>l. \<not> is_push l) ks = map Pop_some vs \<Longrightarrow> popped ks = vs"
proof (induction ks arbitrary: vs)
  case (Cons k ks)
  then show ?case by (cases k; cases vs) (auto simp: popped_def)
qed (simp add: popped_def)

lemma views:
  assumes "sys_steps (system_new c z) ls s" "valid_capacity c"
  shows "consumer_view c z ls (sy_sent s) (sy_got s) (sy_hc s) \<and> producer_view c z ls (sy_sent s) (sy_tc s)"
  using assms
proof (induction "system_new c z" ls s rule: sys_steps.induct)
  case steps_nil
  then show ?case by (simp add: system_new_def side_view_new)
next
  case (steps_snoc ls t l u)
  note r = reachable_inv(1,4) [OF steps_snoc(4,1)]
  show ?case using consumer_view_step [OF steps_snoc(3) r] producer_view_step [OF steps_snoc(3) r] steps_snoc(2,4) by blast
qed

section \<open>Both sides together\<close>

text \<open>Whether some order of the two sides' calls has the given results.\<close>

function (sequential) explains :: "'a ring \<Rightarrow> 'a label list \<Rightarrow> 'a label list \<Rightarrow> bool" where
  "explains r [] [] = True"
| "explains r ps cs =
    ((case ps of [] \<Rightarrow> False | p # ps' \<Rightarrow> (case ring_call r p of None \<Rightarrow> False | Some r' \<Rightarrow> explains r' ps' cs))
     \<or> (case cs of [] \<Rightarrow> False | q # cs' \<Rightarrow> (case ring_call r q of None \<Rightarrow> False | Some r' \<Rightarrow> explains r' ps cs')))"
  by pat_completeness auto
termination by (relation "measure (\<lambda>(r, ps, cs). length ps + length cs)") auto

lemma explains_run:
  "ring_run r ks = Some r' \<Longrightarrow> explains r (filter is_push ks) (filter is_pop ks)"
proof (induction ks arbitrary: r)
  case (Cons k ks)
  obtain r1 where r1: "ring_call r k = Some r1" "ring_run r1 ks = Some r'" using Cons.prems by (auto split: bind_splits)
  note IH = Cons.IH [OF r1(2)]
  consider "is_push k" "\<not> is_pop k" | "is_pop k" "\<not> is_push k" | "k = Silent" by (cases k) auto
  then show ?case
  proof cases
    case 1
    then show ?thesis using IH r1(1) by (simp del: ring_call.simps)
  next
    case 2
    then show ?thesis using IH r1(1) by (cases "filter is_push ks") (simp_all del: ring_call.simps)
  next
    case 3
    then show ?thesis using IH r1(1) by simp
  qed
qed simp

lemma sys_steps_same: "s = t \<Longrightarrow> sys_steps s [] t"
  by (simp add: steps_nil)

text \<open>A state between calls.\<close>

definition between :: "u64 \<Rightarrow> u64 \<Rightarrow> nat list \<Rightarrow> nat list \<Rightarrow> nat list \<Rightarrow> nat system" where
  "between hc tc slots sent got = \<lparr>sy_ring = \<lparr>rg_head = of_nat (length sent), rg_tail_cache = tc, rg_tail = of_nat (length got),
       rg_head_cache = hc, rg_slots = slots\<rparr>,
     sy_prod = PIdle, sy_cons = CIdle, sy_sent = sent, sy_got = got, sy_tc = unat tc, sy_hc = unat hc\<rparr>"

lemmas step_simps = between_def capacity_def slot_of_def word_le_nat_alt

text \<open>One value goes through a ring of two; a second is queued and a third refused, while the consumer finds
  nothing: each side has loaded the index the other has just stored too early.\<close>

lemma push_first: "sys_steps (between 0 0 [0, 0] [] []) [Silent, Silent, Silent, Push_ok 7] (between 0 0 [7, 0] [7] [])"
  by (rule sys_steps_cons, rule push_begin [where v = 7], simp add: step_simps,
      rule sys_steps_cons, rule push_room, simp, simp add: step_simps,
      rule sys_steps_cons, rule push_write, simp,
      rule sys_steps_cons, rule push_publish, simp, rule sys_steps_same, simp add: step_simps)

lemma pop_first:
  "sys_steps (between 0 0 [7, 0] [7] []) [Silent, Silent, Silent, Silent, Pop_some 7] (between 1 0 [7, 0] [7] [7])"
  by (rule sys_steps_cons, rule pop_begin, simp add: step_simps,
      rule sys_steps_cons, rule pop_stale, simp, simp add: step_simps,
      rule sys_steps_cons, rule pop_reload [where h = 1], simp, simp_all add: step_simps,
      rule sys_steps_cons, rule pop_read, simp, rule sys_steps_cons,
      rule back_subst [where P = "\<lambda>v. sys_step _ (Pop_some v) _"], rule pop_release, simp, simp add: step_simps,
      rule sys_steps_same, simp add: step_simps)

lemma push_second:
  "sys_steps (between 1 0 [7, 0] [7] [7]) [Silent, Silent, Silent, Push_ok 8] (between 1 0 [7, 8] [7, 8] [7])"
  by (rule sys_steps_cons, rule push_begin [where v = 8], simp add: step_simps,
      rule sys_steps_cons, rule push_room, simp, simp add: step_simps,
      rule sys_steps_cons, rule push_write, simp,
      rule sys_steps_cons, rule push_publish, simp, rule sys_steps_same, simp add: step_simps)

lemma both_refused:
  "\<exists>s. sys_steps (between 1 0 [7, 8] [7, 8] [7]) [Silent, Silent, Push_full 9, Silent, Silent, Pop_none] s"
  by (rule exI, rule sys_steps_cons, rule push_begin [where v = 9], simp add: step_simps,
      rule sys_steps_cons, rule push_stale, simp, simp add: step_simps,
      rule sys_steps_cons, rule push_full [where t = 0], simp, simp_all add: step_simps,
      rule sys_steps_cons, rule pop_begin, simp add: step_simps,
      rule sys_steps_cons, rule pop_stale, simp, simp add: step_simps,
      rule sys_steps_cons, rule pop_none [where h = 1], simp, simp_all add: step_simps,
      rule sys_steps_same, simp add: step_simps)

lemma unexplained: "\<not> explains (ring_new 2 (0 :: nat)) [Push_ok 7, Push_ok 8, Push_full 9] [Pop_some 7, Pop_none]"
  by code_simp

text \<open>Both sides together can tell: a ring of two may be full for its producer and empty for its consumer at
  the end of one run, which no order of whole calls explains. One value is queued when the pop fails.\<close>

theorem full_and_empty_at_once:
  "\<exists>ls s. sys_steps (system_new 2 (0 :: nat)) ls s \<and> pushed ls = [7, 8] \<and> popped ls = [7]
    \<and> filter is_push ls = [Push_ok 7, Push_ok 8, Push_full 9] \<and> filter is_pop ls = [Pop_some 7, Pop_none]
    \<and> \<not> (\<exists>ks r. ring_run (ring_new 2 0) ks = Some r \<and> filter is_push ks = filter is_push ls \<and> filter is_pop ks = filter is_pop ls)"
proof -
  obtain s where s: "sys_steps (between 1 0 [7, 8] [7, 8] [7]) [Silent, Silent, Push_full 9, Silent, Silent, Pop_none] s"
    using both_refused by blast
  have z: "system_new 2 (0 :: nat) = between 0 0 [0, 0] [] []"
    by (simp add: system_new_def between_def ring_new_def numeral_2_eq_2)
  define ls where "ls = [Silent, Silent, Silent, Push_ok 7] @ [Silent, Silent, Silent, Silent, Pop_some 7]
    @ [Silent, Silent, Silent, Push_ok 8] @ [Silent, Silent, Push_full (9 :: nat), Silent, Silent, Pop_none]"
  have run: "sys_steps (system_new 2 0) ls s" unfolding z ls_def
    by (rule sys_steps_trans [OF sys_steps_trans [OF sys_steps_trans [OF s push_second] pop_first] push_first])
  have l: "filter is_push ls = [Push_ok 7, Push_ok 8, Push_full 9]" "filter is_pop ls = [Pop_some 7, Pop_none]"
      "pushed ls = [7, 8]" "popped ls = [7]"
    by (simp_all add: ls_def pushed_def popped_def)
  have "\<not> (\<exists>ks r. ring_run (ring_new 2 (0 :: nat)) ks = Some r \<and> filter is_push ks = filter is_push ls
      \<and> filter is_pop ks = filter is_pop ls)"
    using explains_run [of "ring_new 2 (0 :: nat)"] unexplained unfolding l by metis
  then show ?thesis using run l by blast
qed

section \<open>Property\<close>

text \<open>C20: Neither side of the ring can tell the concurrent execution from a sequential one: for every
  interleaving, with index loads as stale as the memory model allows, there is a sequence of whole
  \<open>try_push\<close> and \<open>try_pop\<close> calls in which the consumer's pops answer as they did, against successful
  pushes of the first values published; and one in which the producer's pushes answer as they did,
  refusals included, against pops of the first values it published.\<close>

theorem each_side_sees_a_queue:
  assumes "valid_capacity c" and "sys_steps (system_new c z) ls s"
  shows "(\<exists>ks r n. ring_run (ring_new c z) ks = Some r \<and> filter is_pop ks = filter is_pop ls
      \<and> filter (\<lambda>l. \<not> is_pop l) ks = map Push_ok (take n (pushed ls)))
    \<and> (\<exists>ks r n. ring_run (ring_new c z) ks = Some r \<and> filter is_push ks = filter is_push ls
      \<and> filter (\<lambda>l. \<not> is_push l) ks = map Pop_some (take n (pushed ls)))"
  using views [OF assms(2,1)] unfolding side_view_def reachable_inv(2) [OF assms] by blast

lemma each_side_sees_a_queue_witness:
  "\<exists>ls s ks r. sys_steps (system_new 2 (0 :: nat)) ls s \<and> filter is_pop ls = [Pop_some 7]
    \<and> ring_run (ring_new 2 (0 :: nat)) ks = Some r \<and> filter is_pop ks = [Pop_some 7]"
proof -
  define ls where "ls = [Silent, Silent, Silent, Push_ok 7] @ [Silent, Silent, Silent, Silent, Pop_some (7 :: nat)]"
  have z: "system_new 2 (0 :: nat) = between 0 0 [0, 0] [] []"
    by (simp add: system_new_def between_def ring_new_def numeral_2_eq_2)
  have s: "sys_steps (system_new 2 0) ls (between 1 0 [7, 0] [7] [7])"
    unfolding z ls_def by (rule sys_steps_trans [OF pop_first push_first])
  have l: "filter is_pop ls = [Pop_some 7]" by (simp add: ls_def)
  obtain ks r where "ring_run (ring_new 2 (0 :: nat)) ks = Some r" "filter is_pop ks = [Pop_some 7]"
    using each_side_sees_a_queue [OF valid_capacity_2 s] unfolding l by auto
  then show ?thesis using s l by blast
qed

end
