(* ===== verification/Session_History.thy ===== *)
theory Session_History
  imports Session_Props
begin

text \<open>
  What the session table carries from one call to the next: the counters against the history of the
  admissions, refusals and sizes, and the state a session keeps when it is closed and handed to a new call.
\<close>

section \<open>The counters\<close>

text \<open>Every table the operations reach, with the calls opened so far, the calls refused and the most calls
  live at once.\<close>

inductive table_history :: "u32 \<Rightarrow> chunker_config \<Rightarrow> session_table \<Rightarrow> nat \<Rightarrow> nat \<Rightarrow> nat \<Rightarrow> bool" for m c where
  history_new: "table_history m c (table_new m c) 0 0 0"
| history_acquire: "table_history m c t n r k \<Longrightarrow> acquire t sid now = (t', x) \<Longrightarrow>
    table_history m c t' (if view t sid = None \<and> x \<noteq> None then n + 1 else n) (if x = None then r + 1 else r)
      (max k (card (dom (view t'))))"
| history_update: "table_history m c t n r k \<Longrightarrow> keeps_identity f \<Longrightarrow> table_history m c (update_session t i f) n r k"
| history_expire: "table_history m c t n r k \<Longrightarrow> expire_idle t now idle = Some (t', evs) \<Longrightarrow> table_history m c t' n r k"
| history_flush: "table_history m c t n r k \<Longrightarrow> flush_all t now = Some (t', evs) \<Longrightarrow> table_history m c t' n r k"

lemma history_reach: "table_history m c t n r k \<Longrightarrow> table_reach m c t"
proof (induction rule: table_history.induct)
  case (history_acquire t n r k sid now t' x)
  then show ?case using reach_acquire [of m c t sid now] by simp
qed (auto intro: table_reach.intros)

lemma reach_history: "table_reach m c t \<Longrightarrow> \<exists>n r k. table_history m c t n r k"
proof (induction rule: table_reach.induct)
  case (reach_acquire t sid now)
  then show ?case by (cases "acquire t sid now") (auto dest: history_acquire)
qed (blast intro: table_history.intros)+

text \<open>The counters a sweep leaves alone.\<close>

definition tallies :: "session_table \<Rightarrow> u64 \<times> u64 \<times> u32" where
  "tallies t = (st_opened t, st_rejected t, st_peak_live t)"

lemma tallies_update [simp]: "tallies (update_session t i f) = tallies t"
  by (simp add: tallies_def update_session_def)

lemma tallies_close: "tallies (fst (close_session t now i)) = tallies t"
  by (simp add: tallies_def close_session_def release_def Let_def split: prod.split option.split)

lemma tallies_sweep: "tallies (fst (sweep p now t is)) = tallies t"
proof (induction "is" arbitrary: t)
  case (Cons i "is")
  show ?case using Cons.IH [of "fst (close_session t now i)"] Cons.IH [of t] tallies_close [of t now i]
    by (simp add: case_prod_beta)
qed simp

lemma tallies_rebuild: "maybe_rebuild t = Some t' \<Longrightarrow> tallies t' = tallies t"
  by (auto simp: maybe_rebuild_def tallies_def split: if_splits)

lemma tallies_expire: "expire_idle t now idle = Some (t', evs) \<Longrightarrow> tallies t' = tallies t"
  using tallies_sweep [of "is_idle now idle" now t "[0..<unat (st_max t)]"]
  by (auto simp: expire_idle_def case_prod_beta dest: tallies_rebuild)

lemma tallies_flush: "flush_all t now = Some (t', evs) \<Longrightarrow> tallies t' = tallies t"
  using tallies_sweep [of ss_active now t "[0..<unat (st_max t)]"]
  by (auto simp: flush_all_def case_prod_beta dest: tallies_rebuild)

lemma acquire_tallies:
  assumes "table_ok t" "acquire t sid now = (t', x)"
  shows "tallies t' =
    (if view t sid = None \<and> x \<noteq> None then st_opened t + 1 else st_opened t,
     if x = None then st_rejected t + 1 else st_rejected t,
     if view t sid = None \<and> x \<noteq> None then max (st_peak_live t) (st_live t') else st_peak_live t)"
proof (cases "view t sid")
  case (Some i)
  have "table_inv t" using assms(1) by (simp add: table_ok_def)
  then show ?thesis using acquire_live [OF _ Some, of now] assms(2) Some by (auto simp: tallies_def update_session_def)
next
  case None
  have t: "table_inv t" "st_tombstones t * 4 \<le> length (st_slots t)" using assms(1) by (auto simp: table_ok_def)
  show ?thesis
  proof (cases "st_free t = []")
    case True
    then show ?thesis using acquire_refused [OF t(1) None True, of now] assms(2) None by (auto simp: tallies_def)
  next
    case False
    then show ?thesis using acquire_insert [OF t(1) None False exists_empty [OF t], of now] assms(2) None
      by (auto simp: tallies_def insert_session_def Let_def max_def)
  qed
qed

lemma history_counters:
  assumes "table_history m c t n r k" "m < kTombstone"
  shows "st_opened t = of_nat n \<and> st_rejected t = of_nat r \<and> unat (st_peak_live t) = k"
  using assms
proof (induction rule: table_history.induct)
  case history_new
  then show ?case by (simp add: table_new_def Let_def)
next
  case (history_acquire t n r k sid now t' x)
  have ok: "table_ok t" "table_ok t'"
    using reach_ok [OF history_acquire(4) history_reach [OF history_acquire(1)]] acquire_ok [of t sid now] history_acquire(2)
    by auto
  have peak: "st_live t' \<le> st_peak_live t'" using ok(2) by (simp add: table_ok_def table_inv_def counts_ok_def)
  have live: "unat (st_live t') = card (dom (view t'))"
    using ok(2) card_view_room(1) [of t'] by (simp add: table_ok_def table_inv_def counts_ok_def)
  have "unat (max a b) = max (unat a) (unat b)" for a b :: u32 by (simp add: max_def word_le_nat_alt)
  then show ?case using acquire_tallies [OF ok(1) history_acquire(2)] history_acquire(3,4) peak live
    by (auto simp: tallies_def word_le_nat_alt split: if_splits)
next
  case (history_update t n r k f i)
  then show ?case using tallies_update [of t i f] by (simp add: tallies_def)
next
  case (history_expire t n r k now idle t' evs)
  then show ?case using tallies_expire [OF history_expire(2)] by (simp add: tallies_def)
next
  case (history_flush t n r k now t' evs)
  then show ?case using tallies_flush [OF history_flush(2)] by (simp add: tallies_def)
qed

section \<open>Slots in use\<close>

lemma in_use:
  assumes "table_ok t"
  shows "4 * length (filter (\<lambda>w. w \<noteq> kEmpty) (st_slots t)) \<le> 3 * length (st_slots t)"
proof -
  define n where "n = length (st_slots t)"
  have t: "table_inv t" "st_tombstones t * 4 \<le> n" using assms by (simp_all add: table_ok_def n_def)
  have "{s. s < n \<and> st_slots t ! s \<noteq> kEmpty}
      = {s. s < n \<and> is_index (st_slots t ! s)} \<union> {s. s < n \<and> st_slots t ! s = kTombstone}"
    by (auto simp: is_index_def kEmpty_def kTombstone_def)
  then have "length (filter (\<lambda>w. w \<noteq> kEmpty) (st_slots t))
      \<le> card {s. s < n \<and> is_index (st_slots t ! s)} + card {s. s < n \<and> st_slots t ! s = kTombstone}"
    using card_Un_le [of "{s. s < n \<and> is_index (st_slots t ! s)}" "{s. s < n \<and> st_slots t ! s = kTombstone}"]
    by (simp add: length_filter_conv_card n_def)
  also have "\<dots> \<le> unat (st_max t) + st_tombstones t"
    using card_index_slots [OF t(1)] card_live_set [of t] t(1)
    by (auto simp: n_def table_inv_def counts_ok_def count_list_card)
  finally show ?thesis using t by (simp add: n_def table_inv_def shape_ok_def)
qed

section \<open>A session in the hands of the next call\<close>





section \<open>Properties\<close>

text \<open>C29: The table never clogs and its counters are exact, in every table the operations reach: the tombstone
  counter is the number of tombstones and these are at most a quarter of the slots; at most three quarters
  of the slots are in use, so some slot is empty, no probe visits the whole table and no loop of the rebuild
  can run forever; the live counter is the number of live calls, its peak the most there ever were, and the
  opened and rejected counters count (modulo their width) the calls admitted and the acquisitions refused.\<close>

theorem table_never_clogs:
  assumes "m < kTombstone" and "table_history m c t admitted refused most"
  shows "st_tombstones t = count_list (st_slots t) kTombstone \<and> 4 * st_tombstones t \<le> length (st_slots t)
    \<and> 4 * length (filter (\<lambda>w. w \<noteq> kEmpty) (st_slots t)) \<le> 3 * length (st_slots t) \<and> kEmpty \<in> set (st_slots t)
    \<and> unat (st_live t) = card (dom (view t)) \<and> unat (st_peak_live t) = most
    \<and> st_opened t = of_nat admitted \<and> st_rejected t = of_nat refused"
proof -
  have r: "table_ok t" using reach_ok [OF assms(1) history_reach [OF assms(2)]] by blast
  then have ok: "table_inv t" "st_tombstones t * 4 \<le> length (st_slots t)" by (auto simp: table_ok_def)
  have "kEmpty \<in> set (st_slots t)" using exists_empty [OF ok] by (metis nth_mem)
  then show ?thesis
    using ok in_use [OF r] card_view_room(1) [OF ok(1)] history_counters [OF assms(2,1)]
    by (simp add: table_inv_def counts_ok_def mult.commute)
qed

text \<open>A table of one session: a call is admitted, a second one refused.\<close>

lemma table_never_clogs_witness:
  "\<exists>t. fst (acquire (fst (acquire (table_new 1 (sample_config 100)) 77 5)) 78 6) = t
    \<and> st_opened t = 1 \<and> st_rejected t = 1 \<and> unat (st_peak_live t) = 1 \<and> kEmpty \<in> set (st_slots t)"
proof -
  have m: "(1 :: u32) < kTombstone" by (simp add: kTombstone_def)
  define t0 where "t0 = table_new 1 (sample_config 100)"
  have t0: "table_ok t0" "view t0 = Map.empty" "st_free t0 \<noteq> []" "unat (st_max t0) = 1"
    using table_ok_new [OF m] view_new [OF m] by (simp_all add: t0_def table_new_def Let_def)
  obtain i t1 where t1: "acquire t0 77 5 = (t1, Some i)" "table_ok t1" "st_max t1 = st_max t0" "view t1 = [77 \<mapsto> i]"
    using acquire_new [OF t0(1) _ t0(3), of 77 5] t0(2) by auto
  then have "table_inv t1" "st_free t1 = []" using card_view_room(3) [of t1] t0(4) by (simp_all add: table_ok_def)
  then obtain t2 where t2: "acquire t1 78 6 = (t2, None)" "view t2 = view t1" using acquire_refused [of t1 78 6] t1(4) by simp
  have "table_history 1 (sample_config 100) t0 0 0 0" unfolding t0_def by (rule history_new)
  from history_acquire [OF history_acquire [OF this t1(1)] t2(1)]
  have "table_history 1 (sample_config 100) t2 1 1 1" by (simp add: t0(2) t1(4) t2(2))
  from table_never_clogs [OF m this] show ?thesis using t1(1) t2(1) by (simp add: t0_def)
qed



end
