(* ===== verification/Hot_Depth.thy ===== *)
theory Hot_Depth
  imports Hot_Record
begin

text \<open>
  The time-averaged depth of the report against a reference: a log beside the frame queue holds the depth
  each turn found, nothing when the pop failed and the answer of \<open>size\<close> otherwise, and the area the loop
  accumulates is the integral of that log over the clock readings of the turns.
\<close>

section \<open>The integral of a step function\<close>

text \<open>The \<open>i\<close>-th value holds from the \<open>i\<close>-th reading to the next one.\<close>

definition depth_integral :: "nat list \<Rightarrow> nat list \<Rightarrow> nat" where
  "depth_integral ds ts = (\<Sum>i < length ts - 1. ds ! i * (ts ! Suc i - ts ! i))"

lemma integral_none [simp]: "depth_integral ds [] = 0" "depth_integral ds [t] = 0"
  by (simp_all add: depth_integral_def)

lemma integral_beyond: "length ts \<le> length ds + 1 \<Longrightarrow> depth_integral (ds @ es) ts = depth_integral ds ts"
  unfolding depth_integral_def by (intro sum.cong refl) (auto simp: nth_append less_Suc_eq)

lemma integral_snoc:
  assumes "length ds = length ts" "ts \<noteq> []"
  shows "depth_integral ds (ts @ [u]) = depth_integral ds ts + last ds * (u - last ts)"
proof -
  define n where "n = length ts - 1"
  have n: "length ts = Suc n" "length ds = Suc n" using assms by (simp_all add: n_def)
  have "last ds = ds ! n" "last ts = ts ! n" using n by (auto simp: last_conv_nth length_0_conv [symmetric] simp del: length_0_conv)
  then show ?thesis using n by (simp add: depth_integral_def nth_append)
qed

lemma integral_bound:
  "length ts \<le> length ds + 1 \<Longrightarrow> \<forall>d \<in> set ds. d \<le> c \<Longrightarrow> sorted ts \<Longrightarrow> ts \<noteq> []
    \<Longrightarrow> depth_integral ds ts \<le> c * (last ts - hd ts)"
proof (induction ts rule: rev_induct)
  case (snoc u ts)
  show ?case
  proof (cases "ts = []")
    case False
    define es where "es = take (length ts) ds"
    have ds: "ds = es @ drop (length ts) ds" "length es = length ts" using snoc.prems(1) by (simp_all add: es_def)
    have "last es \<in> set ds" using False ds(2) unfolding es_def by (metis in_set_takeD last_in_set length_0_conv)
    then have l: "last es * (u - last ts) \<le> c * (u - last ts)" using snoc.prems(2) by simp
    have o: "hd ts \<le> last ts" "last ts \<le> u" using snoc.prems(3) False by (auto simp: sorted_append hd_conv_nth last_conv_nth sorted_nth_mono)
    have "depth_integral ds (ts @ [u]) = depth_integral es (ts @ [u])"
      by (subst ds(1), rule integral_beyond) (simp add: ds(2))
    moreover have "depth_integral ds ts = depth_integral es ts"
      by (subst ds(1), rule integral_beyond) (simp add: ds(2))
    ultimately have "depth_integral ds (ts @ [u]) = depth_integral ds ts + last es * (u - last ts)"
      using integral_snoc [OF ds(2) False] by simp
    moreover have "depth_integral ds ts \<le> c * (last ts - hd ts)"
      using snoc.IH snoc.prems False by (simp add: sorted_append)
    moreover have "c * (last ts - hd ts) + c * (u - last ts) = c * (u - hd ts)"
      unfolding add_mult_distrib2 [symmetric] using o by simp
    ultimately have "depth_integral ds (ts @ [u]) \<le> c * (u - hd ts)" using l by linarith
    then show ?thesis using False by simp
  qed simp
qed simp

section \<open>The log of depths\<close>

text \<open>A failed pop finds nothing; after a successful one the turn asks the queue for its size.\<close>

definition measuring :: "('q, 'e) hot_io \<Rightarrow> ('q \<times> nat list, 'e \<times> unit) hot_io" where
  "measuring = logged (\<lambda>ds x. case x of None \<Rightarrow> ds @ [0] | Some f \<Rightarrow> ds) (\<lambda>ds n. ds @ [n]) (\<lambda>u v. u)"

interpretation depths: log_keeping "\<lambda>ds x. case x of None \<Rightarrow> ds @ [0] | Some f \<Rightarrow> ds" "\<lambda>ds n. ds @ [n]" "\<lambda>u v. u" .

lemma hot_loop_measured:
  "hot_loop io opt t0 t1 tks t2 (fst q) (fst e) m = map_option forget (hot_loop (measuring io) opt t0 t1 tks t2 q e m)"
  unfolding measuring_def by (rule depths.hot_loop_logged)

lemma measuring_ops [simp]:
  "io_pop (measuring io) q = ((fst (io_pop io (fst q)), case snd (io_pop io (fst q)) of None \<Rightarrow> snd q @ [0] | Some f \<Rightarrow> snd q),
    snd (io_pop io (fst q)))"
  "io_size (measuring io) q = ((fst (io_size io (fst q)), snd q @ [snd (io_size io (fst q))]), snd (io_size io (fst q)))"
  "io_push (measuring io) e v = ((fst (io_push io (fst e) v), snd e), snd (io_push io (fst e) v))"
  by (simp_all add: measuring_def)

context hot_queues begin

lemma measured_queues:
  "hot_queues (measuring io) (\<lambda>q. ok (fst q) \<and> (\<forall>d \<in> set (snd q). d \<le> room)) (\<lambda>q. pops (fst q)) (\<lambda>e. sent (fst e)) room"
proof (unfold_locales, goal_cases)
  case (1 q)
  then show ?case using pop_ok [of "fst q"] by (auto split: option.splits)
next
  case (3 q)
  then show ?case using size_ok [of "fst q"] by auto
qed (auto intro: pop_frame simp: push_counts)

end

section \<open>One turn\<close>

text \<open>
  The loop has begun turns at the readings \<open>ts\<close>: the area is the integral of the log over them and the
  time their span, both modulo the width of the counters.
\<close>

definition begun :: "u64 list \<Rightarrow> ('q \<times> nat list, 'v) hot \<Rightarrow> bool" where
  "begun ts s \<longleftrightarrow> length ts \<le> length (snd (hl_frames s)) + 1 \<and>
    depth_fields s =
      (if ts = [] then (0, 0, 0)
       else (of_nat (depth_integral (snd (hl_frames s)) (map unat ts)), last ts - hd ts, last ts))"

text \<open>Between turns every reading has a depth, and the loop holds the last one.\<close>

definition measured :: "u64 list \<Rightarrow> ('q \<times> nat list, 'v) hot \<Rightarrow> bool" where
  "measured ts s \<longleftrightarrow> begun ts s \<and> length (snd (hl_frames s)) = length ts
    \<and> (ts \<noteq> [] \<longrightarrow> hl_observed_depth s = of_nat (last (snd (hl_frames s))))"

lemma observe_begun:
  assumes "measured ts s" "sorted (ts @ [t])" "0 \<notin> set ts"
  shows "begun (ts @ [t]) (observe_depth t s)"
proof (cases "ts = []")
  case True
  then show ?thesis using assms(1) by (simp add: measured_def begun_def observe_depth_def depth_fields_def)
next
  case False
  have le: "last ts \<le> t" using assms(2) False by (simp add: sorted_append)
  have nz: "last ts \<noteq> 0" using assms(3) False by (metis last_in_set)
  define ds where "ds = snd (hl_frames s)"
  have d: "m_depth_area_ns (hl_metrics s) = of_nat (depth_integral ds (map unat ts))" "m_depth_time_ns (hl_metrics s) = last ts - hd ts"
    "hl_prev_observation_ns s = last ts" "hl_observed_depth s = of_nat (last ds)" "length ds = length ts"
    using assms(1) False by (simp_all add: measured_def begun_def depth_fields_def ds_def)
  have dt: "t - last ts = of_nat (unat t - unat (last ts))" using le
    by (simp add: word_le_nat_alt)
  have "depth_integral ds (map unat (ts @ [t])) = depth_integral ds (map unat ts) + last ds * (unat t - unat (last ts))"
    using integral_snoc [of ds "map unat ts" "unat t"] d(5) False by (simp add: last_map)
  then have "(of_nat (depth_integral ds (map unat (ts @ [t]))) :: u64)
      = of_nat (depth_integral ds (map unat ts)) + of_nat (last ds) * (t - last ts)" unfolding dt by simp
  then show ?thesis using False nz d
    by (simp add: begun_def observe_depth_def Let_def depth_fields_def ds_def [symmetric])
qed

lemma begun_extended:
  assumes "begun ts s" "depth_fields s' = depth_fields s" "snd (hl_frames s') = snd (hl_frames s) @ ds"
  shows "begun ts s'"
  using assms by (auto simp: begun_def integral_beyond)

lemma frame_log:
  "hot_frame (measuring io) cfg tk f s = Some s'
    \<Longrightarrow> snd (hl_frames s') = snd (hl_frames s) @ [snd (io_size io (fst (hl_frames s)))]"
  by (auto simp: hot_frame_def note_depth_def assemble_frame_def Let_def split: prod.splits option.splits bind_splits)

lemma turn_measured:
  assumes "measured ts s" "sorted (ts @ [tk_loop_ns tk])" "0 \<notin> set ts"
    "hot_turn (measuring io) cfg tk s = Some (s', go)"
  shows "if go then measured (ts @ [tk_loop_ns tk]) s' else begun (ts @ [tk_loop_ns tk]) s' \<and> length (snd (hl_frames s')) = length ts"
proof -
  define s1 where "s1 = observe_depth (tk_loop_ns tk) s"
  have s1: "begun (ts @ [tk_loop_ns tk]) s1" "snd (hl_frames s1) = snd (hl_frames s)" "length (snd (hl_frames s)) = length ts"
    using observe_begun [OF assms(1-3)] assms(1) by (simp_all add: s1_def observe_depth_def Let_def measured_def)
  show ?thesis
  proof (cases "hc_deadline_ns cfg \<noteq> 0 \<and> tk_loop_ns tk > hc_deadline_ns cfg")
    case True
    then show ?thesis using assms(4) s1 by (simp add: hot_turn_def s1_def [symmetric])
  next
    case False
    obtain s2 where s2: "hot_sweep (measuring io) cfg (tk_loop_ns tk) s1 = Some s2"
      using assms(4) False by (auto simp: hot_turn_def s1_def [symmetric] Let_def split: bind_splits)
    have d2: "depth_fields s2 = depth_fields s1" "hl_frames s2 = hl_frames s1"
      using sweep_depth [OF s2] sweep_frames [OF s2] by simp_all
    obtain q p where pop: "io_pop (measuring io) (hl_frames s2) = (q, p)" by (cases "io_pop (measuring io) (hl_frames s2)")
    have e: "go" "(case p of None \<Rightarrow> s' = s2\<lparr>hl_frames := q, hl_observed_depth := 0\<rparr>
        | Some f \<Rightarrow> hot_frame (measuring io) cfg tk f (s2\<lparr>hl_frames := q\<rparr>) = Some s')"
      using assms(4) False unfolding hot_turn_def Let_def s1_def [symmetric] by (simp_all add: s2 pop del: measuring_ops split: option.splits)
    have "\<exists>d. depth_fields s' = depth_fields s1 \<and> snd (hl_frames s') = snd (hl_frames s1) @ [d] \<and> hl_observed_depth s' = of_nat d"
    proof (cases p)
      case None
      then show ?thesis using e(2) pop d2 by (auto simp: depth_fields_def)
    next
      case (Some f)
      then have f: "hot_frame (measuring io) cfg tk f (s2\<lparr>hl_frames := q\<rparr>) = Some s'" "snd q = snd (hl_frames s1)"
        using e(2) pop d2 by auto
      show ?thesis using frame_depth [OF f(1)] frame_log [OF f(1)] f(2) d2 by (simp add: depth_fields_def)
    qed
    then show ?thesis using begun_extended [OF s1(1)] s1(2,3) e(1) by (auto simp: measured_def)
  qed
qed

lemma turns_measured:
  assumes "measured ts s" "sorted (ts @ map tk_loop_ns tks)" "0 \<notin> set ts" "0 \<notin> tk_loop_ns ` set tks"
    "hot_turns (measuring io) cfg tks s = Some s'"
  shows "begun (take (length (snd (hl_frames s')) + 1) (ts @ map tk_loop_ns tks)) s'"
  using assms
proof (induction tks arbitrary: ts s)
  case Nil
  then show ?case by (simp add: measured_def)
next
  case (Cons tk tks)
  obtain s1 go where t: "hot_turn (measuring io) cfg tk s = Some (s1, go)"
      "(if go then hot_turns (measuring io) cfg tks s1 else Some s1) = Some s'"
    using Cons.prems(5) by (auto split: bind_splits)
  have so: "sorted (ts @ [tk_loop_ns tk])" using Cons.prems(2) by (auto simp: sorted_append)
  note m = turn_measured [OF Cons.prems(1) so Cons.prems(3) t(1)]
  show ?case
  proof (cases go)
    case True
    then show ?thesis using Cons.IH [of "ts @ [tk_loop_ns tk]" s1] m t(2) Cons.prems(2-4) by simp
  next
    case False
    then show ?thesis using m t(2) by simp
  qed
qed

section \<open>The average\<close>

lemma mean_depth_exact:
  assumes "unat (m_depth_area_ns m) = A" "unat (m_depth_time_ns m) = T" "A < 2 ^ 53" "T < 2 ^ 53"
  shows "mean_depth_time_averaged m = rnd (of_nat A / of_nat T)"
proof (cases "T = 0")
  case True
  then have "m_depth_time_ns m = 0" using assms(2) by (simp add: unat_eq_zero)
  then show ?thesis using True by (simp add: mean_depth_time_averaged_def)
next
  case False
  then have "m_depth_time_ns m \<noteq> 0" using assms(2) by auto
  then show ?thesis by (simp add: mean_depth_time_averaged_def fdiv_def f_of_u64_exact [OF assms(1,3)] f_of_u64_exact [OF assms(2,4)])
qed

context hot_queues begin

lemma loop_runs:
  assumes "ok frames" "co_max_sessions opt < kTombstone"
  shows "\<exists>s1 s. hot_turns io (hot_configure opt t0) tks (hot_start opt frames events m t1) = Some s1
    \<and> hot_finish io t2 s1 = Some s \<and> ok (hl_frames s1)"
proof -
  define s0 where "s0 = hot_start opt frames events m t1"
  have "inv (frame_balance pops s0) (event_balance sent s0) s0"
    using assms table_safe_new [OF assms(2)] by (simp add: hot_inv_def s0_def hot_start_def)
  from hot_turns_inv [OF this] obtain s1 where
    s1: "hot_turns io (hot_configure opt t0) tks s0 = Some s1" "inv (frame_balance pops s0) (event_balance sent s0) s1" by blast
  then show ?thesis using hot_finish_inv [OF s1(2)] by (auto simp: s0_def hot_inv_def)
qed

end

lemma finish_depth: "hot_finish io now s = Some s' \<Longrightarrow> depth_fields s' = depth_fields s \<and> hl_frames s' = hl_frames s"
  using emits_depth(1) [of io] by (auto simp: hot_finish_def depth_fields_def Let_def split: bind_splits)

context hot_queues begin

text \<open>The readings of the turns begun are the first ones, one more than there are depths when the deadline
  ended the loop.\<close>

lemma loop_begun:
  assumes "ok frames" "co_max_sessions opt < kTombstone" "metrics_new = Some m" "sorted (map tk_loop_ns tks)" "0 \<notin> tk_loop_ns ` set tks"
  obtains r where "hot_loop (measuring io) opt t0 t1 tks t2 (frames, []) (events, ()) m = Some r"
    "\<forall>d \<in> set (snd (hl_frames r)). d \<le> room" "begun (take (length (snd (hl_frames r)) + 1) (map tk_loop_ns tks)) r"
proof -
  define s0 where "s0 = hot_start opt (frames, [] :: nat list) (events, ()) m t1"
  obtain s1 r where r: "hot_turns (measuring io) (hot_configure opt t0) tks s0 = Some s1" "hot_finish (measuring io) t2 s1 = Some r"
      "ok (fst (hl_frames s1))" "\<forall>d \<in> set (snd (hl_frames s1)). d \<le> room"
    using hot_queues.loop_runs [OF measured_queues _ assms(2), of "(frames, [])"] assms(1) unfolding s0_def by fastforce
  have "measured [] s0"
    using metrics_new_zero [OF assms(3)] by (simp add: measured_def begun_def depth_fields_def s0_def hot_start_def)
  from turns_measured [OF this _ _ assms(5) r(1)] assms(4)
  have "begun (take (length (snd (hl_frames s1)) + 1) (map tk_loop_ns tks)) s1" by simp
  then show ?thesis using that [of r] r finish_depth [OF r(2)] by (simp add: hot_loop_def s0_def begun_def)
qed

lemma loop_measured:
  assumes run: "ok frames" "co_max_sessions opt < kTombstone" "metrics_new = Some m"
    and ticks: "sorted (map tk_loop_ns (tk # tks))" "tk_loop_ns tk \<noteq> 0"
    and small: "0 < room" "room * (unat (tk_loop_ns (last (tk # tks))) - unat (tk_loop_ns tk)) < 2 ^ 53"
  obtains r ds ts where "hot_loop (measuring io) opt t0 t1 (tk # tks) t2 (frames, []) (events, ()) m = Some r"
    "snd (hl_frames r) = ds" "map (\<lambda>tk. unat (tk_loop_ns tk)) (take (length ds + 1) (tk # tks)) = ts"
    "\<forall>d \<in> set ds. d \<le> room" "unat (m_depth_area_ns (hl_metrics r)) = depth_integral ds ts"
    "unat (m_depth_time_ns (hl_metrics r)) = last ts - hd ts"
    "depth_integral ds ts \<le> room * (last ts - hd ts)" "room * (last ts - hd ts) < 2 ^ 53"
proof -
  have nz: "0 \<notin> tk_loop_ns ` set (tk # tks)" using ticks by auto
  obtain r where r: "hot_loop (measuring io) opt t0 t1 (tk # tks) t2 (frames, []) (events, ()) m = Some r"
      "\<forall>d \<in> set (snd (hl_frames r)). d \<le> room" "begun (take (length (snd (hl_frames r)) + 1) (map tk_loop_ns (tk # tks))) r"
    by (rule loop_begun [OF run ticks(1) nz])
  define ds ws ts where "ds = snd (hl_frames r)" and "ws = take (length ds + 1) (map tk_loop_ns (tk # tks))" and "ts = map unat ws"
  have ne: "ws \<noteq> []" "ts \<noteq> []" "hd ws = tk_loop_ns tk" by (simp_all add: ws_def ts_def)
  have so: "sorted ws" unfolding ws_def by (rule sorted_wrt_take [OF ticks(1)])
  then have st: "sorted ts" by (simp add: ts_def sorted_map flip: word_le_nat_alt)
  have last: "last ws \<le> tk_loop_ns (last (tk # tks))"
  proof -
    have "last ws \<in> set (map tk_loop_ns (tk # tks))" using ne(1) unfolding ws_def by (metis in_set_takeD last_in_set)
    then show ?thesis using sorted_last_ge [OF ticks(1)] by (metis last_map list.distinct(1))
  qed
  have hl: "hd ts = unat (hd ws)" "last ts = unat (last ws)" "hd ws \<le> last ws"
    using ne(1) so by (auto simp: ts_def hd_map last_map hd_conv_nth last_conv_nth sorted_nth_mono)
  have b: "depth_fields r = (of_nat (depth_integral ds ts), last ws - hd ws, last ws)"
    using r(3) ne(1) unfolding begun_def ws_def [symmetric] ds_def [symmetric] ts_def [symmetric] by simp
  have T: "unat (last ws - hd ws) = last ts - hd ts" using hl by (simp add: unat_minus_le)
  have "last ts - hd ts \<le> unat (tk_loop_ns (last (tk # tks))) - unat (tk_loop_ns tk)"
    using last by (simp add: hl(1,2) ne(3) word_le_nat_alt diff_le_mono)
  then have small2: "room * (last ts - hd ts) < 2 ^ 53" using small(2) by (meson le_less_trans mult_left_mono le0)
  have le: "depth_integral ds ts \<le> room * (last ts - hd ts)"
    by (rule integral_bound) (use r(2) st ne(2) in \<open>simp_all add: ts_def ws_def ds_def\<close>)
  then have "depth_integral ds ts < 2 ^ 64" using small2 by simp
  then have "unat (of_nat (depth_integral ds ts) :: u64) = depth_integral ds ts" by (simp add: unat_of_nat_small)
  then show ?thesis
    using that [OF r(1) ds_def [symmetric]] r(2) b T le small2
    by (simp add: depth_fields_def ts_def ws_def ds_def take_map comp_def)
qed

end

section \<open>Property\<close>

text \<open>C38: The time-averaged depth of the report is an average over time. For any arrivals, drains and clock
  readings that do not run backwards: let each turn count the depth it found, 0 when its pop failed and the
  size of the ring after the pop otherwise, as a log beside the queue has it (the log does not change the
  run). The reported average is the integral of these depths, each from the reading of its turn to that of
  the next one, over the time from the first to the last reading, rounded once to a double; it lies between 0
  and the capacity. The capacity times the length of the run stays below \<open>2 ^ 53\<close> nanoseconds, which for the
  1024 slots of the frame ring is a run of two hours and 26 minutes.\<close>

theorem mean_depth_is_the_average:
  assumes "valid_capacity c" "\<forall>fs \<in> set arrivals. \<forall>f \<in> set fs. frame_ok f"
    "co_max_sessions opt < kTombstone" "metrics_new = Some m"
    and "sorted (map tk_loop_ns (tk # tks))" "tk_loop_ns tk \<noteq> 0"
    and "c * (unat (tk_loop_ns (last (tk # tks))) - unat (tk_loop_ns tk)) < 2 ^ 53"
  shows "\<exists>r ds ts. hot_loop (measuring shared_io) opt t0 t1 (tk # tks) t2
        ((ring_new c zero_frame, arrivals), []) ((ring_new d ev, drains), ()) m = Some r
    \<and> hot_loop shared_io opt t0 t1 (tk # tks) t2 (ring_new c zero_frame, arrivals) (ring_new d ev, drains) m = Some (forget r)
    \<and> snd (hl_frames r) = ds \<and> map (\<lambda>tk. unat (tk_loop_ns tk)) (take (length ds + 1) (tk # tks)) = ts \<and> (\<forall>d \<in> set ds. d \<le> c)
    \<and> unat (m_depth_area_ns (hl_metrics (forget r))) = depth_integral ds ts
    \<and> unat (m_depth_time_ns (hl_metrics (forget r))) = last ts - hd ts
    \<and> mean_depth_time_averaged (hl_metrics (forget r)) = rnd (of_nat (depth_integral ds ts) / of_nat (last ts - hd ts))
    \<and> 0 \<le> mean_depth_time_averaged (hl_metrics (forget r)) \<and> mean_depth_time_averaged (hl_metrics (forget r)) \<le> of_nat c"
proof -
  have c: "0 < c" using assms(1) by (simp add: valid_capacity_def)
  obtain r ds ts where r: "hot_loop (measuring shared_io) opt t0 t1 (tk # tks) t2
        ((ring_new c zero_frame, arrivals), []) ((ring_new d ev, drains), ()) m = Some r"
      "snd (hl_frames r) = ds" "map (\<lambda>tk. unat (tk_loop_ns tk)) (take (length ds + 1) (tk # tks)) = ts" "\<forall>d \<in> set ds. d \<le> c"
      "unat (m_depth_area_ns (hl_metrics r)) = depth_integral ds ts" "unat (m_depth_time_ns (hl_metrics r)) = last ts - hd ts"
      "depth_integral ds ts \<le> c * (last ts - hd ts)" "c * (last ts - hd ts) < 2 ^ 53"
    by (rule shared.loop_measured [OF frames_ok_new [OF assms(1,2)] assms(3-6) c assms(7)])
  have "hot_loop shared_io opt t0 t1 (tk # tks) t2 (ring_new c zero_frame, arrivals) (ring_new d ev, drains) m = Some (forget r)"
    using hot_loop_measured [of shared_io opt t0 t1 "tk # tks" t2 "((ring_new c zero_frame, arrivals), [])"
      "((ring_new d ev, drains), ())" m] r(1) by simp
  moreover have "last ts - hd ts < 2 ^ 53" using c r(8) by (metis Suc_leI le_less_trans mult_1 mult_le_mono1 One_nat_def)
  then have "mean_depth_time_averaged (hl_metrics r) = rnd (of_nat (depth_integral ds ts) / of_nat (last ts - hd ts))"
    using r(7,8) by (intro mean_depth_exact [OF r(5,6)]) simp_all
  moreover have "0 \<le> mean_depth_time_averaged (hl_metrics r)" "mean_depth_time_averaged (hl_metrics r) \<le> of_nat c"
    using mean_depth_le [of "hl_metrics r" c] r(5-8) by simp_all
  ultimately show ?thesis using r(1-6) unfolding forget_fields by blast
qed

theorem mean_depth_is_the_average_witness:
  "\<exists>m r. metrics_new = Some m
    \<and> hot_loop shared_io consumer_defaults 5 5
        [\<lparr>tk_loop_ns = 6, tk_dequeue_ns = 7, tk_done_ns = 8\<rparr>, \<lparr>tk_loop_ns = 9, tk_dequeue_ns = 9, tk_done_ns = 9\<rparr>] 9
        (ring_new 2 zero_frame, [[loud_frame 1]]) (ring_new 2 zero_event, []) m = Some r
    \<and> mean_depth_time_averaged (hl_metrics r) \<le> 2"
proof -
  define tk tk' where "tk = \<lparr>tk_loop_ns = 6, tk_dequeue_ns = 7, tk_done_ns = 8\<rparr>"
    and "tk' = \<lparr>tk_loop_ns = 9, tk_dequeue_ns = 9, tk_done_ns = 9\<rparr>"
  obtain m where m: "metrics_new = Some m" using metrics_new_ok by blast
  have c: "valid_capacity 2" using valid_capacity_pow2_iff [of 1] by simp
  have a: "\<forall>fs \<in> set [[loud_frame 1]]. \<forall>f \<in> set fs. frame_ok f" using sample_frames_ok by simp
  have k: "co_max_sessions consumer_defaults < kTombstone" by (simp add: consumer_defaults_def kTombstone_def)
  have t: "sorted (map tk_loop_ns [tk, tk'])" "tk_loop_ns tk \<noteq> 0"
    "2 * (unat (tk_loop_ns (last [tk, tk'])) - unat (tk_loop_ns tk)) < 2 ^ 53"
    by (simp_all add: tk_def tk'_def)
  from mean_depth_is_the_average [OF c a k m t, of 5 5 9 2 zero_event "[]"]
  show ?thesis using m unfolding tk_def tk'_def by auto
qed

end
