(* ===== verification/Producer_Main.thy ===== *)
theory Producer_Main
  imports Producer_Props Pipeline Report
begin

text \<open>
  The producer as a whole, \<open>main\<close> of \<open>src/vhp_producer.cpp\<close>: the command line, the size check, opening the
  sink, the paced loop, the closing lines, and what is left behind: the bytes on the socket, or the ring
  and the name of its segment. What the consumer takes between two pushes and what the kernel answers are
  inputs; the end of the ticks is \<open>g_running\<close> turning false.
\<close>

definition producer_usage :: "string \<Rightarrow> string" where
  "producer_usage argv0 =
    ''usage: '' @ argv0 @ '' [options]'' @ newline
    @ ''  sink:      --shm-frames NAME | --uds PATH   (--create to make the shm ring)'' @ newline
    @ ''  load:      --sessions N    concurrent calls, one frame each per tick'' @ newline
    @ ''  signal:    --seconds F --speech-ms F --gap-ms F --amplitude F --noise F --seed N'' @ newline
    @ ''             --word-gap-ms F --word-every-ms F   (inter-word pauses inside an'' @ newline
    @ ''             utterance; a hangover shorter than word-gap-ms will falsely cut it)'' @ newline
    @ ''  format:    --rate HZ --mulaw --frame-ms F'' @ newline
    @ ''  stalls:    --stall-every-ms F --stall-ms F   (emulate a GC pause on the send path)'' @ newline
    @ ''  placement: --core N --spin'' @ newline"

record producer_world =
  qw_start_ns :: u64
  qw_ticks :: "producer_tick list"
  qw_socket :: bool
  qw_connect :: "nat \<Rightarrow> bool"
  qw_accepts :: "nat list"
  qw_shm :: sys_answers
  qw_pops :: "nat list"
  qw_layout_bytes :: nat

text \<open>The result: exit status, last text on the error stream, bytes on the socket, frames the consumer took.\<close>

record producer_result =
  qr_code :: int
  qr_stderr :: string
  qr_stream :: "u8 list"
  qr_taken :: "audio_frame list"

abbreviation early_exit :: "int \<Rightarrow> string \<Rightarrow> producer_result" where
  "early_exit code text \<equiv> \<lparr>qr_code = code, qr_stderr = text, qr_stream = [], qr_taken = []\<rparr>"

definition oversize_text :: "u64 \<Rightarrow> string" where
  "oversize_text bytes = ''frame of '' @ dec_u bytes @ '' B exceeds the '' @ decimal kFramePayloadBytes @ '' B slot payload'' @ newline"

definition closing_of :: "production \<Rightarrow> 'k producer \<Rightarrow> string" where
  "closing_of pn s = producer_closing (pn_options pn) (pn_total pn) (pd_pacing s) (pd_dropped s)"

text \<open>Opening the segment: created under the name, or attached to.\<close>

definition open_segment :: "producer_options \<Rightarrow> producer_world \<Rightarrow> audio_frame shm_names \<Rightarrow> audio_frame shm_names \<times> (shm_error + shm_handle)" where
  "open_segment opt w names =
    (let p = frame_params (qw_layout_bytes w)
     in if po_create_shm opt then shm_create p (qw_shm w) (po_frame_shm opt) True names
        else (names, shm_attach p (qw_shm w) (po_frame_shm opt) names))"

text \<open>The ring behind a handle, and the object after the run.\<close>

definition ring_behind :: "shm_handle \<Rightarrow> audio_frame shm_names \<Rightarrow> audio_frame ring option" where
  "ring_behind h names = map_option (\<lambda>obj. sh_ring (so_layout obj)) (names (sr_name h))"

definition store_ring :: "shm_handle \<Rightarrow> audio_frame ring \<Rightarrow> audio_frame shm_names \<Rightarrow> audio_frame shm_names" where
  "store_ring h r names =
    (case names (sr_name h) of None \<Rightarrow> names
     | Some obj \<Rightarrow> names(sr_name h \<mapsto> obj\<lparr>so_layout := (so_layout obj)\<lparr>sh_ring := r\<rparr>\<rparr>))"

definition produce_to_socket :: "producer_world \<Rightarrow> production \<Rightarrow> producer_result option" where
  "produce_to_socket w pn = do {
     s \<leftarrow> produce uds_send pn (qw_ticks w) \<lparr>us_accepts = qw_accepts w, us_stream = []\<rparr>;
     Some \<lparr>qr_code = 0, qr_stderr = closing_of pn s, qr_stream = us_stream (pd_sink s), qr_taken = []\<rparr>
   }"

definition produce_to_ring :: "producer_world \<Rightarrow> production \<Rightarrow> shm_handle \<Rightarrow> audio_frame shm_names
    \<Rightarrow> (producer_result \<times> audio_frame shm_names) option" where
  "produce_to_ring w pn h names = do {
     r \<leftarrow> ring_behind h names;
     s \<leftarrow> produce link_send pn (qw_ticks w) \<lparr>sl_ring = r, sl_pops = qw_pops w, sl_taken = []\<rparr>;
     Some (\<lparr>qr_code = 0, qr_stderr = closing_of pn s, qr_stream = [], qr_taken = sl_taken (pd_sink s)\<rparr>,
       shm_destroy h (store_ring h (sl_ring (pd_sink s)) names))
   }"

text \<open>The plan is read once the sink is open; without one the number of frames is undefined.\<close>

definition planned :: "(nat + production) option \<Rightarrow> production option" where
  "planned plan = (case plan of Some (Inr pn) \<Rightarrow> Some pn | _ \<Rightarrow> None)"

definition producer_main :: "string \<Rightarrow> (producer_flag \<times> string) list \<Rightarrow> producer_world \<Rightarrow> audio_frame shm_names
    \<Rightarrow> (producer_result \<times> audio_frame shm_names) option" where
  "producer_main argv0 args w names =
    (case producer_parse_args args of
       None \<Rightarrow> Some (early_exit 2 (producer_usage argv0), names)
     | Some opt \<Rightarrow>
         (case plan_production opt (qw_start_ns w) of
            Some (Inl code) \<Rightarrow> Some (early_exit (int code) (oversize_text (payload_bytes opt (samples_per_frame opt))), names)
          | plan \<Rightarrow>
              if po_uds_path opt \<noteq> [] then
                (if \<not> qw_socket w then Some (early_exit 1 ''socket'', names)
                 else if \<not> connect_uds True (qw_connect w) then Some (early_exit 1 ''connect'', names)
                 else do { pn \<leftarrow> planned plan; r \<leftarrow> produce_to_socket w pn; Some (r, names) })
              else
                (case open_segment opt w names of
                   (names, Inl e) \<Rightarrow> Some (early_exit 1 (''[prod] '' @ what (po_frame_shm opt) e @ newline), names)
                 | (names, Inr h) \<Rightarrow> do { pn \<leftarrow> planned plan; produce_to_ring w pn h names })))"

end
