(* ===== verification/Producer_Main_Props.thy ===== *)
theory Producer_Main_Props
  imports Producer_Main
begin

text \<open>
  What a run of the producer leaves behind: over shared memory every frame is accounted for, in the text it
  prints and in the segment; and the ways a run fails.
\<close>

section \<open>The segment of a run\<close>

text \<open>A segment the producer can use: what \<open>open_segment\<close> hands out when the ring in it is consistent.\<close>

definition usable_ring :: "audio_frame ring \<Rightarrow> bool" where
  "usable_ring r \<longleftrightarrow> ring_wf r \<and> length (rg_slots r) = kFrameRingCapacity"

lemma create_segment:
  assumes "po_create_shm opt" "open_segment opt w names = (names', Inr h)"
  shows "h = \<lparr>sr_name = po_frame_shm opt, sr_mapped = True, sr_unlink = True\<rparr>"
    "ring_behind h names' = Some (ring_new kFrameRingCapacity zero_frame)"
    "shm_destroy h (store_ring h r names') = names(po_frame_shm opt := None)"
  using assms
  by (auto simp: open_segment_def shm_create_def ring_behind_def store_ring_def shm_destroy_def Let_def frame_params_ring split: if_splits)

lemma attach_segment:
  assumes "\<not> po_create_shm opt" "open_segment opt w names = (names', Inr h)"
  obtains obj where "names (po_frame_shm opt) = Some obj" "names' = names" "h = \<lparr>sr_name = po_frame_shm opt, sr_mapped = True, sr_unlink = False\<rparr>"
    "shm_destroy h (store_ring h r names') = names(po_frame_shm opt \<mapsto> obj\<lparr>so_layout := (so_layout obj)\<lparr>sh_ring := r\<rparr>\<rparr>)"
proof -
  have a: "names' = names" "shm_attach (frame_params (qw_layout_bytes w)) (qw_shm w) (po_frame_shm opt) names = Inr h"
    using assms by (auto simp: open_segment_def Let_def)
  then obtain obj where obj: "names (po_frame_shm opt) = Some obj" by (auto simp: shm_attach_def split: option.splits if_splits)
  have h: "h = \<lparr>sr_name = po_frame_shm opt, sr_mapped = True, sr_unlink = False\<rparr>"
    using a(2) by (simp add: shm_attach_def obj Let_def split: if_splits)
  note o = obj a(1) h
  have "shm_destroy h (store_ring h r names') = names(po_frame_shm opt \<mapsto> obj\<lparr>so_layout := (so_layout obj)\<lparr>sh_ring := r\<rparr>\<rparr>)"
    using o by (simp add: store_ring_def shm_destroy_def)
  from that [OF o this] show ?thesis .
qed

text \<open>The loop on a ring that may already hold frames.\<close>

lemma ring_run:
  assumes "sound_production pn" "length tks < 2 ^ 64" "usable_ring r"
  obtains all s where "produce collect pn tks [] = Some all"
    "produce link_send pn tks \<lparr>sl_ring = r, sl_pops = pops, sl_taken = []\<rparr> = Some s" "usable_ring (sl_ring (pd_sink s))"
    "\<exists>gs. sl_taken (pd_sink s) @ ring_items (sl_ring (pd_sink s)) = ring_items r @ gs \<and> subseq gs (pd_sink all)
      \<and> pd_dropped s + of_nat (length gs) = of_nat (length (pd_sink all))"
proof -
  obtain all where all: "produce collect pn tks [] = Some all" by (rule produced_frames [OF assms(1,2)])
  have "link_carries kFrameRingCapacity \<lparr>sl_ring = r, sl_pops = pops, sl_taken = []\<rparr> (ring_items r)"
    using assms(3) by (simp add: link_carries_def usable_ring_def)
  from link.produce_outcome [OF all this] obtain s go gs where
    s: "produce link_send pn tks \<lparr>sl_ring = r, sl_pops = pops, sl_taken = []\<rparr> = Some s"
      "outcome (link_carries kFrameRingCapacity) (\<lambda>_ _ _. False) 0 (ring_items r) go s all gs (pd_sink all)"
    by blast
  have go using s(2) by (auto simp: outcome_def split: if_splits)
  then show ?thesis using that [OF all s(1)] s(2) by (auto simp: outcome_def link_carries_def usable_ring_def)
qed

lemma plan_sound:
  assumes "plan_production opt start = Some (Inr pn)" "\<bar>po_speech_amplitude opt\<bar> \<le> 1" "\<bar>po_noise_floor opt\<bar> \<le> 1"
    "unat (samples_per_frame opt) < 2 ^ 63"
  shows "sound_production pn" "pn_options pn = opt"
proof -
  define n where "n = unat (samples_per_frame opt)"
  have b: "bytes_per_sample (po_format opt) = 1 \<or> bytes_per_sample (po_format opt) = 2" by (simp add: bytes_per_sample_def)
  then have "n * bytes_per_sample (po_format opt) < 2 ^ 64" using assms(4) by (auto simp: n_def)
  then have "unat (payload_bytes opt (samples_per_frame opt)) = n * bytes_per_sample (po_format opt)"
    using b by (auto simp: payload_bytes_def n_def unat_word_ariths(2))
  then have p: "n * bytes_per_sample (po_format opt) \<le> kFramePayloadBytes" "pn_options pn = opt" "unat (pn_samples pn) = n"
    using assms(1) by (auto simp: plan_production_def Let_def word_le_nat_alt kFramePayloadBytes_def n_def not_less split: if_splits)
  then show "sound_production pn" "pn_options pn = opt" using assms(2,3) by (simp_all add: sound_production_def)
qed

text \<open>A sink that never sheds leaves the drop counter alone.\<close>

lemma sessions_dropped:
  assumes "\<And>k f. snd (send k f) \<noteq> Shed" "produce_sessions send pn tk seq ids s = Some (s', go)"
  shows "pd_dropped s' = pd_dropped s"
  using assms(2)
proof (induction ids arbitrary: s)
  case (Cons i ids)
  obtain rng f where m: "make_frame pn seq i (pt_produce_ns tk i) (pd_frame s) (pd_rng s) = Some (rng, f)"
    using Cons.prems by (auto split: bind_splits)
  obtain k r where "send (pd_sink s) f = (k, r)" by (cases "send (pd_sink s) f")
  then show ?case using Cons.IH Cons.prems m assms(1) [of "pd_sink s" f] by (cases r) auto
qed simp

lemma turns_dropped:
  assumes "\<And>k f. snd (send k f) \<noteq> Shed" "produce_turns send pn seq tks s = Some s'"
  shows "pd_dropped s' = pd_dropped s"
  using assms(2)
proof (induction tks arbitrary: seq s)
  case (Cons tk tks)
  show ?case
  proof (cases "seq < pn_total pn")
    case True
    then obtain s1 go where t: "produce_turn send pn tk seq s = Some (s1, go)"
        "(if go then produce_turns send pn (seq + 1) tks s1 else Some s1) = Some s'"
      using Cons.prems by (auto split: bind_splits)
    have "pd_dropped s1 = pd_dropped s"
      using sessions_dropped [OF assms(1)] t(1) by (fastforce simp: produce_turn_def enter_same)
    then show ?thesis using Cons.IH t(2) by (auto split: if_splits)
  qed (use Cons.prems in simp)
qed simp

lemma uds_dropped:
  assumes "produce uds_send pn tks k = Some s"
  shows "pd_dropped s = 0"
proof -
  have "snd (uds_send k f) \<noteq> Shed" for k f by (simp add: uds_send_def split_def Let_def)
  moreover obtain s0 where "producer_start pn k = Some s0" "produce_turns uds_send pn 0 tks s0 = Some s"
    using assms by (auto simp: produce_def split: bind_splits)
  moreover from this(1) have "pd_dropped s0 = 0" by (auto simp: producer_start_def Let_def)
  ultimately show ?thesis using turns_dropped [of uds_send pn 0 tks s0 s] by simp
qed

text \<open>No more bytes get onto the stream than the kernel accepts.\<close>

lemma sessions_sink:
  assumes "\<And>k f. P k \<Longrightarrow> P (fst (send k f))" "produce_sessions send pn tk seq ids s = Some (s', go)" "P (pd_sink s)"
  shows "P (pd_sink s')"
  using assms(2,3)
proof (induction ids arbitrary: s)
  case (Cons i ids)
  obtain rng f where m: "make_frame pn seq i (pt_produce_ns tk i) (pd_frame s) (pd_rng s) = Some (rng, f)"
    using Cons.prems by (auto split: bind_splits)
  obtain k r where k: "send (pd_sink s) f = (k, r)" by (cases "send (pd_sink s) f")
  have "P k" using assms(1) [OF Cons.prems(2), of f] k by simp
  then show ?case using Cons.IH Cons.prems(1) m k by (cases r) auto
qed simp

lemma turns_sink:
  assumes "\<And>k f. P k \<Longrightarrow> P (fst (send k f))" "produce_turns send pn seq tks s = Some s'" "P (pd_sink s)"
  shows "P (pd_sink s')"
  using assms(2,3)
proof (induction tks arbitrary: seq s)
  case (Cons tk tks)
  show ?case
  proof (cases "seq < pn_total pn")
    case True
    then obtain s1 go where t: "produce_turn send pn tk seq s = Some (s1, go)"
        "(if go then produce_turns send pn (seq + 1) tks s1 else Some s1) = Some s'"
      using Cons.prems by (auto split: bind_splits)
    have "P (pd_sink (inject_stall pn tk (note_pacing pn tk seq s)))" using Cons.prems(2) by (simp add: enter_same)
    from sessions_sink [where P = P, OF _ t(1) [unfolded produce_turn_def] this] have "P (pd_sink s1)" using assms(1) by blast
    then show ?thesis using Cons.IH t(2) by (auto split: if_splits)
  qed (use Cons.prems in simp)
qed simp

lemma write_all_bound:
  "length (us_stream (fst (write_all accepts stream bs))) + sum_list (us_accepts (fst (write_all accepts stream bs)))
    \<le> length stream + sum_list accepts"
proof (induction accepts stream bs rule: write_all.induct)
  case (3 n accepts stream b bs)
  then show ?case by (cases n) auto
qed auto

lemma stream_bound:
  assumes "produce uds_send pn tks \<lparr>us_accepts = accepts, us_stream = []\<rparr> = Some s"
  shows "length (us_stream (pd_sink s)) \<le> sum_list accepts"
proof -
  define P where "P = (\<lambda>k :: uds_sink. length (us_stream k) + sum_list (us_accepts k) \<le> sum_list accepts)"
  have send: "P k \<Longrightarrow> P (fst (uds_send k f))" for k f
    using write_all_bound [of "us_accepts k" "us_stream k" "wire_bytes f"] by (simp add: P_def uds_send_def split_def Let_def)
  obtain s0 where s0: "producer_start pn \<lparr>us_accepts = accepts, us_stream = []\<rparr> = Some s0" "produce_turns uds_send pn 0 tks s0 = Some s"
    using assms by (auto simp: produce_def split: bind_splits)
  have "P (pd_sink s0)" using s0(1) by (auto simp: P_def producer_start_def Let_def)
  from turns_sink [of P uds_send, OF send s0(2) this] show ?thesis by (simp add: P_def)
qed

text \<open>A run over the socket, however far the connection carries it.\<close>

lemma socket_run:
  assumes "producer_parse_args args = Some opt" "plan_production opt (qw_start_ns w) = Some (Inr pn)"
    "\<bar>po_speech_amplitude opt\<bar> \<le> 1" "\<bar>po_noise_floor opt\<bar> \<le> 1" "unat (samples_per_frame opt) < 2 ^ 63" "length (qw_ticks w) < 2 ^ 64"
    "po_uds_path opt \<noteq> []" "qw_socket w" "\<exists>i < 50. qw_connect w i"
  shows "\<exists>res all gs part pacing. producer_main argv args w names = Some (res, names) \<and> qr_code res = 0
    \<and> qr_stderr res = producer_closing opt (pn_total pn) pacing 0
    \<and> produce collect pn (qw_ticks w) [] = Some all \<and> prefix gs (pd_sink all)
    \<and> qr_stream res = concat (map wire_bytes gs) @ part \<and> waiting part \<and> length (qr_stream res) \<le> sum_list (qw_accepts w)"
proof -
  note sound = plan_sound [OF assms(2-5)]
  obtain all where all: "produce collect pn (qw_ticks w) [] = Some all" "\<forall>f \<in> set (pd_sink all). frame_ok f"
    by (rule produced_frames [OF sound(1) assms(6)])
  obtain s gs part where s: "produce uds_send pn (qw_ticks w) \<lparr>us_accepts = qw_accepts w, us_stream = []\<rparr> = Some s"
      "us_stream (pd_sink s) = concat (map wire_bytes gs) @ part" "waiting part" "prefix gs (pd_sink all)"
    by (rule socket_stream [OF all, of "qw_accepts w"]) blast
  define res where "res = \<lparr>qr_code = 0, qr_stderr = closing_of pn s, qr_stream = us_stream (pd_sink s), qr_taken = []\<rparr>"
  have "connect_uds True (qw_connect w)" using assms(9) by (auto simp: connect_uds_def list_ex_iff)
  then have run: "producer_main argv args w names = Some (res, names)"
    using assms(1,2,7,8) s(1) by (simp add: producer_main_def planned_def produce_to_socket_def res_def)
  have said: "qr_code res = 0" "qr_stderr res = producer_closing opt (pn_total pn) (pd_pacing s) 0"
      "qr_stream res = concat (map wire_bytes gs) @ part" "length (qr_stream res) \<le> sum_list (qw_accepts w)"
    using uds_dropped [OF s(1)] s(2) stream_bound [OF s(1)] by (simp_all add: res_def closing_of_def sound(2))
  show ?thesis by (intro exI conjI) (rule run said(1,2) all(1) s(4) said(3) s(3) said(4))+
qed

section \<open>Properties\<close>

text \<open>C14: A run of the producer over shared memory accounts for every frame: when the segment can be opened (and
  an existing one holds a consistent ring), \<open>main\<close> returns 0; the frames the consumer took, with those left
  in the ring, are those that were there before followed by generated ones in order and unaltered; the
  closing text reports as dropped exactly the others. A segment it attached to is left with the remaining
  frames in it, one it created is gone.\<close>

theorem producer_main_accounts:
  assumes "producer_parse_args args = Some opt" "plan_production opt (qw_start_ns w) = Some (Inr pn)"
    "\<bar>po_speech_amplitude opt\<bar> \<le> 1" "\<bar>po_noise_floor opt\<bar> \<le> 1" "unat (samples_per_frame opt) < 2 ^ 63" "length (qw_ticks w) < 2 ^ 64"
    "po_uds_path opt = []" "open_segment opt w names = (names', Inr h)" "ring_behind h names' = Some r" "usable_ring r"
  shows "\<exists>res final all left gs d pacing. producer_main argv args w names = Some (res, final) \<and> qr_code res = 0
    \<and> produce collect pn (qw_ticks w) [] = Some all
    \<and> qr_taken res @ ring_items left = ring_items r @ gs \<and> subseq gs (pd_sink all)
    \<and> qr_stderr res = producer_closing opt (pn_total pn) pacing d \<and> d + of_nat (length gs) = of_nat (length (pd_sink all))
    \<and> (if po_create_shm opt then final = names(po_frame_shm opt := None)
       else map_option (\<lambda>obj. sh_ring (so_layout obj)) (final (po_frame_shm opt)) = Some left)"
proof -
  note sound = plan_sound [OF assms(2-5)]
  obtain all s where s: "produce collect pn (qw_ticks w) [] = Some all"
      "produce link_send pn (qw_ticks w) \<lparr>sl_ring = r, sl_pops = qw_pops w, sl_taken = []\<rparr> = Some s"
      "\<exists>gs. sl_taken (pd_sink s) @ ring_items (sl_ring (pd_sink s)) = ring_items r @ gs \<and> subseq gs (pd_sink all)
        \<and> pd_dropped s + of_nat (length gs) = of_nat (length (pd_sink all))"
    by (rule ring_run [OF sound(1) assms(6,10)])
  define res where "res = \<lparr>qr_code = 0, qr_stderr = closing_of pn s, qr_stream = [], qr_taken = sl_taken (pd_sink s)\<rparr>"
  define last_names where "last_names = shm_destroy h (store_ring h (sl_ring (pd_sink s)) names')"
  have run: "producer_main argv args w names = Some (res, last_names)"
    using assms(1,2,7-9) s(2)
    by (simp add: producer_main_def planned_def produce_to_ring_def res_def last_names_def)
  have kept: "if po_create_shm opt then last_names = names(po_frame_shm opt := None)
       else map_option (\<lambda>obj. sh_ring (so_layout obj)) (last_names (po_frame_shm opt)) = Some (sl_ring (pd_sink s))"
  proof (cases "po_create_shm opt")
    case True
    then show ?thesis using create_segment(3) [OF _ assms(8)] by (simp add: last_names_def)
  next
    case False
    obtain obj where "last_names = names(po_frame_shm opt \<mapsto> obj\<lparr>so_layout := (so_layout obj)\<lparr>sh_ring := sl_ring (pd_sink s)\<rparr>\<rparr>)"
      unfolding last_names_def by (rule attach_segment [OF False assms(8), of "sl_ring (pd_sink s)"])
    then show ?thesis using False by simp
  qed
  obtain gs where gs: "sl_taken (pd_sink s) @ ring_items (sl_ring (pd_sink s)) = ring_items r @ gs" "subseq gs (pd_sink all)"
      "pd_dropped s + of_nat (length gs) = of_nat (length (pd_sink all))"
    using s(3) by blast
  have said: "qr_code res = 0" "qr_stderr res = producer_closing opt (pn_total pn) (pd_pacing s) (pd_dropped s)"
      "qr_taken res = sl_taken (pd_sink s)"
    by (simp_all add: res_def closing_of_def sound(2))
  have taken: "qr_taken res @ ring_items (sl_ring (pd_sink s)) = ring_items r @ gs" unfolding said(3) by (rule gs(1))
  show ?thesis by (intro exI conjI) (rule run said(1) s(1) taken gs(2) said(2) gs(3) kept)+
qed

definition sample_producer_world :: producer_world where
  "sample_producer_world = \<lparr>qw_start_ns = 5, qw_ticks = [\<lparr>pt_woke_ns = 6, pt_resume_ns = 7, pt_produce_ns = (\<lambda>_. 8)\<rparr>],
     qw_socket = True, qw_connect = (\<lambda>_. False), qw_accepts = [], qw_shm = all_succeed, qw_pops = [], qw_layout_bytes = 200000\<rparr>"

theorem producer_main_accounts_witness:
  "\<exists>res final. producer_main ''vhp'' [(PCreate, [])] sample_producer_world Map.empty = Some (res, final) \<and> qr_code res = 0
    \<and> final = Map.empty"
proof -
  define w where "w = sample_producer_world"
  define opt where "opt = producer_defaults\<lparr>po_create_shm := True\<rparr>"
  have parse: "producer_parse_args [(PCreate, [])] = Some opt" by (simp add: producer_parse_args_def opt_def)
  have n: "samples_per_frame opt = samples_per_frame producer_defaults" by (simp add: samples_per_frame_def opt_def)
  have "payload_bytes opt 480 = 960" "po_frame_ms opt \<noteq> 0"
    by (simp_all add: payload_bytes_def opt_def producer_defaults_def bytes_per_sample_def)
  then obtain pn where plan: "plan_production opt (qw_start_ns w) = Some (Inr pn)"
    by (simp add: plan_production_def n default_samples kFramePayloadBytes_def)
  have amp: "\<bar>po_speech_amplitude opt\<bar> \<le> 1" "\<bar>po_noise_floor opt\<bar> \<le> 1" using default_amplitudes by (simp_all add: opt_def)
  have small: "unat (samples_per_frame opt) < 2 ^ 63" "length (qw_ticks w) < 2 ^ 64"
    by (simp_all add: n default_samples w_def sample_producer_world_def)
  have uds: "po_uds_path opt = []" by (simp add: opt_def producer_defaults_def)
  have create: "po_create_shm opt" by (simp add: opt_def)
  obtain names h where seg: "open_segment opt w Map.empty = (names, Inr h)"
    using create by (simp add: open_segment_def w_def sample_producer_world_def shm_create_def all_succeed_def Let_def)
  have "usable_ring (ring_new kFrameRingCapacity zero_frame)"
    by (simp add: usable_ring_def op_simps)
  from producer_main_accounts [OF parse plan amp small uds seg create_segment(2) [OF create seg] this, of "''vhp''"] create
  show ?thesis unfolding w_def by auto
qed

text \<open>C15: How a run of the producer fails: a frame larger than a slot ends it with status 2 before anything is
  opened, and an unreachable socket or a missing segment with status 1, all of them leaving the names alone.
  A connection that breaks later is not a failure: once connected, and however few bytes the kernel takes before
  it breaks, none included, the run ends with status 0 and a closing text that claims every planned frame and no
  drops, while the stream holds a prefix of the frames and at most a piece of one more.\<close>

theorem producer_main_failures:
  assumes "producer_parse_args args = Some opt"
  shows "(payload_bytes opt (samples_per_frame opt) > of_nat kFramePayloadBytes \<longrightarrow>
      producer_main argv args w names = Some (early_exit 2 (oversize_text (payload_bytes opt (samples_per_frame opt))), names))
    \<and> (\<not> payload_bytes opt (samples_per_frame opt) > of_nat kFramePayloadBytes \<and> po_uds_path opt \<noteq> []
        \<and> \<not> (qw_socket w \<and> (\<exists>i < 50. qw_connect w i)) \<longrightarrow>
      (\<exists>call. producer_main argv args w names = Some (early_exit 1 call, names)))
    \<and> (\<not> payload_bytes opt (samples_per_frame opt) > of_nat kFramePayloadBytes \<and> po_uds_path opt = []
        \<and> \<not> po_create_shm opt \<and> names (po_frame_shm opt) = None \<longrightarrow>
      producer_main argv args w names
        = Some (early_exit 1 (''[prod] shm_open(attach) '' @ po_frame_shm opt @ newline), names))
    \<and> (plan_production opt (qw_start_ns w) = Some (Inr pn) \<and> \<bar>po_speech_amplitude opt\<bar> \<le> 1 \<and> \<bar>po_noise_floor opt\<bar> \<le> 1
        \<and> unat (samples_per_frame opt) < 2 ^ 63 \<and> length (qw_ticks w) < 2 ^ 64
        \<and> po_uds_path opt \<noteq> [] \<and> qw_socket w \<and> (\<exists>i < 50. qw_connect w i) \<longrightarrow>
      (\<exists>res all gs part pacing. producer_main argv args w names = Some (res, names) \<and> qr_code res = 0
        \<and> qr_stderr res = producer_closing opt (pn_total pn) pacing 0
        \<and> produce collect pn (qw_ticks w) [] = Some all \<and> prefix gs (pd_sink all)
        \<and> qr_stream res = concat (map wire_bytes gs) @ part \<and> waiting part \<and> length (qr_stream res) \<le> sum_list (qw_accepts w)))"
    (is "(?large \<longrightarrow> ?refused) \<and> (?unheard \<longrightarrow> ?alone) \<and> (?missing \<longrightarrow> ?error) \<and> (?connected \<longrightarrow> ?claims)")
proof (intro conjI impI)
  have plan: "plan_production opt t = (if ?large then Some (Inl 2) else plan_production opt t)" for t
    by (simp add: plan_production_def Let_def)
  have fits: "\<nexists>code. plan_production opt t = Some (Inl code)" if "\<not> ?large" for t
    using that by (simp add: plan_production_def Let_def)
  show ?refused if ?large
    using plan [of "qw_start_ns w"] that by (simp add: producer_main_def assms)
  show ?alone if ?unheard
    using that fits [of "qw_start_ns w"]
    by (auto simp: producer_main_def assms connect_uds_def list_ex_iff split: option.split sum.split)
  show ?error if ?missing
    using that fits [of "qw_start_ns w"]
    by (auto simp: producer_main_def assms open_segment_def shm_attach_def throw_errno_def split: option.split sum.split)
  show ?claims if c: ?connected
    by (rule socket_run [OF assms]) (use c in blast)+
qed

text \<open>An unreachable socket, a missing segment, and a connection that breaks after 30 bytes, less than one header:
  status 0, and a text that claims all frames.\<close>

theorem producer_main_failures_witness:
  "(\<exists>call. producer_main ''vhp'' [(PUds, ''/s'')] sample_producer_world Map.empty = Some (early_exit 1 call, Map.empty))
    \<and> producer_main ''vhp'' [] sample_producer_world Map.empty
      = Some (early_exit 1 (''[prod] shm_open(attach) '' @ kDefaultFrameShm @ newline), Map.empty)
    \<and> (\<exists>res pn pacing. plan_production (producer_defaults\<lparr>po_uds_path := ''/s''\<rparr>) 5 = Some (Inr pn)
        \<and> producer_main ''vhp'' [(PUds, ''/s'')] (sample_producer_world\<lparr>qw_connect := (\<lambda>i. i = 3), qw_accepts := [20, 10]\<rparr>) Map.empty
          = Some (res, Map.empty)
        \<and> qr_code res = 0 \<and> length (qr_stream res) \<le> 30
        \<and> qr_stderr res = producer_closing (producer_defaults\<lparr>po_uds_path := ''/s''\<rparr>) (pn_total pn) pacing 0)"
proof (intro conjI)
  define opt where "opt = producer_defaults\<lparr>po_uds_path := ''/s''\<rparr>"
  have n: "samples_per_frame opt = 480" using default_samples by (simp add: samples_per_frame_def opt_def)
  have fits: "\<not> payload_bytes opt (samples_per_frame opt) > of_nat kFramePayloadBytes"
    unfolding n by (simp add: payload_bytes_def opt_def producer_defaults_def bytes_per_sample_def kFramePayloadBytes_def)
  have parse: "producer_parse_args [(PUds, ''/s'')] = Some opt" and uds: "po_uds_path opt \<noteq> []"
    by (simp_all add: producer_parse_args_def opt_def)
  have "\<not> (qw_socket sample_producer_world \<and> (\<exists>i < 50. qw_connect sample_producer_world i))" by (simp add: sample_producer_world_def)
  then show "\<exists>call. producer_main ''vhp'' [(PUds, ''/s'')] sample_producer_world Map.empty = Some (early_exit 1 call, Map.empty)"
    using producer_main_failures [OF parse] fits uds by blast
  define w where "w = sample_producer_world\<lparr>qw_connect := (\<lambda>i. i = 3), qw_accepts := [20, 10]\<rparr>"
  have "po_frame_ms opt \<noteq> 0" by (simp add: opt_def producer_defaults_def)
  then obtain pn where plan: "plan_production opt (qw_start_ns w) = Some (Inr pn)"
    using fits by (simp add: plan_production_def Let_def)
  have amp: "\<bar>po_speech_amplitude opt\<bar> \<le> 1" "\<bar>po_noise_floor opt\<bar> \<le> 1" using default_amplitudes by (simp_all add: opt_def)
  have world: "unat (samples_per_frame opt) < 2 ^ 63" "length (qw_ticks w) < 2 ^ 64" "qw_socket w" "\<exists>i < 50. qw_connect w i" "sum_list (qw_accepts w) = 30"
    by (auto simp: n w_def sample_producer_world_def)
  obtain res pacing where "producer_main ''vhp'' [(PUds, ''/s'')] w Map.empty = Some (res, Map.empty)" "qr_code res = 0"
      "qr_stderr res = producer_closing opt (pn_total pn) pacing 0" "length (qr_stream res) \<le> 30"
    using producer_main_failures [OF parse, of "''vhp''" w Map.empty pn] plan amp world uds by auto
  then show "\<exists>res pn pacing. plan_production (producer_defaults\<lparr>po_uds_path := ''/s''\<rparr>) 5 = Some (Inr pn)
        \<and> producer_main ''vhp'' [(PUds, ''/s'')] (sample_producer_world\<lparr>qw_connect := (\<lambda>i. i = 3), qw_accepts := [20, 10]\<rparr>) Map.empty
          = Some (res, Map.empty)
        \<and> qr_code res = 0 \<and> length (qr_stream res) \<le> 30
        \<and> qr_stderr res = producer_closing (producer_defaults\<lparr>po_uds_path := ''/s''\<rparr>) (pn_total pn) pacing 0"
    using plan unfolding opt_def w_def by (auto simp: sample_producer_world_def)
next
  have "\<not> payload_bytes producer_defaults (samples_per_frame producer_defaults) > of_nat kFramePayloadBytes"
    unfolding default_samples by (simp add: payload_bytes_def producer_defaults_def bytes_per_sample_def kFramePayloadBytes_def)
  moreover have "producer_parse_args [] = Some producer_defaults" by (simp add: producer_parse_args_def)
  moreover have "po_uds_path producer_defaults = []" "\<not> po_create_shm producer_defaults" "po_frame_shm producer_defaults = kDefaultFrameShm"
    by (simp_all add: producer_defaults_def)
  ultimately show "producer_main ''vhp'' [] sample_producer_world Map.empty
      = Some (early_exit 1 (''[prod] shm_open(attach) '' @ kDefaultFrameShm @ newline), Map.empty)"
    using producer_main_failures [of "[]" producer_defaults] by auto
qed

end
