(* ===== verification/Bench_Ring.thy ===== *)
theory Bench_Ring
  imports Spsc_Ring Options Report
begin

text \<open>
  The ring benchmark, \<open>bench/bench_ring.cpp\<close>: a producer and a consumer thread over one ring, each a loop
  whose iterations are cut at the accesses to the ring and the clock. A run is an interleaving of such
  steps with the clock reading each step gets. \<open>Padded\<close> moves the indices to separate cache lines, which
  has no effect on what is computed, so both instances of \<open>run\<close> are one function.
\<close>

section \<open>One run\<close>

definition kBenchCapacity :: nat where
  "kBenchCapacity = 4096"

record stamped =
  sd_seq :: u64
  sd_t_send_ns :: u64
  sd_filler :: "u8 list"

definition zero_stamped :: stamped where
  "zero_stamped = \<lparr>sd_seq = 0, sd_t_send_ns = 0, sd_filler = replicate 48 0\<rparr>"

text \<open>The arguments of \<open>run\<close>, and the two readings of \<open>start\<close>.\<close>

record bench_run =
  br_items :: u64
  br_pace_ns :: u64
  br_measure :: bool
  br_producer_start_ns :: u64
  br_consumer_start_ns :: u64

datatype sender_pc = Pacing | Stamping | Sending stamped

datatype receiver_pc = Receiving | Measuring stamped | Finished u64

text \<open>\<open>bn_sent\<close>, \<open>bn_got\<close>, \<open>bn_latencies\<close> and \<open>bn_depths\<close> are ghost state: the items accepted and taken and the
  values recorded.\<close>

record bench =
  bn_ring :: "stamped ring"
  bn_sender :: sender_pc
  bn_next :: u64
  bn_receiver :: receiver_pc
  bn_received :: u64
  bn_latency :: histogram
  bn_depth :: histogram
  bn_sent :: "stamped list"
  bn_got :: "stamped list"
  bn_latencies :: "u64 list"
  bn_depths :: "u64 list"

text \<open>The producer thread; a full ring is tried again.\<close>

definition sender_step :: "bench_run \<Rightarrow> u64 \<Rightarrow> bench \<Rightarrow> bench" where
  "sender_step c now s =
    (case bn_sender s of
       Pacing \<Rightarrow>
         if bn_next s < br_items c
         then if br_pace_ns c \<noteq> 0 \<and> now < br_producer_start_ns c + bn_next s * br_pace_ns c then s
              else s\<lparr>bn_sender := Stamping\<rparr>
         else s
     | Stamping \<Rightarrow> s\<lparr>bn_sender := Sending (zero_stamped\<lparr>sd_seq := bn_next s, sd_t_send_ns := now\<rparr>)\<rparr>
     | Sending item \<Rightarrow>
         (case try_push (bn_ring s) item of
            (r, KFull) \<Rightarrow> s\<lparr>bn_ring := r\<rparr>
          | (r, KOk) \<Rightarrow> s\<lparr>bn_ring := r, bn_sender := Pacing, bn_next := bn_next s + 1, bn_sent := bn_sent s @ [item]\<rparr>))"

text \<open>The consumer thread.\<close>

definition receiver_step :: "bench_run \<Rightarrow> u64 \<Rightarrow> bench \<Rightarrow> bench" where
  "receiver_step c now s =
    (case bn_receiver s of
       Receiving \<Rightarrow>
         if bn_received s < br_items c
         then (case try_pop (bn_ring s) of
                 (r, None) \<Rightarrow> s\<lparr>bn_ring := r\<rparr>
               | (r, Some item) \<Rightarrow> s\<lparr>bn_ring := r, bn_receiver := Measuring item, bn_got := bn_got s @ [item]\<rparr>)
         else s\<lparr>bn_receiver := Finished now\<rparr>
     | Measuring item \<Rightarrow>
         (let s = (if br_measure c
                   then (let latency = now - sd_t_send_ns item; depth = of_nat (ring_size (bn_ring s))
                         in s\<lparr>bn_latency := hist_record (bn_latency s) latency, bn_depth := hist_record (bn_depth s) depth,
                              bn_latencies := bn_latencies s @ [latency], bn_depths := bn_depths s @ [depth]\<rparr>)
                   else s)
          in s\<lparr>bn_receiver := Receiving, bn_received := bn_received s + 1\<rparr>)
     | Finished t \<Rightarrow> s)"

datatype bench_move = Sender u64 | Receiver u64

fun bench_step :: "bench_run \<Rightarrow> bench \<Rightarrow> bench_move \<Rightarrow> bench" where
  "bench_step c s (Sender now) = sender_step c now s"
| "bench_step c s (Receiver now) = receiver_step c now s"

definition bench_start :: "bench option" where
  "bench_start = do {
     latency \<leftarrow> hist_default 100000000;
     depth \<leftarrow> hist_default (of_nat kBenchCapacity * 2);
     Some \<lparr>bn_ring = ring_new kBenchCapacity zero_stamped, bn_sender = Pacing, bn_next = 0, bn_receiver = Receiving,
       bn_received = 0, bn_latency = latency, bn_depth = depth, bn_sent = [], bn_got = [], bn_latencies = [], bn_depths = []\<rparr>
   }"

text \<open>\<open>Result\<close>, once both threads have been joined.\<close>

record bench_result =
  bt_latency :: histogram
  bt_depth :: histogram
  bt_seconds :: double

definition bench_result_of :: "bench_run \<Rightarrow> bench \<Rightarrow> bench_result option" where
  "bench_result_of c s =
    (case bn_receiver s of
       Finished now \<Rightarrow>
         if bn_sender s = Pacing \<and> \<not> bn_next s < br_items c
         then Some \<lparr>bt_latency = bn_latency s, bt_depth = bn_depth s,
           bt_seconds = fdiv (f_of_u64 (now - br_consumer_start_ns c)) 1000000000\<rparr>
         else None
     | _ \<Rightarrow> None)"

definition run_bench :: "bench_run \<Rightarrow> bench_move list \<Rightarrow> bench_result option" where
  "run_bench c moves = do { s \<leftarrow> bench_start; bench_result_of c (foldl (bench_step c) s moves) }"

section \<open>The program\<close>

record bench_options =
  bo_paced_items :: u64
  bo_pace_ns :: u64
  bo_saturated_items :: u64
  bo_producer_core :: int
  bo_consumer_core :: int

definition bench_defaults :: bench_options where
  "bench_defaults = \<lparr>bo_paced_items = 400000, bo_pace_ns = 2000, bo_saturated_items = 5000000,
     bo_producer_core = -1, bo_consumer_core = -1\<rparr>"

datatype bench_flag = Paced_items | Pace_ns | Saturated_items | Producer_core | Consumer_core | Unknown_flag

fun bench_option :: "bench_flag \<Rightarrow> string \<Rightarrow> bench_options \<Rightarrow> bench_options option" where
  "bench_option Paced_items arg opt = Some (opt\<lparr>bo_paced_items := strtoul10 arg\<rparr>)"
| "bench_option Pace_ns arg opt = Some (opt\<lparr>bo_pace_ns := strtoul10 arg\<rparr>)"
| "bench_option Saturated_items arg opt = Some (opt\<lparr>bo_saturated_items := strtoul10 arg\<rparr>)"
| "bench_option Producer_core arg opt = Some (opt\<lparr>bo_producer_core := atoi arg\<rparr>)"
| "bench_option Consumer_core arg opt = Some (opt\<lparr>bo_consumer_core := atoi arg\<rparr>)"
| "bench_option Unknown_flag arg opt = None"

text \<open>The two experiments; only the readings of \<open>start\<close> differ between the instances.\<close>

definition paced_run :: "bench_options \<Rightarrow> u64 \<times> u64 \<Rightarrow> bench_run" where
  "paced_run opt starts = \<lparr>br_items = bo_paced_items opt, br_pace_ns = bo_pace_ns opt, br_measure = True,
     br_producer_start_ns = fst starts, br_consumer_start_ns = snd starts\<rparr>"

definition saturated_run :: "bench_options \<Rightarrow> u64 \<times> u64 \<Rightarrow> bench_run" where
  "saturated_run opt starts = \<lparr>br_items = bo_saturated_items opt, br_pace_ns = 0, br_measure = False,
     br_producer_start_ns = fst starts, br_consumer_start_ns = snd starts\<rparr>"

definition bench_banner :: "bench_options \<Rightarrow> string" where
  "bench_banner opt =
    ''bench_ring  capacity='' @ decimal kBenchCapacity @ '' slot=64B  cores: producer='' @ dec_i (bo_producer_core opt)
    @ '' consumer='' @ dec_i (bo_consumer_core opt) @ newline
    @ (if bo_producer_core opt < 0 \<or> bo_consumer_core opt < 0
       then ''WARNING: threads unpinned. They may share a physical core, which hides'' @ newline
         @ ''         the false-sharing effect completely. Pass --producer-core and'' @ newline
         @ ''         --consumer-core on distinct physical cores.'' @ newline
       else [])"

definition penalty :: "histogram \<Rightarrow> histogram \<Rightarrow> double \<Rightarrow> double" where
  "penalty a b p = fdiv (f_of_u64 (value_at_percentile a p)) (f_of_u64 (value_at_percentile b p + 1))"

definition paced_text :: "bench_options \<Rightarrow> bench_result \<Rightarrow> bench_result \<Rightarrow> string" where
  "paced_text opt padded shared =
    (let ratio = (\<lambda>p. fixed 2 (penalty (bt_latency shared) (bt_latency padded) p))
     in newline @ ''=== 1. handoff latency, paced at '' @ dec_u (bo_pace_ns opt) @ '' ns (ring stays near-empty) ==='' @ newline
        @ summary (bt_latency padded) ''padded (separate lines)'' 1 ''ns''
        @ summary (bt_depth padded) ''  ring depth at pop'' 1 ''items''
        @ summary (bt_latency shared) ''unpadded (false sharing)'' 1 ''ns''
        @ summary (bt_depth shared) ''  ring depth at pop'' 1 ''items''
        @ ''false-sharing penalty: '' @ ratio 50 @ ''x at p50, '' @ ratio 99 @ ''x at p99, '' @ ratio (rnd (999 / 10))
        @ ''x at p99.9'' @ newline)"

text \<open>A rate is infinite after no time and its inverse is infinite for no items; doubles here are finite, so
  such a text is \<^const>\<open>None\<close>.\<close>

definition rate_of :: "u64 \<Rightarrow> bench_result \<Rightarrow> double option" where
  "rate_of items r =
    (if bt_seconds r = 0 \<or> items = 0 then None else Some (fdiv (fdiv (f_of_u64 items) (bt_seconds r)) 1000000))"

definition saturated_text :: "bench_options \<Rightarrow> bench_result \<Rightarrow> bench_result \<Rightarrow> string option" where
  "saturated_text opt padded shared = do {
     padded_rate \<leftarrow> rate_of (bo_saturated_items opt) padded;
     shared_rate \<leftarrow> rate_of (bo_saturated_items opt) shared;
     Some (newline @ ''=== 2. saturated throughput (latency omitted: it is queueing, not handoff) ==='' @ newline
       @ ''padded    '' @ fixed 2 padded_rate @ '' Mitems/s  ('' @ fixed 1 (fdiv 1000 padded_rate) @ '' ns/item)'' @ newline
       @ ''unpadded  '' @ fixed 2 shared_rate @ '' Mitems/s  ('' @ fixed 1 (fdiv 1000 shared_rate) @ '' ns/item)'' @ newline
       @ newline @ ''for reference: 20 ms audio frames arrive at 50 Hz. One call needs'' @ newline
       @ ''0.00005 Mitems/s, so the ring is ~'' @ fixed 0 (fdiv (fmul padded_rate 1000000) 50) @ ''x oversized for the workload --''
       @ newline @ ''which is the point: it must never be the bottleneck under burst.'' @ newline)
   }"

text \<open>\<open>main\<close>: the schedules of the four runs are inputs, with their \<open>start\<close> readings; \<^const>\<open>None\<close> is a run that has
  not ended, or an infinite rate. The left summand is the exit status of a bad command line.\<close>

definition bench_main :: "(bench_flag \<times> string) list \<Rightarrow> (nat \<Rightarrow> (u64 \<times> u64) \<times> bench_move list) \<Rightarrow> (nat + string) option" where
  "bench_main args sched =
    (case parse_with bench_option args bench_defaults of
       None \<Rightarrow> Some (Inl 2)
     | Some opt \<Rightarrow> do {
         padded \<leftarrow> run_bench (paced_run opt (fst (sched 0))) (snd (sched 0));
         shared \<leftarrow> run_bench (paced_run opt (fst (sched 1))) (snd (sched 1));
         padded_sat \<leftarrow> run_bench (saturated_run opt (fst (sched 2))) (snd (sched 2));
         shared_sat \<leftarrow> run_bench (saturated_run opt (fst (sched 3))) (snd (sched 3));
         text \<leftarrow> saturated_text opt padded_sat shared_sat;
         Some (Inr (bench_banner opt @ paced_text opt padded shared @ text))
       })"

end
