(* ===== verification/Bench_Props.thy ===== *)
theory Bench_Props
  imports Bench_Ring Histogram_Theorems
begin

text \<open>
  What the benchmark measures: every item exactly once and in order, whatever the interleaving, and under
  any schedule in which both threads keep getting turns the run ends.
\<close>

section \<open>The invariant\<close>

definition sender_ok :: "bench_run \<Rightarrow> sender_pc \<Rightarrow> nat \<Rightarrow> bool" where
  "sender_ok c pc n \<longleftrightarrow> n \<le> unat (br_items c) \<and> (case pc of Pacing \<Rightarrow> True | Stamping \<Rightarrow> n < unat (br_items c)
     | Sending item \<Rightarrow> n < unat (br_items c) \<and> sd_seq item = of_nat n)"

definition bench_inv :: "bench_run \<Rightarrow> histogram \<Rightarrow> histogram \<Rightarrow> bench \<Rightarrow> bool" where
  "bench_inv c l0 d0 s \<longleftrightarrow> ring_wf (bn_ring s) \<and> length (rg_slots (bn_ring s)) = kBenchCapacity
    \<and> bn_got s @ ring_items (bn_ring s) = bn_sent s
    \<and> map sd_seq (bn_sent s) = map of_nat [0..<length (bn_sent s)]
    \<and> bn_next s = of_nat (length (bn_sent s)) \<and> sender_ok c (bn_sender s) (length (bn_sent s))
    \<and> length (bn_got s) = unat (bn_received s) + (case bn_receiver s of Measuring _ \<Rightarrow> 1 | _ \<Rightarrow> 0)
    \<and> (\<forall>t. bn_receiver s = Finished t \<longrightarrow> bn_received s = br_items c)
    \<and> bn_latency s = foldl hist_record l0 (bn_latencies s) \<and> bn_depth s = foldl hist_record d0 (bn_depths s)
    \<and> length (bn_latencies s) = (if br_measure c then unat (bn_received s) else 0)
    \<and> length (bn_depths s) = length (bn_latencies s) \<and> (\<forall>d \<in> set (bn_depths s). unat d \<le> kBenchCapacity)"

lemma bench_next_less:
  assumes "bench_inv c l0 d0 s"
  shows "bn_next s < br_items c \<longleftrightarrow> length (bn_sent s) < unat (br_items c)"
proof -
  have "unat (bn_next s) = length (bn_sent s)"
    using assms unat_u64_less [of "br_items c"] by (simp add: bench_inv_def sender_ok_def unat_of_nat_small)
  then show ?thesis by (simp add: word_less_nat_alt)
qed

lemma got_le:
  assumes "bench_inv c l0 d0 s"
  shows "length (bn_got s) \<le> length (bn_sent s)" "length (bn_got s) \<le> unat (br_items c)"
proof -
  have "bn_sent s = bn_got s @ ring_items (bn_ring s)" using assms by (simp add: bench_inv_def)
  then show "length (bn_got s) \<le> length (bn_sent s)" by simp
  then show "length (bn_got s) \<le> unat (br_items c)" using assms by (simp add: bench_inv_def sender_ok_def)
qed

lemma sender_step_inv:
  assumes inv: "bench_inv c l0 d0 s"
  shows "bench_inv c l0 d0 (sender_step c now s)"
proof (cases "bn_sender s")
  case Pacing
  then show ?thesis using inv bench_next_less [OF inv] by (simp add: sender_step_def bench_inv_def sender_ok_def)
next
  case Stamping
  then show ?thesis using inv by (simp add: sender_step_def bench_inv_def sender_ok_def)
next
  case (Sending item)
  obtain T h tc hc where "ring_at (bn_ring s) T h tc hc" using inv by (auto simp: bench_inv_def ring_wf_def)
  note p = try_push_at [OF this, of item]
  obtain r x where "try_push (bn_ring s) item = (r, x)" by (cases "try_push (bn_ring s) item")
  then show ?thesis using inv p Sending by (cases x) (auto simp: sender_step_def bench_inv_def sender_ok_def split: if_splits)
qed

lemma receiver_step_inv:
  assumes inv: "bench_inv c l0 d0 s"
  shows "bench_inv c l0 d0 (receiver_step c now s)"
proof (cases "bn_receiver s")
  case Receiving
  obtain T h tc hc where "ring_at (bn_ring s) T h tc hc" using inv by (auto simp: bench_inv_def ring_wf_def)
  note p = try_pop_at [OF this]
  obtain r x where t: "try_pop (bn_ring s) = (r, x)" by (cases "try_pop (bn_ring s)")
  have u: "receiver_step c now s = (if bn_received s < br_items c
      then (case x of None \<Rightarrow> s\<lparr>bn_ring := r\<rparr> | Some item \<Rightarrow> s\<lparr>bn_ring := r, bn_receiver := Measuring item, bn_got := bn_got s @ [item]\<rparr>)
      else s\<lparr>bn_receiver := Finished now\<rparr>)"
    using Receiving t by (simp add: receiver_step_def)
  have "bn_received s \<le> br_items c" using inv Receiving got_le [OF inv] by (simp add: bench_inv_def word_le_nat_alt)
  then have "bench_inv c l0 d0 (s\<lparr>bn_receiver := Finished now\<rparr>)" if "\<not> bn_received s < br_items c"
    using inv that Receiving by (simp add: bench_inv_def not_less)
  moreover have "bench_inv c l0 d0 (s\<lparr>bn_ring := r\<rparr>)" if "x = None"
    using inv p t that Receiving by (cases "ring_items (bn_ring s)") (auto simp: bench_inv_def)
  moreover have "bench_inv c l0 d0 (s\<lparr>bn_ring := r, bn_receiver := Measuring item, bn_got := bn_got s @ [item]\<rparr>)" if "x = Some item" for item
    using inv p t that Receiving by (cases "ring_items (bn_ring s)") (simp_all add: bench_inv_def)
  ultimately show ?thesis unfolding u by (simp split: option.split)
next
  case (Measuring item)
  have "unat (bn_received s) + 1 < 2 ^ 64" using inv Measuring got_le [OF inv] unat_u64_less [of "br_items c"] by (simp add: bench_inv_def)
  then have u: "unat (bn_received s + 1) = unat (bn_received s) + 1" using unat_plus_one_if [of "bn_received s"] by simp
  have "ring_size (bn_ring s) \<le> kBenchCapacity"
    using inv ring_items_room [of "bn_ring s"] length_ring_items [of "bn_ring s"] by (simp add: bench_inv_def)
  then have "unat (of_nat (ring_size (bn_ring s)) :: u64) \<le> kBenchCapacity"
    by (simp add: unat_of_nat_small kBenchCapacity_def)
  then show ?thesis using inv Measuring u by (simp add: receiver_step_def bench_inv_def Let_def)
next
  case (Finished t)
  then show ?thesis using inv by (simp add: receiver_step_def)
qed

lemma bench_step_inv: "bench_inv c l0 d0 s \<Longrightarrow> bench_inv c l0 d0 (bench_step c s mv)"
  by (cases mv) (simp_all add: sender_step_inv receiver_step_inv)

lemma bench_steps_inv: "bench_inv c l0 d0 s \<Longrightarrow> bench_inv c l0 d0 (foldl (bench_step c) s mvs)"
  by (induction mvs arbitrary: s) (simp_all add: bench_step_inv)

lemma valid_bench_capacity [op_simps]: "valid_capacity kBenchCapacity"
  using valid_capacity_pow2_iff [of 12] by (simp add: kBenchCapacity_def)

lemma bench_start_inv:
  assumes "bench_start = Some s"
  shows "bench_inv c (bn_latency s) (bn_depth s) s" "hist_default 8192 = Some (bn_depth s)" "hist_default 100000000 = Some (bn_latency s)"
proof -
  have "of_nat kBenchCapacity * 2 = (8192 :: u64)" by (simp add: kBenchCapacity_def)
  then show "bench_inv c (bn_latency s) (bn_depth s) s" "hist_default 8192 = Some (bn_depth s)"
      "hist_default 100000000 = Some (bn_latency s)"
    using assms by (auto simp: op_simps bench_start_def bench_inv_def sender_ok_def split: bind_splits)
qed

section \<open>Progress\<close>

text \<open>How many steps are left to make, at most, when no step is wasted.\<close>

definition sender_left :: "bench_run \<Rightarrow> bench \<Rightarrow> nat" where
  "sender_left c s = 3 * (unat (br_items c) - length (bn_sent s))
    - (case bn_sender s of Pacing \<Rightarrow> 0 | Stamping \<Rightarrow> 1 | Sending _ \<Rightarrow> 2)"

definition receiver_left :: "bench_run \<Rightarrow> bench \<Rightarrow> nat" where
  "receiver_left c s = (case bn_receiver s of
     Receiving \<Rightarrow> 2 * (unat (br_items c) - unat (bn_received s)) + 1
   | Measuring _ \<Rightarrow> 2 * (unat (br_items c) - unat (bn_received s))
   | Finished _ \<Rightarrow> 0)"

definition steps_left :: "bench_run \<Rightarrow> bench \<Rightarrow> nat" where
  "steps_left c s = sender_left c s + receiver_left c s"

definition sender_ready :: "bench_run \<Rightarrow> bench \<Rightarrow> bool" where
  "sender_ready c s \<longleftrightarrow> (case bn_sender s of Pacing \<Rightarrow> length (bn_sent s) < unat (br_items c) | Stamping \<Rightarrow> True
     | Sending _ \<Rightarrow> length (ring_items (bn_ring s)) < kBenchCapacity)"

definition receiver_ready :: "bench_run \<Rightarrow> bench \<Rightarrow> bool" where
  "receiver_ready c s \<longleftrightarrow> (case bn_receiver s of Receiving \<Rightarrow> bn_received s = br_items c \<or> ring_items (bn_ring s) \<noteq> []
     | Measuring _ \<Rightarrow> True | Finished _ \<Rightarrow> False)"

text \<open>The clock has passed the whole grid.\<close>

definition past_grid :: "bench_run \<Rightarrow> u64 \<Rightarrow> bool" where
  "past_grid c now \<longleftrightarrow> unat (br_producer_start_ns c) + unat (br_items c) * unat (br_pace_ns c) \<le> unat now"

lemma past_grid_slot:
  assumes "past_grid c now" "n < unat (br_items c)"
  shows "\<not> now < br_producer_start_ns c + of_nat n * br_pace_ns c"
proof -
  define a p where "a = unat (br_producer_start_ns c)" and "p = unat (br_pace_ns c)"
  have "n * p \<le> unat (br_items c) * p" using assms(2) by (intro mult_le_mono1) simp
  then have le: "a + n * p \<le> unat now"
    using assms(1) unfolding past_grid_def a_def [symmetric] p_def [symmetric] by linarith
  have "br_producer_start_ns c + of_nat n * br_pace_ns c = of_nat (a + n * p)" by (simp add: a_def p_def)
  moreover have "unat (of_nat (a + n * p) :: u64) = a + n * p" using le unat_u64_less [of now] by (intro unat_of_nat_small) simp
  ultimately show ?thesis using le by (simp only: word_less_nat_alt not_less)
qed

lemma sender_step_same:
  "bn_receiver (sender_step c now s) = bn_receiver s" "bn_received (sender_step c now s) = bn_received s"
  by (simp_all add: sender_step_def split: sender_pc.split prod.split push_result.split)

lemma receiver_step_same:
  "bn_sender (receiver_step c now s) = bn_sender s" "bn_sent (receiver_step c now s) = bn_sent s"
  by (simp_all add: receiver_step_def Let_def split: receiver_pc.split prod.split option.split)

lemma sender_step_left:
  assumes inv: "bench_inv c l0 d0 s"
  shows "steps_left c (sender_step c now s) \<le> steps_left c s"
    "sender_ready c s \<Longrightarrow> past_grid c now \<Longrightarrow> steps_left c (sender_step c now s) < steps_left c s"
    "receiver_ready c s \<Longrightarrow> receiver_ready c (sender_step c now s)"
proof -
  obtain T h tc hc where "ring_at (bn_ring s) T h tc hc" using inv by (auto simp: bench_inv_def ring_wf_def)
  note push = try_push_at [OF this]
  have slots: "length (rg_slots (bn_ring s)) = kBenchCapacity" using inv by (simp add: bench_inv_def)
  have next_eq: "bn_next s = of_nat (length (bn_sent s))" using inv by (simp add: bench_inv_def)
  have recv: "receiver_left c (sender_step c now s) = receiver_left c s"
    by (cases "bn_receiver s") (simp_all add: receiver_left_def sender_step_same)
  have "(sender_ready c s \<and> past_grid c now \<longrightarrow> sender_left c (sender_step c now s) < sender_left c s)
    \<and> sender_left c (sender_step c now s) \<le> sender_left c s \<and> (receiver_ready c s \<longrightarrow> receiver_ready c (sender_step c now s))"
  proof (cases "bn_sender s")
    case Pacing
    have "\<not> now < br_producer_start_ns c + bn_next s * br_pace_ns c" if "past_grid c now" "length (bn_sent s) < unat (br_items c)"
      unfolding next_eq by (rule past_grid_slot [OF that])
    then show ?thesis
      using Pacing bench_next_less [OF inv] by (cases "bn_receiver s") (simp_all add: sender_step_def sender_left_def sender_ready_def receiver_ready_def)
  next
    case Stamping
    then show ?thesis using inv by (cases "bn_receiver s") (auto simp: sender_step_def sender_left_def receiver_ready_def bench_inv_def sender_ok_def)
  next
    case (Sending item)
    obtain r x where t: "try_push (bn_ring s) item = (r, x)" by (cases "try_push (bn_ring s) item")
    have "length (bn_sent s) < unat (br_items c)" using inv Sending by (simp add: bench_inv_def sender_ok_def)
    then show ?thesis using push [of item] slots t Sending
      by (cases x) (auto simp: sender_step_def sender_left_def sender_ready_def receiver_ready_def split: if_splits receiver_pc.split)
  qed
  then show "steps_left c (sender_step c now s) \<le> steps_left c s"
    "sender_ready c s \<Longrightarrow> past_grid c now \<Longrightarrow> steps_left c (sender_step c now s) < steps_left c s"
    "receiver_ready c s \<Longrightarrow> receiver_ready c (sender_step c now s)"
    using recv by (simp_all add: steps_left_def)
qed

lemma receiver_step_left:
  assumes inv: "bench_inv c l0 d0 s"
  shows "steps_left c (receiver_step c now s) \<le> steps_left c s"
    "receiver_ready c s \<Longrightarrow> steps_left c (receiver_step c now s) < steps_left c s"
    "sender_ready c s \<Longrightarrow> sender_ready c (receiver_step c now s)"
proof -
  obtain T h tc hc where "ring_at (bn_ring s) T h tc hc" using inv by (auto simp: bench_inv_def ring_wf_def)
  note pop = try_pop_at [OF this]
  have send: "sender_left c (receiver_step c now s) = sender_left c s"
    by (simp add: sender_left_def receiver_step_same)
  have "(receiver_ready c s \<longrightarrow> receiver_left c (receiver_step c now s) < receiver_left c s)
    \<and> receiver_left c (receiver_step c now s) \<le> receiver_left c s \<and> (sender_ready c s \<longrightarrow> sender_ready c (receiver_step c now s))"
  proof (cases "bn_receiver s")
    case Receiving
    obtain r x where t: "try_pop (bn_ring s) = (r, x)" by (cases "try_pop (bn_ring s)")
    then show ?thesis using Receiving pop
      by (cases "ring_items (bn_ring s)")
        (auto simp: receiver_step_def receiver_left_def sender_ready_def receiver_ready_def not_less split: sender_pc.split)
  next
    case (Measuring item)
    have "unat (bn_received s) < unat (br_items c)" using inv Measuring got_le(2) [OF inv] by (simp add: bench_inv_def)
    moreover from this have "unat (bn_received s + 1) = unat (bn_received s) + 1"
      using unat_plus_one_if [of "bn_received s"] unat_u64_less [of "br_items c"] by simp
    moreover from calculation(1)
    have "2 * (unat (br_items c) - unat (bn_received s)) = 2 * (unat (br_items c) - Suc (unat (bn_received s))) + 2" by linarith
    ultimately show ?thesis using Measuring
      by (simp add: receiver_step_def receiver_left_def sender_ready_def Let_def split: sender_pc.split)
  next
    case (Finished t)
    then show ?thesis by (simp add: receiver_step_def receiver_ready_def)
  qed
  then show "steps_left c (receiver_step c now s) \<le> steps_left c s"
    "receiver_ready c s \<Longrightarrow> steps_left c (receiver_step c now s) < steps_left c s"
    "sender_ready c s \<Longrightarrow> sender_ready c (receiver_step c now s)"
    using send by (simp_all add: steps_left_def)
qed

text \<open>Unless the run is over, one of the two can move: the ring is not both full and empty.\<close>

lemma some_ready:
  assumes inv: "bench_inv c l0 d0 s" and left: "steps_left c s \<noteq> 0"
  shows "sender_ready c s \<or> receiver_ready c s"
proof (rule ccontr)
  assume stuck: "\<not> ?thesis"
  then have s: "bn_sender s = Pacing \<and> length (bn_sent s) = unat (br_items c) \<or> (\<exists>item. bn_sender s = Sending item) \<and> kBenchCapacity \<le> length (ring_items (bn_ring s))"
    using inv by (auto simp: sender_ready_def bench_inv_def sender_ok_def split: sender_pc.splits)
  consider "bn_receiver s = Receiving" "bn_received s \<noteq> br_items c" "ring_items (bn_ring s) = []" | t where "bn_receiver s = Finished t"
    using stuck by (auto simp: receiver_ready_def split: receiver_pc.splits)
  then show False
  proof cases
    case 1
    then have "length (bn_sent s) = unat (bn_received s)" using inv by (auto simp: bench_inv_def)
    then show False using s 1 by (auto simp: kBenchCapacity_def word_unat_eq_iff)
  next
    case 2
    then have g: "length (bn_got s) = unat (br_items c)" "bn_sent s = bn_got s @ ring_items (bn_ring s)" "length (bn_sent s) \<le> unat (br_items c)"
      using inv by (auto simp: bench_inv_def sender_ok_def)
    then have "ring_items (bn_ring s) = []" by simp
    then have "bn_sender s = Pacing" "length (bn_sent s) = unat (br_items c)" using s by (auto simp: kBenchCapacity_def)
    then show False using left 2 by (simp add: steps_left_def sender_left_def receiver_left_def)
  qed
qed

lemma bench_step_left: "bench_inv c l0 d0 s \<Longrightarrow> steps_left c (bench_step c s mv) \<le> steps_left c s"
  using sender_step_left(1) receiver_step_left(1) by (cases mv) auto

lemma bench_steps_left: "bench_inv c l0 d0 s \<Longrightarrow> steps_left c (foldl (bench_step c) s mvs) \<le> steps_left c s"
proof (induction mvs arbitrary: s)
  case (Cons mv mvs)
  from order_trans [OF Cons.IH [OF bench_step_inv [OF Cons.prems]] bench_step_left [OF Cons.prems, of mv]] show ?case by simp
qed simp

text \<open>A thread that can move does so at its first turn: the turns of the other do not get in its way.\<close>

lemma sender_moves:
  assumes "bench_inv c l0 d0 s" "sender_ready c s" "Sender t \<in> set mvs" "\<forall>t. Sender t \<in> set mvs \<longrightarrow> past_grid c t"
  shows "steps_left c (foldl (bench_step c) s mvs) < steps_left c s"
  using assms
proof (induction mvs arbitrary: s)
  case (Cons mv mvs)
  note inv = bench_step_inv [OF Cons.prems(1), of mv]
  show ?case
  proof (cases mv)
    case (Sender now)
    then have "steps_left c (bench_step c s mv) < steps_left c s"
      using sender_step_left(2) [OF Cons.prems(1,2)] Cons.prems(4) by simp
    then show ?thesis using bench_steps_left [OF inv, of mvs] by simp
  next
    case (Receiver now)
    then have "sender_ready c (bench_step c s mv)" using receiver_step_left(3) [OF Cons.prems(1,2)] by simp
    from Cons.IH [OF inv this] show ?thesis using Cons.prems(3,4) Receiver bench_step_left [OF Cons.prems(1), of mv] by simp
  qed
qed simp

lemma receiver_moves:
  assumes "bench_inv c l0 d0 s" "receiver_ready c s" "Receiver t \<in> set mvs"
  shows "steps_left c (foldl (bench_step c) s mvs) < steps_left c s"
  using assms
proof (induction mvs arbitrary: s)
  case (Cons mv mvs)
  note inv = bench_step_inv [OF Cons.prems(1), of mv]
  show ?case
  proof (cases mv)
    case (Receiver now)
    then have "steps_left c (bench_step c s mv) < steps_left c s" using receiver_step_left(2) [OF Cons.prems(1,2)] by simp
    then show ?thesis using bench_steps_left [OF inv, of mvs] by simp
  next
    case (Sender now)
    then have "receiver_ready c (bench_step c s mv)" using sender_step_left(3) [OF Cons.prems(1,2)] by simp
    from Cons.IH [OF inv this] show ?thesis using Cons.prems(3) Sender bench_step_left [OF Cons.prems(1), of mv] by simp
  qed
qed simp

text \<open>A round gives each thread a turn, with the clock past the grid.\<close>

definition fair_round :: "bench_run \<Rightarrow> bench_move list \<Rightarrow> bool" where
  "fair_round c mvs \<longleftrightarrow> (\<exists>t. Sender t \<in> set mvs) \<and> (\<exists>t. Receiver t \<in> set mvs) \<and> (\<forall>t. Sender t \<in> set mvs \<longrightarrow> past_grid c t)"

lemma round_moves:
  assumes "bench_inv c l0 d0 s" "steps_left c s \<noteq> 0" "fair_round c mvs"
  shows "steps_left c (foldl (bench_step c) s mvs) < steps_left c s"
  using some_ready [OF assms(1,2)] assms(3) sender_moves [OF assms(1)] receiver_moves [OF assms(1)]
  by (auto simp: fair_round_def)

lemma rounds_end:
  assumes "bench_inv c l0 d0 s" "steps_left c s \<le> length rounds" "\<forall>mvs \<in> set rounds. fair_round c mvs"
  shows "steps_left c (foldl (bench_step c) s (concat rounds)) = 0"
  using assms
proof (induction rounds arbitrary: s)
  case (Cons mvs rounds)
  define s1 where "s1 = foldl (bench_step c) s mvs"
  have "steps_left c s1 \<le> length rounds"
    using round_moves [OF Cons.prems(1), of mvs] bench_steps_left [OF Cons.prems(1), of mvs] Cons.prems(2,3)
    by (cases "steps_left c s = 0") (auto simp: s1_def)
  then show ?case using Cons.IH [of s1] bench_steps_inv [OF Cons.prems(1), of mvs] Cons.prems(3) by (simp add: s1_def)
qed simp

text \<open>With no steps left both threads have returned.\<close>

lemma run_over:
  assumes inv: "bench_inv c l0 d0 s" and left: "steps_left c s = 0"
  obtains t where "bn_receiver s = Finished t" "bn_sender s = Pacing" "bn_got s = bn_sent s" "length (bn_got s) = unat (br_items c)"
    "bn_received s = br_items c"
proof -
  obtain t where t: "bn_receiver s = Finished t"
    using left inv got_le(2) [OF inv] by (cases "bn_receiver s") (auto simp: steps_left_def receiver_left_def bench_inv_def)
  then have g: "length (bn_got s) = unat (br_items c)" "bn_received s = br_items c" using inv by (auto simp: bench_inv_def)
  have sent: "bn_sent s = bn_got s @ ring_items (bn_ring s)" "sender_ok c (bn_sender s) (length (bn_sent s))"
    using inv by (simp_all add: bench_inv_def)
  then have "length (bn_sent s) = unat (br_items c)" using g(1) by (simp add: sender_ok_def)
  then have "bn_got s = bn_sent s" "bn_sender s = Pacing" using sent g(1) by (auto simp: sender_ok_def split: sender_pc.splits)
  then show ?thesis using that t g by blast
qed

section \<open>Properties\<close>

text \<open>The steps of a fresh run.\<close>

lemma start_left: "bench_start = Some s \<Longrightarrow> steps_left c s = 5 * unat (br_items c) + 1"
  by (auto simp: bench_start_def steps_left_def sender_left_def receiver_left_def split: bind_splits)

lemma late_start:
  fixes early :: "bench_move list"
  assumes "bench_start = Some s0" "5 * unat (br_items c) < length rounds" "\<forall>mvs \<in> set rounds. fair_round c mvs"
  defines "s \<equiv> foldl (bench_step c) s0 (early @ concat rounds)"
  shows "bench_inv c (bn_latency s0) (bn_depth s0) s" "steps_left c s = 0"
proof -
  note inv = bench_start_inv(1) [OF assms(1), of c]
  show "bench_inv c (bn_latency s0) (bn_depth s0) s" unfolding s_def by (rule bench_steps_inv [OF inv])
  have "steps_left c (foldl (bench_step c) s0 early) \<le> length rounds"
    using bench_steps_left [OF inv, of early] start_left [OF assms(1), of c] assms(2) by simp
  from rounds_end [OF bench_steps_inv [OF inv] this assms(3)] show "steps_left c s = 0" by (simp add: s_def)
qed

text \<open>C13: A benchmark run ends and measures every item once: after any start, under any schedule in which both
  threads keep getting turns once the clock has passed the grid, the run is over within five rounds per
  item and one more; the items come out in sequence, none lost or doubled, and with measuring on there is
  one latency and one depth per item, no depth above the capacity, so none beyond the range of its
  histogram.\<close>

theorem bench_measures_every_item:
  assumes "bench_start = Some s0" "5 * unat (br_items c) < length rounds" "\<forall>mvs \<in> set rounds. fair_round c mvs"
  shows "\<exists>s r. s = foldl (bench_step c) s0 (early @ concat rounds) \<and> run_bench c (early @ concat rounds) = Some r
    \<and> map sd_seq (bn_got s) = map of_nat [0..<unat (br_items c)]
    \<and> bt_latency r = foldl hist_record (bn_latency s0) (bn_latencies s) \<and> bt_depth r = foldl hist_record (bn_depth s0) (bn_depths s)
    \<and> length (bn_latencies s) = (if br_measure c then unat (br_items c) else 0) \<and> length (bn_depths s) = length (bn_latencies s)
    \<and> (\<forall>d \<in> set (bn_depths s). unat d \<le> kBenchCapacity) \<and> h_overflow (bt_depth r) = 0"
proof -
  define s where "s = foldl (bench_step c) s0 (early @ concat rounds)"
  have inv: "bench_inv c (bn_latency s0) (bn_depth s0) s" and left: "steps_left c s = 0"
    unfolding s_def by (rule late_start [OF assms])+
  obtain t where over: "bn_receiver s = Finished t" "bn_sender s = Pacing" "bn_got s = bn_sent s"
      "length (bn_got s) = unat (br_items c)" "bn_received s = br_items c"
    by (rule run_over [OF inv left])
  have "\<not> bn_next s < br_items c" using bench_next_less [OF inv] over by simp
  then obtain r where r: "run_bench c (early @ concat rounds) = Some r" "bt_latency r = bn_latency s" "bt_depth r = bn_depth s"
    using over unfolding run_bench_def assms(1) by (auto simp: s_def [symmetric] bench_result_of_def simp del: foldl_append)
  have d: "length (bn_depths s) < 2 ^ 64" using inv over unat_u64_less [of "br_items c"] by (simp add: bench_inv_def)
  have "unat x \<le> 8192 \<Longrightarrow> x \<le> 8192" for x :: u64 by (simp add: word_le_nat_alt)
  then have "tracked (bn_depth s0) x" if "x \<in> set (bn_depths s)" for x
    using hist_default_rep(5) [OF bench_start_inv(2) [OF assms(1)]] inv that by (fastforce simp: bench_inv_def kBenchCapacity_def)
  then have "filter (\<lambda>v. \<not> tracked (bn_depth s0) v) (bn_depths s) = []" by (simp add: filter_empty_conv)
  then have "h_overflow (bn_depth s) = 0"
    using records_default(3) [OF bench_start_inv(2) [OF assms(1)] d] inv by (simp add: bench_inv_def)
  then show ?thesis
    using inv over r by (intro exI [of _ s] exI [of _ r]) (simp add: bench_inv_def s_def [symmetric] del: foldl_append)
qed

theorem bench_measures_every_item_witness:
  "let c = \<lparr>br_items = 2, br_pace_ns = 10, br_measure = True, br_producer_start_ns = 5, br_consumer_start_ns = 6\<rparr>;
     moves = [Sender 5, Receiver 6] @ concat (replicate 11 [Receiver 40, Sender 40])
   in \<exists>s0 r. bench_start = Some s0 \<and> run_bench c moves = Some r
    \<and> map sd_seq (bn_got (foldl (bench_step c) s0 moves)) = [0, 1] \<and> h_overflow (bt_depth r) = 0"
proof -
  define c where "c = \<lparr>br_items = 2, br_pace_ns = 10, br_measure = True, br_producer_start_ns = 5, br_consumer_start_ns = 6\<rparr>"
  obtain l d where "hist_default 100000000 = Some l" "hist_default (of_nat kBenchCapacity * 2) = Some d" using hist_default_ok by blast
  then obtain s0 where s0: "bench_start = Some s0" by (simp add: bench_start_def)
  have fair: "\<forall>mvs \<in> set (replicate 11 [Receiver 40, Sender 40]). fair_round c mvs"
    by (auto simp: fair_round_def past_grid_def c_def)
  have long: "5 * unat (br_items c) < length (replicate 11 [Receiver 40, Sender 40])" by (simp add: c_def)
  have two: "map of_nat [0..<unat (br_items c)] = [0, 1 :: u64]" by (simp add: c_def upt_rec)
  from bench_measures_every_item [OF s0 long fair, of "[Sender 5, Receiver 6]", unfolded two] s0
  show ?thesis unfolding Let_def c_def [symmetric] by - (elim exE conjE, hypsubst, intro exI conjI; assumption)
qed

end
