(* ===== verification/Clock.thy ===== *)
theory Clock
  imports Prelude
begin

text \<open>
  Time (\<open>include/vhp/clock.hpp\<close>): a reading of \<open>CLOCK_MONOTONIC\<close> as nanoseconds, and the two ways of
  waiting for an absolute deadline. What \<open>clock_gettime\<close> reads and what \<open>clock_nanosleep\<close> returns, call
  by call, are inputs; the end of the list of readings is the process being stopped. Thread placement
  (\<open>pin_to_core\<close>, \<open>try_set_realtime_fifo\<close>) is the request made; granting it is the operating system's.
\<close>

record timespec =
  tv_sec :: int
  tv_nsec :: int

text \<open>\<open>now_ns\<close>: the arithmetic on the reading.\<close>

definition ns_of_timespec :: "timespec \<Rightarrow> u64" where
  "ns_of_timespec ts = word_of_int (tv_sec ts) * 1000000000 + word_of_int (tv_nsec ts)"

definition deadline_timespec :: "u64 \<Rightarrow> timespec" where
  "deadline_timespec deadline_ns =
    \<lparr>tv_sec = uint (deadline_ns div 1000000000), tv_nsec = uint (deadline_ns mod 1000000000)\<rparr>"

text \<open>\<open>EINTR\<close> on Linux.\<close>

definition EINTR :: int where
  "EINTR = 4"

text \<open>\<open>sleep_until_ns\<close>: the same absolute deadline again after every interruption. The result is the number
  of calls and the last return value; \<^const>\<open>None\<close> when the calls ran out.\<close>

fun sleep_until_ns :: "(timespec \<Rightarrow> nat \<Rightarrow> int) \<Rightarrow> nat \<Rightarrow> nat \<Rightarrow> u64 \<Rightarrow> (nat \<times> int) option" where
  "sleep_until_ns clock_nanosleep 0 calls deadline_ns = None"
| "sleep_until_ns clock_nanosleep (Suc fuel) calls deadline_ns =
    (let r = clock_nanosleep (deadline_timespec deadline_ns) calls
     in if r = EINTR then sleep_until_ns clock_nanosleep fuel (calls + 1) deadline_ns else Some (calls + 1, r))"

text \<open>\<open>spin_until_ns\<close>: the readings that were not used, after the first one at or past the deadline.\<close>

fun spin_until_ns :: "u64 \<Rightarrow> u64 list \<Rightarrow> u64 list option" where
  "spin_until_ns deadline_ns [] = None"
| "spin_until_ns deadline_ns (now # later) = (if now < deadline_ns then spin_until_ns deadline_ns later else Some later)"

text \<open>\<open>cpu_set_t\<close> has 1024 bits; \<open>CPU_SET\<close> ignores a number past them. The two requests succeed when the
  system call returns 0.\<close>

definition cpu_set_of :: "u32 \<Rightarrow> bool list" where
  "cpu_set_of cpu = (replicate 1024 False)[unat cpu := True]"

definition pin_to_core :: "(bool list \<Rightarrow> int) \<Rightarrow> int \<Rightarrow> bool" where
  "pin_to_core pthread_setaffinity_np core \<longleftrightarrow> pthread_setaffinity_np (cpu_set_of (word_of_int core)) = 0"

datatype sched_policy = SCHED_FIFO

definition try_set_realtime_fifo :: "(sched_policy \<Rightarrow> int \<Rightarrow> int) \<Rightarrow> int \<Rightarrow> bool" where
  "try_set_realtime_fifo pthread_setschedparam priority \<longleftrightarrow> pthread_setschedparam SCHED_FIFO priority = 0"

section \<open>Properties\<close>

text \<open>A core number the set has no bit for asks for no core at all, which the system refuses.\<close>

lemma pin_to_core_out_of_range:
  assumes "pthread_setaffinity_np (replicate 1024 False) \<noteq> 0" "1024 \<le> core" "core < 2 ^ 32"
  shows "\<not> pin_to_core pthread_setaffinity_np core"
proof -
  have "unat (word_of_int core :: u32) = nat core"
    using assms(2,3) by (simp add: unat_eq_nat_uint uint_word_of_int_eq take_bit_int_eq_self)
  then have "cpu_set_of (word_of_int core) = replicate 1024 False" using assms(2) list_update_beyond [of "replicate 1024 False" "nat core" True] by (simp add: cpu_set_of_def)
  then show ?thesis using assms(1) by (simp add: pin_to_core_def)
qed

lemma timespec_roundtrip:
  "ns_of_timespec (deadline_timespec d) = d" "0 \<le> tv_nsec (deadline_timespec d)" "tv_nsec (deadline_timespec d) < 1000000000"
  "0 \<le> tv_sec (deadline_timespec d)" "tv_sec (deadline_timespec d) < 2 ^ 63"
proof -
  have "uint (d mod 1000000000) < 1000000000" by (simp add: uint_mod)
  moreover have "uint (d div 1000000000) < 2 ^ 63"
    using unsigned_less [of d, where ?'a = int] by (simp add: uint_div)
  moreover have "d div 1000000000 * 1000000000 + d mod 1000000000 = d" by (rule div_mult_mod_eq)
  ultimately show "ns_of_timespec (deadline_timespec d) = d" "tv_nsec (deadline_timespec d) < 1000000000"
    "tv_sec (deadline_timespec d) < 2 ^ 63"
    by (simp_all add: ns_of_timespec_def deadline_timespec_def)
qed (simp_all add: deadline_timespec_def)

text \<open>An interrupted sleep ends with the first call that is not interrupted.\<close>

lemma sleep_until_ends:
  assumes "\<forall>j < n. clock_nanosleep (deadline_timespec d) (calls + j) = EINTR"
    "clock_nanosleep (deadline_timespec d) (calls + n) \<noteq> EINTR" "n < fuel"
  shows "sleep_until_ns clock_nanosleep fuel calls d = Some (calls + n + 1, clock_nanosleep (deadline_timespec d) (calls + n))"
  using assms
proof (induction n arbitrary: calls fuel)
  case 0
  then show ?case by (cases fuel) (simp_all add: Let_def)
next
  case (Suc n)
  obtain m where m: "fuel = Suc m" using Suc.prems(3) by (cases fuel) auto
  have "clock_nanosleep (deadline_timespec d) (calls + 0) = EINTR" using Suc.prems(1) by blast
  moreover have "\<forall>j < n. clock_nanosleep (deadline_timespec d) ((calls + 1) + j) = EINTR" using Suc.prems(1) by auto
  ultimately show ?case using Suc.IH [of "calls + 1" m] Suc.prems(2,3) m by simp
qed

lemma spin_until_ends:
  assumes "\<forall>x \<in> set early. x < d" "d \<le> now"
  shows "spin_until_ns d (early @ now # later) = Some later"
  using assms by (induction early) auto

end
