(* ===== verification/Spec2Isabelle.thy ===== *)
theory Spec2Isabelle
  imports Whole_Run Spsc_Views Session_History Hot_Depth Producer_Main_Props Bench_Props Clock
begin

text \<open>
  The voice hot path: audio frames go from a producer process to a pinned consumer thread, which
  gates them for speech, assembles the speech of each call into chunks and publishes an event per
  chunk. All source paths below are relative to \<open>src/\<close>.

  \<^bold>\<open>How the parts fit together.\<close> \<open>src/vhp_producer.cpp\<close> generates frames and hands them over through a
  ring in shared memory (\<open>include/vhp/shm_ring.hpp\<close>, \<open>include/vhp/spsc_ring.hpp\<close>) or through a unix
  socket, whose reader \<open>UdsIngest\<close> (\<open>src/vhp_consumer.cpp\<close>) pushes into a ring of its own. \<open>hot_loop\<close>
  pops the frames, finds the call's session (\<open>include/vhp/session.hpp\<close>), runs its chunk assembler
  (\<open>include/vhp/vad.hpp\<close>, on top of \<open>include/vhp/energy.hpp\<close> and \<open>include/vhp/codec.hpp\<close>), keeps metrics
  (\<open>include/vhp/metrics.hpp\<close>, \<open>include/vhp/histogram.hpp\<close>) and pushes events into a second ring, which
  \<open>publish_loop\<close> drains to the standard output.

  \<^bold>\<open>Theories and the code they model.\<close>
  \<^item> \<open>Prelude\<close>: word types, the shared lemmas on words, bit lengths and lists, and the collections
    \<open>op_simps\<close> (fresh rings and the capacities of the program) and \<open>inv_intros\<close> (rules by which
    operations keep the invariants).
  \<^item> \<open>Float64\<close>: the type \<open>double\<close>. A finite double is its rational value; every operation rounds once to
    53 bits, ties to even. The exponent is unbounded, there are no NaNs or infinities. The locale
    \<open>rounding\<close> (interpreted as \<open>f64\<close>) collects the laws of the rounding that bounds rest on.
  \<^item> \<open>Audio_Frame\<close> (\<open>audio_frame.hpp\<close>), \<open>Codec\<close> (\<open>codec.hpp\<close> and the producer's encoder), \<open>Energy\<close>
    (\<open>energy.hpp\<close>): frames as records of words with a byte list; a read outside the payload is
    \<^const>\<open>None\<close>. Codec round trip and quantisation error, exact peak, bounds of the energies.
  \<^item> \<open>Vad_Gate\<close>, \<open>Chunker\<close>, \<open>Chunker_Props\<close> (\<open>vad.hpp\<close>): the gate's counters against a window
    specification; the assembler against a machine over lists of frames (chunks partition the stream,
    hangover, length cap, bounded buffer).
  \<^item> \<open>Spsc_Ring\<close>, \<open>Spsc_Concurrent\<close>, \<open>Spsc_Views\<close> (\<open>spsc_ring.hpp\<close>): the sequential operations with wrapping 64-bit
    indices against a bounded queue (locale \<open>bounded_queue\<close>, interpreted as \<open>ring_queue\<close>), and a step
    relation of the two threads, one memory access per step, in which a load of the other side's index
    may return any value between the last one seen and the current one (release/acquire). The calls of
    one side answer as in some sequential run, which is what the models of the loops around the rings
    use; the calls of both sides together need not. A push is wait-free: a stage that every own step of the
    producer raises bounds them by five per finished push.
  \<^item> \<open>Session_Table\<close>, \<open>Session_Inv\<close>, \<open>Session_Props\<close>, \<open>Session_History\<close> (\<open>session.hpp\<close>): open addressing with
    tombstones, its invariant over every operation, and the map it implements (locale \<open>id_table\<close>,
    interpreted as \<open>sessions\<close>); the counters against a history of the admissions, refusals and sizes, and
    what a session keeps for the call that gets it next.
  \<^item> \<open>Histogram\<close>, \<open>Histogram_Props\<close>, \<open>Histogram_Theorems\<close> (\<open>histogram.hpp\<close>): bucket arithmetic on words and
    on naturals, the multiset a histogram stands for (\<open>hist_rep\<close>), percentiles
    with the rank as double precision gives it, merging, coordinated omission.
  \<^item> \<open>Metrics\<close>, \<open>Text_Format\<close>, \<open>Report\<close> (\<open>metrics.hpp\<close>, \<open>Histogram::summary\<close>, \<open>dump_csv\<close>): the figures and
    the texts, with the \<open>printf\<close> conversions; the CSV file reads back to the counts.
  \<^item> \<open>Options\<close>: both \<open>parse_args\<close> and the C library's number conversions.
  \<^item> \<open>Wire\<close>, \<open>Uds_Ingest\<close>, \<open>Ingest_Props\<close> (\<open>pipeline.hpp\<close>, \<open>UdsIngest\<close>): little-endian records, the pump with
    its carry-over buffer, the accept loop.
  \<^item> \<open>Hot_Loop\<close>, \<open>Hot_Inv\<close>, \<open>Hot_Props\<close>, \<open>Hot_Record\<close>, \<open>Hot_Depth\<close>, \<open>Hot_Isolation\<close> (\<open>hot_loop\<close>): every step of
    the loop over two queues given as an interface (locale \<open>hot_queues\<close>, interpreted as \<open>shared\<close> on the
    two rings with the other threads acting in between): nothing is lost uncounted. \<open>Hot_Record\<close> adds to
    any two queues a log of the answers they give, which does not change the run (locale \<open>log_keeping\<close>,
    interpreted as \<open>history\<close> on what was popped and emitted and as \<open>depths\<close> on the depths found). Over the
    history calls that fit the table and stay alive do not influence one another, from the first frame
    to the flush at the end; over the depths the reported average is their integral over the time.
  \<^item> \<open>Producer\<close>, \<open>Producer_Noise\<close>, \<open>Producer_Sinks\<close>, \<open>Producer_Props\<close> (\<open>vhp_producer.cpp\<close>): generation of the
    frames, and the run over any sink that keeps the contract \<open>frame_sink\<close> (interpreted on a collecting
    list, on the socket and on the ring), which composes the producer with the reader.
  \<^item> \<open>Pipeline\<close> (\<open>pipeline.hpp\<close>), \<open>Producer_Main\<close>, \<open>Producer_Main_Props\<close> (\<open>main\<close> of \<open>vhp_producer.cpp\<close>): the whole
    program, with the segment it creates or attaches to: what is taken, left in the ring and reported adds
    up to what was there and what was generated; the exit statuses.
  \<^item> \<open>Shm_Segment\<close> (\<open>shm_ring.hpp\<close>), \<open>Publisher\<close> (\<open>publish_loop\<close>), \<open>Clock\<close> (\<open>clock.hpp\<close>).
  \<^item> \<open>Consumer_Main\<close>, \<open>Consumer_Props\<close> (\<open>main\<close> of \<open>vhp_consumer.cpp\<close>, \<open>UdsIngest::start\<close> and \<open>stop\<close>): the whole
    process, with \<open>hot_queues\<close> interpreted twice more (as \<open>shm\<close> and \<open>uds\<close>) with the real publisher at the
    event ring and the real reader at the frame ring; what is printed, reported and left in the file
    system at the end, and the ways a run fails.
  \<^item> \<open>Consumer_Calls\<close>: the composition. Queues that account for their contents (locale \<open>logged_queues\<close>, which
    extends \<open>hot_queues\<close>, interpreted as \<open>shm_calls\<close> and \<open>uds_calls\<close>) carry the history through \<open>main\<close>: from
    what arrives over what the hot loop hears to the chunks of each call and the lines printed, from the
    capture times to the percentiles of the report, and from the sequence numbers and arrival times of each
    call to the gaps and the jitter reported.
  \<^item> \<open>Whole_Run\<close>: a producer and a consumer together: the numbers the producer gives the frames of each call
    make the reported gaps the frames lost on the way.
  \<^item> \<open>Bench_Ring\<close>, \<open>Bench_Props\<close> (\<open>bench/bench_ring.cpp\<close>): the two threads of a benchmark run as steps of an
    arbitrary schedule, a ranking function for the steps that are left (three per item for the sender, two
    for the receiver and one to finish), and the texts the program prints.

  \<^bold>\<open>Conventions.\<close> A class or struct is a record with a prefix per type; member functions take and return
  the record. Integers keep their width. Clock readings, kernel answers and the moments at which other
  threads act are inputs (lists of ticks, of sizes, of pushes), and the end of such a list is the
  process being told to stop, so a statement about all lists is one about all schedules.
  \<^const>\<open>None\<close> is undefined behaviour or a loop that does not end; the theorems prove \<^const>\<open>Some\<close>.

  \<^bold>\<open>Bounds and fuel.\<close> The sizing loop of a histogram doubles a 64-bit value, so 65 rounds are enough
  (\<open>count_buckets\<close>, shown to end in \<open>hist_new_ok\<close>). A probe visits each slot once, which is the bound the
  source has (\<open>probe\<close>, \<open>find_slot\<close>); the rebuild's search for an empty slot has the number of slots
  as fuel, and the invariant leaves one empty (\<open>rebuild_total\<close>). Interrupted sleeps have fuel, with
  \<open>sleep_until_ends\<close> saying how much is needed. All other loops recurse on data.

  \<^bold>\<open>Not modelled.\<close> Signal handlers beyond the end of a run, scheduling, memory mapping beyond success or
  failure, progress messages and the words of \<open>strerror\<close>: system calls and text around the modelled parts.
  What the benchmark is for, the time its steps take on real cores, is outside the model. Tools, tests
  and build files are not part of the program. The relaxation of header stores in shared memory is the
  order of the source (the x86 order); compilers could reorder plain stores.
\<close>

end
